(* ===== verification/Prelude.thy ===== *)
theory Prelude
  imports Main "HOL-Library.Word" "HOL-Library.Monad_Syntax" "HOL-Library.Multiset"
begin

text \<open>
  Shared vocabulary of the development: the fixed-width integers of
  autogentoo/hacksaw/global.h, the parts of the C string library the program calls,
  conversions from double to integer as the tables use them, and generic lemmas about
  option-valued loops and about tables of buckets.

  Conventions. An operation whose C counterpart can run into undefined behaviour or a failed
  assert returns an option, and None stands for exactly that outcome; results the program
  reports itself (NULL, -1, error codes, Python exceptions) are ordinary values. A C string is a
  HOL string without its terminating NUL byte.
\<close>

unbundle bit_operations_syntax

named_theorems c_eval \<open>definitions that evaluate a closed run of the model\<close>

section \<open>Fixed-width integers\<close>

type_synonym U8 = "8 word"
type_synonym U16 = "16 word"
type_synonym U32 = "32 word"
type_synonym U64 = "64 word"

text \<open>A value converted to a signed 32-bit integer keeps its low 32 bits.\<close>

definition to_I32 :: "int \<Rightarrow> int" where
  "to_I32 x = (x + 2 ^ 31) mod 2 ^ 32 - 2 ^ 31"

definition fits_I32 :: "int \<Rightarrow> bool" where
  "fits_I32 x \<longleftrightarrow> - (2 ^ 31) \<le> x \<and> x < 2 ^ 31"

text \<open>Signed subtraction; an overflow is undefined behaviour.\<close>

definition sub_I32 :: "int \<Rightarrow> int \<Rightarrow> int option" where
  "sub_I32 a b = (if fits_I32 (a - b) then Some (a - b) else None)"

lemma to_I32_id: "fits_I32 x \<Longrightarrow> to_I32 x = x"
  by (simp add: to_I32_def fits_I32_def)

lemma to_I32_fits: "fits_I32 (to_I32 x)"
  by (simp add: to_I32_def fits_I32_def)

lemma sub_I32_nonneg:
  "0 \<le> a \<Longrightarrow> a < 2 ^ 31 \<Longrightarrow> 0 \<le> b \<Longrightarrow> b < 2 ^ 31 \<Longrightarrow> sub_I32 a b = Some (a - b)"
  by (simp add: sub_I32_def fits_I32_def)

section \<open>Integers in memory\<close>

text \<open>The first \<open>k\<close> bytes of an integer in memory, least significant first, and the integer in
  some bytes.\<close>

definition le_bytes :: "nat \<Rightarrow> 'a::len word \<Rightarrow> U8 list" where
  "le_bytes k x = map (\<lambda>i. ucast (drop_bit (8 * i) x)) [0..<k]"

fun le_word :: "U8 list \<Rightarrow> 'a::len word" where
  "le_word [] = 0"
| "le_word (b # bs) = ucast b OR push_bit 8 (le_word bs)"

lemma length_le_bytes [simp]: "length (le_bytes k x) = k"
  by (simp add: le_bytes_def)

lemma bit_le_word:
  "bit (le_word bs :: 'a::len word) n \<longleftrightarrow> n < LENGTH('a) \<and> n div 8 < length bs \<and> bit (bs ! (n div 8)) (n mod 8)"
proof (induction bs arbitrary: n)
  case (Cons b bs)
  show ?case
  proof (cases "n < 8")
    case True
    then show ?thesis by (auto simp: bit_simps dest: bit_imp_le_length)
  next
    case False
    then have d: "n div 8 = Suc ((n - 8) div 8)" "n mod 8 = (n - 8) mod 8"
      by (simp_all add: le_div_geq le_mod_geq)
    have "\<not> bit b n"
      using False by (auto dest: bit_imp_le_length)
    then show ?thesis
      using False Cons.IH [of "n - 8"] d by (auto simp: bit_simps)
  qed
qed simp

lemma le_word_bytes: "LENGTH('a) \<le> 8 * k \<Longrightarrow> le_word (le_bytes k (x :: 'a::len word)) = x"
proof (rule bit_word_eqI)
  fix n
  assume k: "LENGTH('a) \<le> 8 * k" and n: "n < LENGTH('a)"
  then have "n div 8 < k" by linarith
  then show "bit (le_word (le_bytes k x) :: 'a word) n \<longleftrightarrow> bit x n"
    using n by (simp add: bit_le_word le_bytes_def bit_simps)
qed

lemma le_bytes_word:
  assumes "length bs = k" "8 * k \<le> LENGTH('a)"
  shows "le_bytes k (le_word bs :: 'a::len word) = bs"
proof (rule nth_equalityI)
  fix i
  assume "i < length (le_bytes k (le_word bs :: 'a word))"
  then have i: "i < k" by simp
  show "le_bytes k (le_word bs :: 'a word) ! i = bs ! i"
  proof (rule bit_word_eqI)
    fix n
    assume "n < LENGTH(8)"
    then have n: "n < 8" by simp
    then have "(8 * i + n) div 8 = i" "(8 * i + n) mod 8 = n" "8 * i + n < LENGTH('a)"
      using i assms by simp_all
    then show "bit (le_bytes k (le_word bs :: 'a word) ! i) n \<longleftrightarrow> bit (bs ! i) n"
      using i n assms by (simp add: le_bytes_def bit_simps bit_le_word)
  qed
qed (simp add: assms)

section \<open>Characters and C strings\<close>

text \<open>The value of a char: signed, as on the platforms the program supports.\<close>

definition char_val :: "char \<Rightarrow> int" where
  "char_val c = (let n = of_char c in if n < 128 then n else n - 256)"

definition is_digit :: "char \<Rightarrow> bool" where
  "is_digit c \<longleftrightarrow> 48 \<le> (of_char c :: nat) \<and> (of_char c :: nat) \<le> 57"

definition is_space :: "char \<Rightarrow> bool" where
  "is_space c \<longleftrightarrow> (of_char c :: nat) = 32 \<or> 9 \<le> (of_char c :: nat) \<and> (of_char c :: nat) \<le> 13"

definition digit_val :: "char \<Rightarrow> int" where
  "digit_val c = of_char c - 48"

text \<open>Reading the byte at an index: the byte behind the last one is the NUL terminator, any
  index behind that is outside the string.\<close>

definition char_at :: "string \<Rightarrow> nat \<Rightarrow> char option" where
  "char_at s i =
     (if i < length s then Some (s ! i) else if i = length s then Some (CHR 0x00) else None)"

text \<open>\<open>str_last s n\<close> is \<open>s[n - 1]\<close>; with \<open>n = 0\<close> it reads before the string.\<close>

definition char_before :: "string \<Rightarrow> nat \<Rightarrow> char option" where
  "char_before s n = (if n = 0 then None else char_at s (n - 1))"

text \<open>\<open>strchr\<close>, \<open>strrchr\<close> and \<open>strpbrk\<close> return the index of the byte found.\<close>

fun strchr :: "string \<Rightarrow> char \<Rightarrow> nat option" where
  "strchr [] c = None"
| "strchr (x # xs) c = (if x = c then Some 0 else map_option Suc (strchr xs c))"

fun strrchr :: "string \<Rightarrow> char \<Rightarrow> nat option" where
  "strrchr [] c = None"
| "strrchr (x # xs) c =
     (case strrchr xs c of Some i \<Rightarrow> Some (Suc i) | None \<Rightarrow> if x = c then Some 0 else None)"

fun strpbrk :: "string \<Rightarrow> string \<Rightarrow> nat option" where
  "strpbrk [] acc = None"
| "strpbrk (x # xs) acc = (if x \<in> set acc then Some 0 else map_option Suc (strpbrk xs acc))"

text \<open>\<open>strcmp\<close> compares unsigned bytes; the program uses only the sign of the result, so a
  proper prefix is less by one.\<close>

fun strcmp :: "string \<Rightarrow> string \<Rightarrow> int" where
  "strcmp [] [] = 0"
| "strcmp (x # xs) [] = 1"
| "strcmp [] (y # ys) = - 1"
| "strcmp (x # xs) (y # ys) = (if x = y then strcmp xs ys else of_char x - of_char y)"

text \<open>\<open>strtol\<close> in base 10: leading white space, an optional sign, digits, and saturation at
  the range of a 64-bit long.\<close>

fun digits_val :: "int \<Rightarrow> string \<Rightarrow> int" where
  "digits_val acc [] = acc"
| "digits_val acc (c # cs) = (if is_digit c then digits_val (10 * acc + digit_val c) cs else acc)"

definition clamp_long :: "int \<Rightarrow> int" where
  "clamp_long x = max (- (2 ^ 63)) (min (2 ^ 63 - 1) x)"

definition strtol :: "string \<Rightarrow> int" where
  "strtol s =
     (case dropWhile is_space s of
        [] \<Rightarrow> 0
      | c # cs \<Rightarrow> clamp_long (if c = CHR ''-'' then - digits_val 0 cs
                               else if c = CHR ''+'' then digits_val 0 cs
                               else digits_val 0 (c # cs)))"

text \<open>Repeated \<open>strtok\<close>: the maximal runs of bytes that are no delimiters.\<close>

function strtok_all :: "string \<Rightarrow> string \<Rightarrow> string list" where
  "strtok_all delim s =
     (case dropWhile (\<lambda>c. c \<in> set delim) s of
        [] \<Rightarrow> []
      | c # cs \<Rightarrow> takeWhile (\<lambda>x. x \<notin> set delim) (c # cs)
                   # strtok_all delim (dropWhile (\<lambda>x. x \<notin> set delim) (c # cs)))"
  by pat_completeness auto
termination
proof (relation "measure (\<lambda>(d, s). length s)", simp)
  fix delim s c cs
  assume eq: "dropWhile (\<lambda>c. c \<in> set delim) s = c # cs"
  then have c: "c \<notin> set delim"
    using hd_dropWhile [of "\<lambda>c. c \<in> set delim" s] by simp
  have "length (dropWhile (\<lambda>x. x \<notin> set delim) (c # cs)) \<le> length cs"
    using c by (simp add: length_dropWhile_le)
  also have "\<dots> < length (dropWhile (\<lambda>c. c \<in> set delim) s)"
    using eq by simp
  also have "\<dots> \<le> length s"
    by (rule length_dropWhile_le)
  finally show "((delim, dropWhile (\<lambda>x. x \<notin> set delim) (c # cs)), delim, s)
      \<in> measure (\<lambda>(d, s). length s)"
    by simp
qed

declare strtok_all.simps [simp del]

lemma strcmp_eq_0 [simp]: "strcmp s t = 0 \<longleftrightarrow> s = t"
  by (induction s t rule: strcmp.induct) auto

section \<open>Products of a double and an integer\<close>

text \<open>
  The tables compute the fill level that triggers a reallocation as a double times the table
  size, converted to an integer. A non-negative double is a pair \<open>(m, e)\<close> for
  \<open>m / 2 ^ e\<close> with \<open>m < 2 ^ 53\<close>. Converting the size and multiplying round to 53 significant
  bits, ties to even; converting back truncates.
\<close>

type_synonym f64 = "nat \<times> nat"

fun bit_length :: "nat \<Rightarrow> nat" where
  "bit_length n = (if n = 0 then 0 else Suc (bit_length (n div 2)))"

declare bit_length.simps [simp del]

definition round53 :: "nat \<Rightarrow> nat" where
  "round53 n =
     (if bit_length n \<le> 53 then n
      else let k = bit_length n - 53; q = n div 2 ^ k; r = n mod 2 ^ k; half = 2 ^ (k - 1)
           in (if half < r \<or> r = half \<and> odd q then q + 1 else q) * 2 ^ k)"

definition f64_mul_u64 :: "f64 \<Rightarrow> U64 \<Rightarrow> U64" where
  "f64_mul_u64 t n = word_of_nat (round53 (fst t * round53 (unat n)) div 2 ^ snd t)"

lemmas f64_eval [c_eval] = f64_mul_u64_def round53_def bit_length.simps

lemma replicate_numeral [c_eval]: "replicate (numeral n) x = x # replicate (pred_numeral n) x"
  by (simp add: numeral_eq_Suc)

section \<open>Tables of buckets\<close>

text \<open>Both hash tables of the program keep a node in the bucket that its hash selects. The
  lemmas relate one bucket with the concatenation of all of them.\<close>

definition placed :: "('a \<Rightarrow> nat) \<Rightarrow> 'a list list \<Rightarrow> bool" where
  "placed ix t \<longleftrightarrow> (\<forall>b < length t. \<forall>x \<in> set (t ! b). ix x = b)"

definition put_last :: "('a \<Rightarrow> nat) \<Rightarrow> 'a \<Rightarrow> 'a list list \<Rightarrow> 'a list list" where
  "put_last ix x t = t[ix x := t ! ix x @ [x]]"

lemma placed_replicate [simp]: "placed ix (replicate n [])"
  by (simp add: placed_def)

lemma concat_update:
  "b < length t \<Longrightarrow> concat (t[b := xs]) = concat (take b t) @ xs @ concat (drop (Suc b) t)"
  by (simp add: upd_conv_take_nth_drop)

lemma concat_split:
  assumes "b < length t"
  shows "concat t = concat (take b t) @ t ! b @ concat (drop (Suc b) t)"
proof -
  have "concat t = concat (take b t @ t ! b # drop (Suc b) t)"
    by (rule arg_cong [where f = concat], rule id_take_nth_drop [OF assms])
  then show ?thesis
    unfolding concat_append concat.simps .
qed

lemma placed_filter_rest:
  assumes "placed ix t" "b < length t" "\<And>x. P x \<Longrightarrow> ix x = b"
  shows "filter P (concat (take b t)) = []" and "filter P (concat (drop (Suc b) t)) = []"
proof -
  have "\<not> P x" if "x \<in> set (t ! c)" "c < length t" "c \<noteq> b" for x c
  proof
    assume "P x"
    then have "ix x = b" by (rule assms(3))
    moreover have "ix x = c" using assms(1) that by (simp add: placed_def)
    ultimately show False using that by simp
  qed
  then show "filter P (concat (take b t)) = []" "filter P (concat (drop (Suc b) t)) = []"
    by (fastforce simp: filter_empty_conv in_set_conv_nth)+
qed

lemma placed_filter_concat:
  assumes "placed ix t" "b < length t" "\<And>x. P x \<Longrightarrow> ix x = b"
  shows "filter P (concat t) = filter P (t ! b)"
  by (simp add: concat_split [OF assms(2)] placed_filter_rest [OF assms])

lemma placed_update:
  "placed ix t \<Longrightarrow> (\<And>x. x \<in> set xs \<Longrightarrow> ix x = b) \<Longrightarrow> placed ix (t[b := xs])"
  by (cases "b < length t") (auto simp: placed_def nth_list_update split: if_splits)

lemma placed_filter_update:
  assumes "placed ix t" "b < length t" "\<And>x. P x \<Longrightarrow> ix x = b"
  shows "filter P (concat (t[b := xs])) = filter P xs"
  by (simp add: concat_update [OF assms(2)] placed_filter_rest [OF assms])

lemma filter_concat_update_other:
  assumes "b < length t" "filter P xs = filter P (t ! b)"
  shows "filter P (concat (t[b := xs])) = filter P (concat t)"
  by (simp add: concat_split [OF assms(1)] concat_update [OF assms(1)] assms(2))

lemma length_put_last [simp]: "length (put_last ix x t) = length t"
  by (simp add: put_last_def)

lemma placed_put_last:
  "placed ix t \<Longrightarrow> ix x < length t \<Longrightarrow> placed ix (put_last ix x t)"
  by (auto simp: put_last_def placed_def nth_list_update split: if_splits)

lemma add_mset_middle: "a + (b + {#x#}) + c = add_mset x (a + b + c)"
  by simp

lemma mset_put_last:
  assumes "ix x < length t"
  shows "mset (concat (put_last ix x t)) = add_mset x (mset (concat t))"
proof -
  let ?l = "mset (concat (take (ix x) t))" and ?r = "mset (concat (drop (Suc (ix x)) t))"
  have split: "mset (concat t) = ?l + mset (t ! ix x) + ?r"
    by (subst concat_split [OF assms]) (simp only: mset_append add.assoc)
  have "mset (concat (put_last ix x t)) = ?l + (mset (t ! ix x) + {#x#}) + ?r"
    unfolding put_last_def concat_update [OF assms]
    by (simp only: mset_append mset.simps add.assoc)
  also have "\<dots> = add_mset x (?l + mset (t ! ix x) + ?r)"
    by (rule add_mset_middle)
  finally show ?thesis
    unfolding split .
qed

lemma filter_put_last:
  assumes "placed ix t" "ix x < length t" "\<And>y. P y \<Longrightarrow> P x \<Longrightarrow> ix y = ix x"
  shows "filter P (concat (put_last ix x t)) = filter P (concat t) @ filter P [x]"
proof (cases "P x")
  case True
  have only: "ix y = ix x" if "P y" for y
    by (rule assms(3) [OF that True])
  have "filter P (concat (put_last ix x t)) = filter P (t ! ix x @ [x])"
    unfolding put_last_def by (rule placed_filter_update [OF assms(1,2) only])
  moreover have "filter P (concat t) = filter P (t ! ix x)"
    by (rule placed_filter_concat [OF assms(1,2) only])
  ultimately show ?thesis by simp
next
  case False
  then show ?thesis
    unfolding put_last_def using assms(2) by (simp add: filter_concat_update_other)
qed

end
