(* ===== verification/Version.thy ===== *)
theory Version
  imports Prelude "HOL-Library.List_Lexorder" "HOL-Library.Product_Lexorder"
begin

text \<open>
  Versions of autogentoo/cportage/atom.c: the chain of \<open>AtomVersion\<close> nodes that
  \<open>atom_version_init\<close> builds from a version string, their comparison by
  \<open>atom_version_compare\<close> and the Python operators on them. A chain of nodes is a list, NULL the
  empty list. The lemmas relate the comparison with the orders it stands for: on numbers and
  suffixes with a revision the lexicographic order, on components with a leading zero the order of
  decimal fractions; and they show where it is no order.
\<close>

section \<open>The nodes\<close>

datatype atom_version_pre =
  ATOM_PREFIX_ALPHA | ATOM_PREFIX_BETA | ATOM_PREFIX_PRE | ATOM_PREFIX_RC | ATOM_PREFIX_NONE
| ATOM_PREFIX_P

fun prefix_val :: "atom_version_pre \<Rightarrow> int" where
  "prefix_val ATOM_PREFIX_ALPHA = 0"
| "prefix_val ATOM_PREFIX_BETA = 1"
| "prefix_val ATOM_PREFIX_PRE = 2"
| "prefix_val ATOM_PREFIX_RC = 3"
| "prefix_val ATOM_PREFIX_NONE = 4"
| "prefix_val ATOM_PREFIX_P = 5"

record AtomVersion =
  full_version :: "string option"
  ver_v :: "string option"
  ver_prefix :: atom_version_pre
  ver_revision :: int

definition PyAtomVersion_new :: AtomVersion where
  "PyAtomVersion_new =
     \<lparr>full_version = None, ver_v = None, ver_prefix = ATOM_PREFIX_ALPHA, ver_revision = 0\<rparr>"

section \<open>Parsing\<close>

definition atom_prefix_links :: "(nat \<times> atom_version_pre) list" where
  "atom_prefix_links =
     [(5, ATOM_PREFIX_ALPHA), (4, ATOM_PREFIX_BETA), (3, ATOM_PREFIX_PRE), (2, ATOM_PREFIX_RC),
      (0, ATOM_PREFIX_NONE), (1, ATOM_PREFIX_P)]"

text \<open>The prefix of one component is recognised by its length alone.\<close>

definition version_piece :: "string \<Rightarrow> (atom_version_pre \<times> string) option" where
  "version_piece buf =
     (let prefix_len = (case strpbrk buf ''0123456789'' of None \<Rightarrow> 0 | Some i \<Rightarrow> i)
      in map_option (\<lambda>pre. (pre, drop prefix_len buf)) (map_of atom_prefix_links prefix_len))"

definition version_node :: "atom_version_pre \<times> string \<Rightarrow> AtomVersion" where
  "version_node p = PyAtomVersion_new\<lparr>ver_v := Some (snd p), ver_prefix := fst p\<rparr>"

lemma strpbrk_bound: "strpbrk s acc = Some i \<Longrightarrow> i < length s"
  by (induction s arbitrary: i) (auto split: if_splits)

text \<open>The loop over the components; its flag is false when a prefix is invalid, and then only the
  nodes before that component exist.\<close>

function version_loop :: "string \<Rightarrow> AtomVersion list \<times> bool" where
  "version_loop buf =
     (case strpbrk buf ''._-'' of
        None \<Rightarrow> (case version_piece buf of
            None \<Rightarrow> ([], False)
          | Some p \<Rightarrow> ([version_node p], True))
      | Some i \<Rightarrow> (case version_piece (take i buf) of
            None \<Rightarrow> ([], False)
          | Some p \<Rightarrow> let (next, ok) = version_loop (drop (Suc i) buf) in (version_node p # next, ok)))"
  by pat_completeness auto
termination
  by (relation "measure length") (auto dest: strpbrk_bound)

declare version_loop.simps [simp del]

text \<open>\<open>self\<close> is the head node and \<open>next\<close> the chain behind it before the call.\<close>

definition atom_version_init :: "AtomVersion \<Rightarrow> AtomVersion list \<Rightarrow> string \<Rightarrow> AtomVersion list" where
  "atom_version_init self next input =
     (let (self, version_str) =
            (case strrchr input CHR ''-'' of
               None \<Rightarrow> (self, input)
             | Some last_dash \<Rightarrow>
                 if char_at input (last_dash + 1) = Some CHR ''r''
                 then (self\<lparr>ver_revision := to_I32 (strtol (drop (last_dash + 2) input))\<rparr>,
                       take last_dash input)
                 else (self, input));
          (nodes, ok) = version_loop version_str
      in case nodes of
           [] \<Rightarrow> self # next
         | node # nodes \<Rightarrow>
             self\<lparr>ver_v := ver_v node, ver_prefix := ver_prefix node,
                  full_version := (if ok then Some input else full_version self)\<rparr> # nodes)"

definition parse_version :: "string \<Rightarrow> AtomVersion list" where
  "parse_version input = atom_version_init PyAtomVersion_new [] input"

section \<open>Comparison\<close>

text \<open>The numbers of two components: plain numbers, or decimal fractions in the static buffers
  when one of them has a leading zero.\<close>

definition pad_zero :: "nat \<Rightarrow> nat \<Rightarrow> string \<Rightarrow> string" where
  "pad_zero maxlength l s = take l s @ replicate (maxlength - l) CHR ''0''"

definition version_numbers :: "string \<Rightarrow> nat \<Rightarrow> string \<Rightarrow> nat \<Rightarrow> (int \<times> int) option" where
  "version_numbers scf scf_l scs scs_l =
     (if (char_at scf 0 \<noteq> Some CHR ''0'' \<or> scf_l = 1) \<and> (char_at scs 0 \<noteq> Some CHR ''0'' \<or> scs_l = 1)
      then Some (to_I32 (strtol scf), to_I32 (strtol scs))
      else let maxlength = max scf_l scs_l
           in if maxlength < 128
              then Some (to_I32 (strtol (pad_zero maxlength scf_l scf)),
                         to_I32 (strtol (pad_zero maxlength scs_l scs)))
              else None)"

text \<open>One iteration: None is undefined behaviour or the failed assert, \<open>Some (Some r)\<close> returns
  \<open>r\<close>, \<open>Some None\<close> goes on. The two flags tell whether the nodes have a successor.\<close>

definition is_suffix :: "char \<Rightarrow> bool" where
  "is_suffix c \<longleftrightarrow> char_val c > char_val CHR ''9''"

definition version_compare_node ::
    "AtomVersion \<Rightarrow> bool \<Rightarrow> AtomVersion \<Rightarrow> bool \<Rightarrow> int option option" where
  "version_compare_node cf cf_next cs cs_next =
     (if ver_prefix cf \<noteq> ver_prefix cs
      then Some (Some (prefix_val (ver_prefix cf) - prefix_val (ver_prefix cs)))
      else do {
        scf \<leftarrow> ver_v cf;
        scs \<leftarrow> ver_v cs;
        c1 \<leftarrow> char_before scf (length scf);
        (star_skip, scf_l, scs_l) \<leftarrow>
          (if c1 = CHR ''*'' then Some (True, length scf - 1, length scs)
           else do { c2 \<leftarrow> char_before scs (length scs);
                     Some (if c2 = CHR ''*'' then (True, length scf, length scs - 1)
                           else (False, length scf, length scs)) });
        r \<leftarrow> (if cs_next then map_option is_suffix (char_before scf scf_l) else Some False);
        if r then Some (Some (- 1))
        else do {
          r \<leftarrow> (if cf_next then map_option is_suffix (char_before scs scs_l) else Some False);
          if r then Some (Some 1)
          else do {
            c1 \<leftarrow> char_before scf scf_l;
            c2 \<leftarrow> char_before scs scs_l;
            let scf_suf = (if is_suffix c1 then char_val c1 else 0);
            let scs_suf = (if is_suffix c2 then char_val c2 else 0);
            (cmp_1, cmp_2) \<leftarrow> version_numbers scf scf_l scs scs_l;
            cmp \<leftarrow> sub_I32 cmp_1 cmp_2;
            Some (if cmp \<noteq> 0 then Some cmp
                  else if star_skip then Some 0
                  else if scf_suf - scs_suf \<noteq> 0 then Some (scf_suf - scs_suf)
                  else None) } } })"

fun version_compare_loop :: "AtomVersion list \<Rightarrow> AtomVersion list \<Rightarrow> int option option" where
  "version_compare_loop (cf # cf_next) (cs # cs_next) =
     do { r \<leftarrow> version_compare_node cf (cf_next \<noteq> []) cs (cs_next \<noteq> []);
          case r of Some c \<Rightarrow> Some (Some c) | None \<Rightarrow> version_compare_loop cf_next cs_next }"
| "version_compare_loop (cf # cf_next) [] = Some (Some 1)"
| "version_compare_loop [] (cs # cs_next) = Some (Some (- 1))"
| "version_compare_loop [] [] = Some None"

definition atom_version_compare :: "AtomVersion list \<Rightarrow> AtomVersion list \<Rightarrow> int option" where
  "atom_version_compare first second =
     do { r \<leftarrow> version_compare_loop first second;
          case r of
            Some c \<Rightarrow> Some c
          | None \<Rightarrow> if first = [] \<or> second = [] then None
                    else sub_I32 (ver_revision (hd first)) (ver_revision (hd second)) }"

section \<open>The Python type\<close>

datatype py_op = Py_LT | Py_LE | Py_EQ | Py_NE | Py_GT | Py_GE

fun Py_RETURN_RICHCOMPARE :: "int \<Rightarrow> int \<Rightarrow> py_op \<Rightarrow> bool" where
  "Py_RETURN_RICHCOMPARE a b Py_LT = (a < b)"
| "Py_RETURN_RICHCOMPARE a b Py_LE = (a \<le> b)"
| "Py_RETURN_RICHCOMPARE a b Py_EQ = (a = b)"
| "Py_RETURN_RICHCOMPARE a b Py_NE = (a \<noteq> b)"
| "Py_RETURN_RICHCOMPARE a b Py_GT = (a > b)"
| "Py_RETURN_RICHCOMPARE a b Py_GE = (a \<ge> b)"

definition PyAtomVersion_richcompare :: "AtomVersion list \<Rightarrow> AtomVersion list \<Rightarrow> py_op \<Rightarrow> bool option" where
  "PyAtomVersion_richcompare self other op' =
     map_option (\<lambda>compare. Py_RETURN_RICHCOMPARE compare 0 op') (atom_version_compare self other)"

text \<open>A version without \<open>full_version\<close> hands NULL to the formatter.\<close>

definition PyAtomVersion_repr :: "AtomVersion list \<Rightarrow> string option" where
  "PyAtomVersion_repr self =
     (case self of [] \<Rightarrow> None
      | node # _ \<Rightarrow> map_option (\<lambda>s. ''AtomVersion<'' @ s @ ''>'') (full_version node))"

section \<open>Decimal numerals\<close>

definition dec_digit :: "nat \<Rightarrow> char" where
  "dec_digit d = char_of (48 + d)"

fun dec :: "nat \<Rightarrow> string" where
  "dec n = (if n < 10 then [dec_digit n] else dec (n div 10) @ [dec_digit (n mod 10)])"

declare dec.simps [simp del]

lemma of_char_dec_digit: "d < 10 \<Longrightarrow> (of_char (dec_digit d) :: nat) = 48 + d"
  by (simp add: dec_digit_def)

lemma of_char_int_nat: "(of_char c :: int) = int (of_char c)"
  by (simp only: of_nat_of_char)

lemma dec_digit_props [simp]:
  assumes "d < 10"
  shows "is_digit (dec_digit d)" "digit_val (dec_digit d) = int d"
    "dec_digit d = CHR ''0'' \<longleftrightarrow> d = 0"
proof -
  show "is_digit (dec_digit d)"
    using assms by (simp add: is_digit_def of_char_dec_digit)
  show "digit_val (dec_digit d) = int d"
    using assms of_char_int_nat [of "dec_digit d"] by (simp add: digit_val_def of_char_dec_digit)
  have "dec_digit d = CHR ''0'' \<longleftrightarrow> (of_char (dec_digit d) :: nat) = of_char (CHR ''0'')"
    by (simp only: of_char_eq_iff)
  then show "dec_digit d = CHR ''0'' \<longleftrightarrow> d = 0"
    using assms by (simp add: of_char_dec_digit)
qed

lemma dec_digit_eval [c_eval]: "dec_digit 0 = CHR ''0''" "dec_digit (Suc 0) = CHR ''1''"
    "dec_digit 2 = CHR ''2''" "dec_digit 3 = CHR ''3''" "dec_digit 4 = CHR ''4''"
    "dec_digit 5 = CHR ''5''" "dec_digit 6 = CHR ''6''" "dec_digit 7 = CHR ''7''"
    "dec_digit 8 = CHR ''8''" "dec_digit 9 = CHR ''9''"
  by (simp_all add: dec_digit_def char_of_def bit_Suc_0_iff)

lemma digit_not:
  assumes "is_digit c"
  shows "\<not> is_space c" "c \<noteq> CHR ''-''" "c \<noteq> CHR ''+''" "c \<noteq> CHR ''.''" "c \<noteq> CHR ''_''"
    "c \<noteq> CHR ''*''" "c \<noteq> CHR ''r''" "\<not> is_suffix c" "c \<in> set ''0123456789''"
proof -
  show "\<not> is_space c" "\<not> is_suffix c"
    using assms of_char_int_nat [of c]
    by (auto simp: is_digit_def is_space_def is_suffix_def char_val_def Let_def)
  show "c \<noteq> CHR ''-''" "c \<noteq> CHR ''+''" "c \<noteq> CHR ''.''" "c \<noteq> CHR ''_''" "c \<noteq> CHR ''*''"
    "c \<noteq> CHR ''r''"
    using assms by (auto simp: is_digit_def)
  have "of_char c \<in> {48..57 :: nat}"
    using assms by (simp add: is_digit_def)
  then have "(of_char c :: nat) \<in> set (map of_char ''0123456789'')"
    by (simp add: atLeastAtMost_iff) presburger
  then show "c \<in> set ''0123456789''"
    by (simp only: set_map image_iff) (metis of_char_eq_iff)
qed

lemma dec_digits: "\<forall>c \<in> set (dec n). is_digit c"
  by (induction n rule: dec.induct) (subst dec.simps, auto)

lemma dec_nonempty [simp]: "dec n \<noteq> []"
  by (subst dec.simps) simp

lemma dec_last: "is_digit (last (dec n))"
  using dec_digits [of n] by simp

lemma dec_hd: "is_digit (hd (dec n))"
  using dec_digits [of n] by simp

lemma digits_val_append:
  "\<forall>c \<in> set xs. is_digit c \<Longrightarrow> digits_val acc (xs @ ys) = digits_val (digits_val acc xs) ys"
  by (induction xs arbitrary: acc) auto

lemma digits_val_dec: "digits_val 0 (dec n) = int n"
proof (induction n rule: dec.induct)
  case (1 n)
  show ?case
  proof (cases "n < 10")
    case True
    then show ?thesis by (subst dec.simps) simp
  next
    case False
    then have "digits_val 0 (dec n) = digits_val (digits_val 0 (dec (n div 10))) [dec_digit (n mod 10)]"
      by (subst dec.simps) (simp add: digits_val_append dec_digits)
    then show ?thesis
      using 1 [OF False] by simp (metis mult.commute div_mult_mod_eq of_nat_add of_nat_mult of_nat_numeral)
  qed
qed

lemma dec_leading_zero: "hd (dec n) = CHR ''0'' \<longleftrightarrow> n = 0"
proof (induction n rule: dec.induct)
  case (1 n)
  show ?case
  proof (cases "n < 10")
    case True
    then show ?thesis by (subst dec.simps) simp
  next
    case False
    then show ?thesis
      using 1 [OF False] by (subst dec.simps) simp
  qed
qed

text \<open>\<open>strtol\<close> on a string of digits, possibly followed by something else.\<close>

lemma strtol_digits:
  assumes "xs \<noteq> []" "\<forall>c \<in> set xs. is_digit c"
  shows "strtol (xs @ ys) = clamp_long (digits_val 0 (xs @ ys))"
proof -
  obtain c cs where xs: "xs = c # cs" using assms(1) by (cases xs) auto
  then have "is_digit c" using assms(2) by simp
  then show ?thesis
    using digit_not [of c] by (simp add: strtol_def xs)
qed

lemma strtol_dec: "n < 2 ^ 63 \<Longrightarrow> strtol (dec n) = int n"
  using strtol_digits [OF dec_nonempty dec_digits, of n "[]"]
  by (simp add: digits_val_dec clamp_long_def)

section \<open>Components with a revision\<close>

text \<open>
  The versions of Gentoo: components of a prefix and a number, the first one a plain number, each
  further plain number behind a dot and each suffix behind an underscore, and an optional \<open>-r\<close>
  revision, as in \<open>1.2.3_rc4_p5-r6\<close>.
\<close>

type_synonym component = "atom_version_pre \<times> nat"

fun suffix_name :: "atom_version_pre \<Rightarrow> string" where
  "suffix_name ATOM_PREFIX_ALPHA = ''alpha''"
| "suffix_name ATOM_PREFIX_BETA = ''beta''"
| "suffix_name ATOM_PREFIX_PRE = ''pre''"
| "suffix_name ATOM_PREFIX_RC = ''rc''"
| "suffix_name ATOM_PREFIX_NONE = ''''"
| "suffix_name ATOM_PREFIX_P = ''p''"

definition separator :: "atom_version_pre \<Rightarrow> char" where
  "separator p = (if p = ATOM_PREFIX_NONE then CHR ''.'' else CHR ''_'')"

definition component_text :: "component \<Rightarrow> string" where
  "component_text c = suffix_name (fst c) @ dec (snd c)"

fun components_text :: "component list \<Rightarrow> string" where
  "components_text [] = []"
| "components_text [c] = component_text c"
| "components_text (c # d # cs) = component_text c @ separator (fst d) # components_text (d # cs)"

definition version_text :: "component list \<Rightarrow> nat option \<Rightarrow> string" where
  "version_text cs r = components_text cs @ (case r of None \<Rightarrow> [] | Some k \<Rightarrow> ''-r'' @ dec k)"

definition rev_of :: "nat option \<Rightarrow> nat" where
  "rev_of r = (case r of None \<Rightarrow> 0 | Some k \<Rightarrow> k)"

lemmas version_text_eval = version_text_def component_text_def separator_def dec.simps dec_digit_eval

text \<open>A plain number as a component.\<close>

abbreviation num :: "nat \<Rightarrow> component" where
  "num n \<equiv> (ATOM_PREFIX_NONE, n)"

lemma strpbrk_None: "set xs \<inter> set acc = {} \<Longrightarrow> strpbrk xs acc = None"
  by (induction xs) auto

lemma strpbrk_append: "set xs \<inter> set acc = {} \<Longrightarrow> c \<in> set acc \<Longrightarrow> strpbrk (xs @ c # ys) acc = Some (length xs)"
  by (induction xs) auto

lemma strrchr_None: "c \<notin> set xs \<Longrightarrow> strrchr xs c = None"
  by (induction xs) auto

lemma strrchr_append: "c \<notin> set ys \<Longrightarrow> strrchr (xs @ c # ys) c = Some (length xs)"
  by (induction xs) (auto simp: strrchr_None)

lemma no_digits [simp]: "\<not> is_digit CHR ''.''" "\<not> is_digit CHR ''_''" "\<not> is_digit CHR ''-''"
    "\<not> is_digit CHR ''*''" "\<not> is_digit CHR ''r''"
  by (simp_all add: is_digit_def)

lemma dec_no_split: "set (dec n) \<inter> set ''._-'' = {}"
  using dec_digits [of n] by auto

lemma suffix_name_chars: "set (suffix_name p) \<inter> set ''._-'' = {}"
    "set (suffix_name p) \<inter> set ''0123456789'' = {}" "CHR ''*'' \<notin> set (suffix_name p)"
  by (cases p; simp)+

lemma component_no_split: "set (component_text c) \<inter> set ''._-'' = {}"
  unfolding component_text_def set_append Int_Un_distrib2
  using dec_no_split suffix_name_chars(1) by blast

lemma separator_splits: "separator p \<in> set ''._-''"
  by (simp add: separator_def)

lemma components_no_dash: "CHR ''-'' \<notin> set (components_text cs)"
proof (induction cs rule: components_text.induct)
  case (2 c)
  then show ?case using component_no_split [of c] by auto
next
  case (3 c d cs)
  then show ?case using component_no_split [of c] by (auto simp: separator_def)
qed simp

text \<open>A component of digits, also with a suffix, has the prefix \<open>ATOM_PREFIX_NONE\<close>.\<close>

lemma version_piece_digit:
  assumes "is_digit c"
  shows "version_piece (c # cs) = Some (ATOM_PREFIX_NONE, c # cs)"
proof -
  have "strpbrk (c # cs) ''0123456789'' = Some 0"
    using digit_not(9) [OF assms] by (simp only: strpbrk.simps if_True)
  then show ?thesis
    by (simp add: version_piece_def atom_prefix_links_def)
qed

lemma version_piece_component:
  "version_piece (suffix_name p @ dec n @ s) = Some (p, dec n @ s)"
proof -
  obtain d ds where d: "dec n = d # ds" "is_digit d"
    using dec_nonempty [of n] dec_digits [of n] by (cases "dec n") auto
  have "strpbrk (suffix_name p @ d # ds @ s) ''0123456789'' = Some (length (suffix_name p))"
    using suffix_name_chars(2) digit_not(9) [OF d(2)] by (rule strpbrk_append)
  then show ?thesis
    unfolding d(1) by (cases p) (simp_all add: version_piece_def atom_prefix_links_def)
qed

definition component_node :: "component \<Rightarrow> AtomVersion" where
  "component_node c = version_node (fst c, dec (snd c))"

lemma version_piece_text: "version_piece (component_text c) = Some (fst c, dec (snd c))"
  using version_piece_component [of "fst c" "snd c" "[]"] by (simp add: component_text_def)

lemma version_loop_component: "version_loop (component_text c) = ([component_node c], True)"
  using strpbrk_None [OF component_no_split] version_piece_text [of c]
  by (subst version_loop.simps) (simp add: component_node_def)

lemma version_loop_cons:
  assumes "set xs \<inter> set ''._-'' = {}" "c \<in> set ''._-''" "version_piece xs = Some p"
  shows "version_loop (xs @ c # ys) =
    (version_node p # fst (version_loop ys), snd (version_loop ys))"
  using strpbrk_append [OF assms(1,2), of ys] assms(3)
  by (subst version_loop.simps) (simp add: split_beta)

lemma version_loop_component_cons:
  "version_loop (component_text c @ separator p # ys) =
    (component_node c # fst (version_loop ys), snd (version_loop ys))"
  using version_loop_cons [OF component_no_split separator_splits version_piece_text, of c p]
  by (simp add: component_node_def)

lemma version_loop_components:
  "cs \<noteq> [] \<Longrightarrow> version_loop (components_text cs) = (map component_node cs, True)"
  by (induction cs rule: components_text.induct)
    (simp_all add: version_loop_component version_loop_component_cons)

text \<open>Parsing splits off the revision and makes one node per component.\<close>

definition components_version :: "string \<Rightarrow> component list \<Rightarrow> int \<Rightarrow> AtomVersion list" where
  "components_version s cs r =
     (component_node (hd cs))\<lparr>full_version := Some s, ver_revision := r\<rparr> # map component_node (tl cs)"

lemma parse_components:
  assumes "cs \<noteq> []" and "rev_of r < 2 ^ 31"
  shows "parse_version (version_text cs r)
    = components_version (version_text cs r) cs (int (rev_of r))"
proof (cases r)
  case None
  then show ?thesis
    using strrchr_None [OF components_no_dash] version_loop_components [OF assms(1)] assms(1)
    by (cases cs) (simp_all add: parse_version_def atom_version_init_def version_text_def
        components_version_def rev_of_def component_node_def version_node_def PyAtomVersion_new_def)
next
  case (Some k)
  have "CHR ''-'' \<notin> set (''r'' @ dec k)"
    using dec_no_split [of k] by auto
  then have "strrchr (version_text cs r) CHR ''-'' = Some (length (components_text cs))"
    using strrchr_append [of "CHR ''-''" "''r'' @ dec k" "components_text cs"] Some
    by (simp add: version_text_def)
  moreover have "to_I32 (strtol (dec k)) = int k"
    using assms(2) Some by (simp add: strtol_dec rev_of_def to_I32_id fits_I32_def)
  ultimately show ?thesis
    using version_loop_components [OF assms(1)] assms(1) Some
    by (cases cs) (simp_all add: parse_version_def atom_version_init_def version_text_def
        components_version_def rev_of_def component_node_def version_node_def PyAtomVersion_new_def
        char_at_def nth_append)
qed

section \<open>Comparing components\<close>

text \<open>The prefixes are ordered as \<open>prefix_val\<close> orders them, components by the prefix first.\<close>

lemma prefix_val_inject [simp]: "prefix_val p = prefix_val q \<longleftrightarrow> p = q"
  by (cases p; cases q) simp_all

instantiation atom_version_pre :: linorder
begin

definition less_eq_atom_version_pre :: "atom_version_pre \<Rightarrow> atom_version_pre \<Rightarrow> bool" where
  "less_eq_atom_version_pre p q \<longleftrightarrow> prefix_val p \<le> prefix_val q"

definition less_atom_version_pre :: "atom_version_pre \<Rightarrow> atom_version_pre \<Rightarrow> bool" where
  "less_atom_version_pre p q \<longleftrightarrow> prefix_val p < prefix_val q"

instance
  by standard (auto simp: less_eq_atom_version_pre_def less_atom_version_pre_def)

end

definition component_of :: "AtomVersion \<Rightarrow> component \<Rightarrow> bool" where
  "component_of v c \<longleftrightarrow> ver_v v = Some (dec (snd c)) \<and> ver_prefix v = fst c"

lemma component_node_of [simp]: "component_of (component_node c) c"
  by (simp add: component_of_def component_node_def version_node_def)

text \<open>What the comparison of two components returns.\<close>

definition component_diff :: "component \<Rightarrow> component \<Rightarrow> int" where
  "component_diff c d =
     (if fst c = fst d then int (snd c) - int (snd d) else prefix_val (fst c) - prefix_val (fst d))"

lemma component_diff_sign:
  "component_diff c d < 0 \<longleftrightarrow> c < d" "component_diff c d = 0 \<longleftrightarrow> c = d"
  by (auto simp: component_diff_def less_prod_def' less_atom_version_pre_def prod_eq_iff)

lemma char_before_last: "s \<noteq> [] \<Longrightarrow> char_before s (length s) = Some (last s)"
  by (cases s rule: rev_cases) (simp_all add: char_before_def char_at_def)

lemma char_at_hd: "s \<noteq> [] \<Longrightarrow> char_at s 0 = Some (hd s)"
  by (cases s) (simp_all add: char_at_def)

lemma dec_no_fraction: "char_at (dec n) 0 \<noteq> Some CHR ''0'' \<or> length (dec n) = 1"
  using dec_leading_zero [of n] by (cases "n = 0") (simp_all add: char_at_hd dec.simps [of 0])

lemma dec_last_not: "last (dec k) \<noteq> CHR ''*''" "\<not> is_suffix (last (dec k))"
  using digit_not [OF dec_last] by auto

lemma version_numbers_dec:
  assumes "n < 2 ^ 31" "m < 2 ^ 31"
  shows "version_numbers (dec n) (length (dec n)) (dec m) (length (dec m)) = Some (int n, int m)"
  using assms dec_no_fraction [of n] dec_no_fraction [of m]
  by (auto simp: version_numbers_def strtol_dec to_I32_id fits_I32_def)

lemma compare_component_node:
  assumes "component_of cf c" "component_of cs d" "snd c < 2 ^ 31" "snd d < 2 ^ 31"
  shows "version_compare_node cf f cs g = Some (if c = d then None else Some (component_diff c d))"
proof (cases "fst c = fst d")
  case True
  have "sub_I32 (int (snd c)) (int (snd d)) = Some (int (snd c) - int (snd d))"
    using assms(3,4) by (intro sub_I32_nonneg) simp_all
  then show ?thesis
    using assms dec_last_not version_numbers_dec [OF assms(3,4)] True
    by (cases "snd c = snd d") (auto simp: component_of_def version_compare_node_def component_diff_def
        char_before_last Let_def prod_eq_iff)
next
  case False
  then show ?thesis
    using assms by (auto simp: component_of_def version_compare_node_def component_diff_def)
qed

text \<open>Equal components in front do not matter.\<close>

lemma compare_common:
  assumes "list_all2 component_of vs cs" "list_all2 component_of ws cs" "\<forall>c \<in> set cs. snd c < 2 ^ 31"
  shows "version_compare_loop (vs @ xs) (ws @ ys) = version_compare_loop xs ys"
  using assms
proof (induction cs arbitrary: vs ws rule: list.induct)
  case (Cons c cs)
  then obtain v vs' w ws' where eq: "vs = v # vs'" "ws = w # ws'"
      and nodes: "component_of v c" "component_of w c"
      and rest: "list_all2 component_of vs' cs" "list_all2 component_of ws' cs"
    by (auto simp: list_all2_Cons2)
  have "version_compare_node v f w g = Some None" for f g
    using compare_component_node [OF nodes] Cons.prems(3) by simp
  then show ?case
    using Cons.IH [OF rest] Cons.prems(3) eq by simp
qed simp

text \<open>The chains of two versions; the result is that of the first difference.\<close>

lemma compare_component_loop:
  assumes "list_all2 component_of vs cs" "list_all2 component_of ws ds"
    and "\<forall>c \<in> set cs. snd c < 2 ^ 31" "\<forall>d \<in> set ds. snd d < 2 ^ 31"
  shows "if cs = ds then version_compare_loop vs ws = Some None
    else \<exists>x. version_compare_loop vs ws = Some (Some x) \<and> (x < 0 \<longleftrightarrow> cs < ds) \<and> x \<noteq> 0"
  using assms
proof (induction vs ws arbitrary: cs ds rule: version_compare_loop.induct)
  case (1 cf cf_next cs' cs_next)
  then obtain c cr d dr where eq: "cs = c # cr" "ds = d # dr"
      and nodes: "component_of cf c" "component_of cs' d"
      and rest: "list_all2 component_of cf_next cr" "list_all2 component_of cs_next dr"
    by (auto simp: list_all2_Cons1)
  have cmp: "version_compare_node cf f cs' g = Some (if c = d then None else Some (component_diff c d))" for f g
    using compare_component_node [OF nodes] 1(4,5) eq by auto
  show ?case
  proof (cases "c = d")
    case True
    then show ?thesis
      using 1(1) [of None cr dr] cmp rest 1(4,5) eq by auto
  next
    case False
    then show ?thesis using cmp eq component_diff_sign [of c d] by auto
  qed
qed (auto simp: list_all2_Cons1)

lemma components_version_nodes:
  "cs \<noteq> [] \<Longrightarrow> list_all2 component_of (components_version s cs r) cs"
  by (cases cs) (auto simp: components_version_def component_of_def component_node_def version_node_def
      list_all2_map1 list.rel_refl)

text \<open>The abstract order: the components, then the revision, lexicographically.\<close>

definition bounded :: "component list \<Rightarrow> nat option \<Rightarrow> bool" where
  "bounded cs r \<longleftrightarrow> cs \<noteq> [] \<and> fst (hd cs) = ATOM_PREFIX_NONE \<and> (\<forall>c \<in> set cs. snd c < 2 ^ 31)
     \<and> rev_of r < 2 ^ 31"

definition component_chain :: "AtomVersion list \<Rightarrow> component list \<Rightarrow> nat \<Rightarrow> bool" where
  "component_chain v cs r \<longleftrightarrow> list_all2 component_of v cs \<and> v \<noteq> [] \<and> ver_revision (hd v) = int r
     \<and> (\<forall>c \<in> set cs. snd c < 2 ^ 31) \<and> r < 2 ^ 31"

lemma compare_component_chain:
  assumes "component_chain v cs r" "component_chain w ds q"
  shows "\<exists>x. atom_version_compare v w = Some x
    \<and> (x < 0 \<longleftrightarrow> (cs, r) < (ds, q)) \<and> (x = 0 \<longleftrightarrow> (cs, r) = (ds, q))"
proof -
  have "if cs = ds then version_compare_loop v w = Some None
    else \<exists>x. version_compare_loop v w = Some (Some x) \<and> (x < 0 \<longleftrightarrow> cs < ds) \<and> x \<noteq> 0"
    using assms by (intro compare_component_loop) (auto simp: component_chain_def)
  moreover have "sub_I32 (int r) (int q) = Some (int r - int q)"
    using assms by (intro sub_I32_nonneg) (auto simp: component_chain_def)
  ultimately show ?thesis
    using assms
    by (cases "cs = ds") (auto simp: atom_version_compare_def less_prod_def' component_chain_def)
qed

lemma parsed_chain:
  assumes "bounded cs r"
  shows "component_chain (parse_version (version_text cs r)) cs (rev_of r)"
proof -
  have "parse_version (version_text cs r) = components_version (version_text cs r) cs (int (rev_of r))"
    using assms by (simp add: parse_components bounded_def)
  then show ?thesis
    using assms components_version_nodes [of cs]
    by (auto simp: component_chain_def bounded_def) (simp_all add: components_version_def)
qed

section \<open>The comparison as an interface\<close>

text \<open>
  What a list of versions kept newest first relies on: the comparison is defined on the versions
  in question and is a total preorder.
\<close>

definition not_newer :: "('v \<Rightarrow> 'v \<Rightarrow> int option) \<Rightarrow> 'v \<Rightarrow> 'v \<Rightarrow> bool" where
  "not_newer cmp v w \<longleftrightarrow> (\<exists>c. cmp v w = Some c \<and> c \<le> 0)"

text \<open>Insertion in front of the first version that is older.\<close>

fun insert_newest :: "('v \<Rightarrow> 'v \<Rightarrow> int option) \<Rightarrow> ('x \<Rightarrow> 'v) \<Rightarrow> 'x \<Rightarrow> 'x list \<Rightarrow> 'x list" where
  "insert_newest cmp ver x [] = [x]"
| "insert_newest cmp ver x (y # ys) =
     (if not_newer cmp (ver x) (ver y) then y # insert_newest cmp ver x ys else x # y # ys)"

definition newest_first :: "('v \<Rightarrow> 'v \<Rightarrow> int option) \<Rightarrow> ('x \<Rightarrow> 'v) \<Rightarrow> 'x list \<Rightarrow> bool" where
  "newest_first cmp ver xs \<longleftrightarrow> sorted_wrt (\<lambda>x y. not_newer cmp (ver y) (ver x)) xs"

lemma set_insert_newest [simp]: "set (insert_newest cmp ver x ys) = insert x (set ys)"
  by (induction ys) auto

locale version_order =
  fixes cmp :: "'v \<Rightarrow> 'v \<Rightarrow> int option" and good :: "'v \<Rightarrow> bool"
  assumes defined: "good v \<Longrightarrow> good w \<Longrightarrow> \<exists>c. cmp v w = Some c"
    and swap: "good v \<Longrightarrow> good w \<Longrightarrow> cmp v w = Some c \<Longrightarrow> cmp w v = Some d \<Longrightarrow> 0 < c \<longleftrightarrow> d < 0"
    and trans: "good u \<Longrightarrow> good v \<Longrightarrow> good w \<Longrightarrow> not_newer cmp u v \<Longrightarrow> not_newer cmp v w \<Longrightarrow> not_newer cmp u w"
begin

lemma newer_swap: "good v \<Longrightarrow> good w \<Longrightarrow> \<not> not_newer cmp v w \<Longrightarrow> not_newer cmp w v"
  using defined [of v w] defined [of w v] swap [of v w] unfolding not_newer_def by fastforce

lemma insert_keeps_order:
  assumes "newest_first cmp ver ys" "good (ver x)" "\<forall>y \<in> set ys. good (ver y)"
  shows "newest_first cmp ver (insert_newest cmp ver x ys)"
  using assms
proof (induction ys)
  case Nil
  then show ?case by (simp add: newest_first_def)
next
  case (Cons y ys)
  show ?case
  proof (cases "not_newer cmp (ver x) (ver y)")
    case True
    then show ?thesis using Cons by (auto simp: newest_first_def)
  next
    case False
    then have "not_newer cmp (ver y) (ver x)"
      using Cons.prems newer_swap by simp
    moreover have "not_newer cmp (ver z) (ver x)" if "z \<in> set ys" for z
      using Cons.prems that calculation trans [of "ver z" "ver y" "ver x"]
      by (auto simp: newest_first_def)
    ultimately show ?thesis
      using False Cons.prems by (auto simp: newest_first_def)
  qed
qed

end

text \<open>The code's comparison provides it for the versions made of components.\<close>

definition well_formed :: "AtomVersion list \<Rightarrow> bool" where
  "well_formed v \<longleftrightarrow> (\<exists>ns r. component_chain v ns r)"

lemma not_newer_chain:
  "component_chain v ns r \<Longrightarrow> component_chain w ms q \<Longrightarrow>
   not_newer atom_version_compare v w \<longleftrightarrow> (ns, r) \<le> (ms, q)"
  using compare_component_chain [of v ns r w ms q] by (auto simp: not_newer_def order.order_iff_strict)

interpretation components_order: version_order atom_version_compare well_formed
proof
  fix v w
  assume "well_formed v" "well_formed w"
  then show "\<exists>c. atom_version_compare v w = Some c"
    using compare_component_chain unfolding well_formed_def by blast
next
  fix v w c d
  assume "well_formed v" "well_formed w" "atom_version_compare v w = Some c" "atom_version_compare w v = Some d"
  then obtain ns r ms q where nums: "component_chain v ns r" "component_chain w ms q"
    by (auto simp: well_formed_def)
  define x where "x = (ns, r)"
  define y where "y = (ms, q)"
  have "c < 0 \<longleftrightarrow> x < y" "c = 0 \<longleftrightarrow> x = y"
    using \<open>atom_version_compare v w = Some c\<close> compare_component_chain [OF nums]
    unfolding x_def y_def by auto
  moreover have "d < 0 \<longleftrightarrow> y < x"
    using \<open>atom_version_compare w v = Some d\<close> compare_component_chain [OF nums(2,1)]
    unfolding x_def y_def by auto
  ultimately show "0 < c \<longleftrightarrow> d < 0"
    by (cases x y rule: linorder_cases) auto
next
  fix u v w
  assume "well_formed u" "well_formed v" "well_formed w"
    and le: "not_newer atom_version_compare u v" "not_newer atom_version_compare v w"
  then obtain ns r ms q ks p
    where nums: "component_chain u ns r" "component_chain v ms q" "component_chain w ks p"
    by (auto simp: well_formed_def)
  have "(ns, r) \<le> (ms, q)" "(ms, q) \<le> (ks, p)"
    using le not_newer_chain [OF nums(1,2)] not_newer_chain [OF nums(2,3)] by blast+
  then have "(ns, r) \<le> (ks, p)" by (rule order_trans)
  then show "not_newer atom_version_compare u w"
    using not_newer_chain [OF nums(1,3)] by blast
qed

text \<open>C6. Parsing and comparing two versions made of numbers, suffixes and an optional revision is
  defined and decides the lexicographic order of their components, in which \<open>_alpha\<close>, \<open>_beta\<close>,
  \<open>_pre\<close> and \<open>_rc\<close> come before a further number and \<open>_p\<close> after it, the revision last and a missing
  one counting as 0.\<close>

theorem version_compare_components:
  assumes "bounded cs r" "bounded ds q"
  shows "\<exists>x. atom_version_compare (parse_version (version_text cs r))
        (parse_version (version_text ds q)) = Some x
    \<and> (x < 0 \<longleftrightarrow> (cs, rev_of r) < (ds, rev_of q)) \<and> (x = 0 \<longleftrightarrow> (cs, rev_of r) = (ds, rev_of q))"
  using assms by (intro compare_component_chain parsed_chain)

lemma version_compare_components_witness:
  "\<exists>x. atom_version_compare (parse_version ''1.2_rc3'') (parse_version ''1.2_p1-r2'') = Some x \<and> x < 0"
proof -
  let ?cs = "[num 1, num 2, (ATOM_PREFIX_RC, 3)]" and ?ds = "[num 1, num 2, (ATOM_PREFIX_P, 1)]"
  have "(?cs, rev_of None) < (?ds, rev_of (Some 2))"
    by (simp add: less_prod_def' less_atom_version_pre_def)
  moreover have "''1.2_rc3'' = version_text ?cs None" "''1.2_p1-r2'' = version_text ?ds (Some 2)"
    by (simp_all add: version_text_eval)
  ultimately show ?thesis
    using version_compare_components [of ?cs None ?ds "Some 2"] by (auto simp: bounded_def rev_of_def)
qed

section \<open>Wildcards\<close>

text \<open>A version whose last component ends in \<open>*\<close>.\<close>

fun star_text :: "component list \<Rightarrow> string" where
  "star_text [] = ''*''"
| "star_text [c] = component_text c @ ''*''"
| "star_text (c # d # cs) = component_text c @ separator (fst d) # star_text (d # cs)"

fun star_nodes :: "component list \<Rightarrow> AtomVersion list" where
  "star_nodes [] = []"
| "star_nodes [c] = [version_node (fst c, dec (snd c) @ ''*'')]"
| "star_nodes (c # cs) = component_node c # star_nodes cs"

lemma version_loop_star_component:
  "version_loop (component_text c @ ''*'') = ([version_node (fst c, dec (snd c) @ ''*'')], True)"
proof -
  have "strpbrk (component_text c @ ''*'') ''._-'' = None"
    using component_no_split [of c] by (intro strpbrk_None) auto
  moreover have "version_piece (component_text c @ ''*'') = Some (fst c, dec (snd c) @ ''*'')"
    by (simp add: component_text_def version_piece_component)
  ultimately show ?thesis
    by (subst version_loop.simps) simp
qed

lemma version_loop_star: "cs \<noteq> [] \<Longrightarrow> version_loop (star_text cs) = (star_nodes cs, True)"
  by (induction cs rule: star_text.induct)
    (simp_all add: version_loop_star_component version_loop_component_cons)

lemma star_no_dash: "CHR ''-'' \<notin> set (star_text cs)"
proof (induction cs rule: star_text.induct)
  case (2 c)
  then show ?case using component_no_split [of c] by auto
next
  case (3 c d cs)
  then show ?case using component_no_split [of c] by (auto simp: separator_def)
qed simp

lemma parse_star:
  assumes "cs \<noteq> []"
  shows "\<exists>node rest. star_nodes cs = node # rest
    \<and> parse_version (star_text cs) = node\<lparr>full_version := Some (star_text cs)\<rparr> # rest"
proof -
  have "strrchr (star_text cs) CHR ''-'' = None"
    using star_no_dash by (rule strrchr_None)
  moreover obtain node rest where "star_nodes cs = node # rest"
    using assms by (cases cs rule: star_nodes.cases) auto
  moreover have "ver_revision node = 0" if "star_nodes cs = node # rest" for node rest
    using that by (cases cs rule: star_nodes.cases)
      (auto simp: version_node_def component_node_def PyAtomVersion_new_def)
  ultimately show ?thesis
    using version_loop_star [OF assms]
    by (auto simp: parse_version_def atom_version_init_def PyAtomVersion_new_def)
qed

lemma compare_star_node:
  assumes "component_of cs d" "snd c < 2 ^ 31" "snd d < 2 ^ 31"
  shows "version_compare_node (version_node (fst c, dec (snd c) @ ''*'')) False cs g
    = Some (Some (component_diff c d))"
proof (cases "fst c = fst d")
  case True
  let ?n = "snd c" and ?m = "snd d"
  have cb: "char_before (dec ?n @ ''*'') (length (dec ?n)) = Some (last (dec ?n))"
    "char_before (dec ?n @ ''*'') (Suc (length (dec ?n))) = Some CHR ''*''"
    by (simp_all add: char_before_def char_at_def nth_append last_conv_nth)
  have hd: "char_at (dec ?n @ ''*'') 0 = char_at (dec ?n) 0"
    by (simp add: char_at_hd)
  have sub: "sub_I32 (int ?n) (int ?m) = Some (int ?n - int ?m)"
    using assms(2,3) by (intro sub_I32_nonneg) simp_all
  have "strtol (dec ?n @ ''*'') = int ?n"
    using assms(2) strtol_digits [OF dec_nonempty dec_digits, of ?n "''*''"]
    by (simp add: digits_val_append dec_digits digits_val_dec clamp_long_def)
  then have "version_numbers (dec ?n @ ''*'') (length (dec ?n)) (dec ?m) (length (dec ?m))
      = Some (int ?n, int ?m)"
    using assms(2,3) dec_no_fraction [of ?n] dec_no_fraction [of ?m]
    by (auto simp: version_numbers_def hd strtol_dec to_I32_id fits_I32_def)
  then show ?thesis
    using assms dec_last_not cb sub True
    by (simp add: component_of_def version_node_def version_compare_node_def component_diff_def
        char_before_last Let_def)
next
  case False
  then show ?thesis
    using assms by (simp add: component_of_def version_node_def version_compare_node_def component_diff_def)
qed

lemma compare_star_loop:
  assumes "cs \<noteq> []" "list_all2 component_of ws ds" "\<forall>c \<in> set cs. snd c < 2 ^ 31" "\<forall>d \<in> set ds. snd d < 2 ^ 31"
  shows "\<exists>x. version_compare_loop (star_nodes cs) ws = Some (Some x)
    \<and> (x = 0 \<longleftrightarrow> take (length cs) ds = cs)"
  using assms
proof (induction cs arbitrary: ws ds rule: star_nodes.induct)
  case 1
  then show ?case by simp
next
  case (2 c)
  show ?case
  proof (cases ws)
    case Nil
    then show ?thesis using 2 by auto
  next
    case (Cons cs cs_next)
    then obtain d dr where d: "ds = d # dr" "component_of cs d"
      using 2 by (auto simp: list_all2_Cons1)
    then show ?thesis
      using 2 Cons compare_star_node [OF d(2), of c] component_diff_sign(2) [of c d] by auto
  qed
next
  case (3 c c' cr)
  show ?case
  proof (cases ws)
    case Nil
    then show ?thesis using 3 by auto
  next
    case (Cons cs cs_next)
    then obtain d dr where d: "ds = d # dr" "component_of cs d" "list_all2 component_of cs_next dr"
      using 3 by (auto simp: list_all2_Cons1)
    have "version_compare_node (component_node c) f cs g
        = Some (if c = d then None else Some (component_diff c d))" for f g
      using compare_component_node [OF component_node_of d(2)] d(1) 3 by auto
    moreover obtain x where "version_compare_loop (star_nodes (c' # cr)) cs_next = Some (Some x)"
        "x = 0 \<longleftrightarrow> take (length (c' # cr)) dr = c' # cr"
      using 3(1) [OF _ d(3)] 3(4,5) d(1) by fastforce
    ultimately show ?thesis
      using Cons d component_diff_sign(2) [of c d] by auto
  qed
qed

text \<open>A version that ends in \<open>*\<close> compares equal exactly with the versions that begin with its
  components, whatever follows them and whatever their revision.\<close>

theorem version_compare_wildcard:
  assumes "cs \<noteq> []" "\<forall>c \<in> set cs. snd c < 2 ^ 31" "bounded ds q"
  shows "\<exists>x. atom_version_compare (parse_version (star_text cs))
        (parse_version (version_text ds q)) = Some x
    \<and> (x = 0 \<longleftrightarrow> take (length cs) ds = cs)"
proof -
  let ?w = "components_version (version_text ds q) ds (int (rev_of q))"
  have w: "parse_version (version_text ds q) = ?w" "list_all2 component_of ?w ds"
    using assms(3) by (simp_all add: parse_components bounded_def components_version_nodes)
  obtain node rest where v: "star_nodes cs = node # rest"
      "parse_version (star_text cs) = node\<lparr>full_version := Some (star_text cs)\<rparr> # rest"
    using parse_star [OF assms(1)] by blast
  have "version_compare_loop (node\<lparr>full_version := x\<rparr> # rest) ?w = version_compare_loop (node # rest) ?w" for x
    by (cases ?w) (simp_all add: version_compare_node_def)
  then show ?thesis
    using compare_star_loop [OF assms(1) w(2) assms(2)] assms(3) v w(1)
    by (auto simp: atom_version_compare_def bounded_def)
qed

lemma version_compare_wildcard_witness:
  "atom_version_compare (parse_version ''1.2*'') (parse_version ''1.2.7-r1'') = Some 0"
proof -
  have eqs: "''1.2*'' = star_text [num 1, num 2]"
      "''1.2.7-r1'' = version_text [num 1, num 2, num 7] (Some 1)"
    by (simp_all add: version_text_eval)
  show ?thesis
    unfolding eqs using version_compare_wildcard [of "[num 1, num 2]" "[num 1, num 2, num 7]" "Some 1"]
    by (simp add: bounded_def rev_of_def)
qed

section \<open>Components with a leading zero\<close>

definition digits :: "string \<Rightarrow> bool" where
  "digits s \<longleftrightarrow> s \<noteq> [] \<and> (\<forall>c \<in> set s. is_digit c)"

lemma digit_val_range: "is_digit c \<Longrightarrow> 0 \<le> digit_val c \<and> digit_val c \<le> 9"
  using of_char_int_nat [of c] by (simp add: is_digit_def digit_val_def)

lemma digits_val_bounds:
  "\<forall>c \<in> set s. is_digit c \<Longrightarrow> 0 \<le> acc \<Longrightarrow>
   0 \<le> digits_val acc s \<and> digits_val acc s < (acc + 1) * 10 ^ length s"
proof (induction s arbitrary: acc)
  case Nil
  then show ?case by simp
next
  case (Cons c s)
  have d: "0 \<le> digit_val c" "digit_val c \<le> 9" "is_digit c"
    using Cons.prems digit_val_range by auto
  have ih: "0 \<le> digits_val (10 * acc + digit_val c) s
      \<and> digits_val (10 * acc + digit_val c) s < (10 * acc + digit_val c + 1) * 10 ^ length s"
    using Cons.IH [of "10 * acc + digit_val c"] Cons.prems d by simp
  have "(10 * acc + digit_val c + 1) * 10 ^ length s \<le> (10 * acc + 10) * 10 ^ length s"
    using d by (intro mult_right_mono) simp_all
  also have "\<dots> = (acc + 1) * 10 ^ length (c # s)"
    by (simp add: algebra_simps)
  finally have le: "(10 * acc + digit_val c + 1) * 10 ^ length s \<le> (acc + 1) * 10 ^ length (c # s)" .
  have "digits_val acc (c # s) = digits_val (10 * acc + digit_val c) s"
    using d by simp
  then show ?case
    using ih order_less_le_trans [OF _ le] by metis
qed

lemma digits_val_zeros: "digits_val acc (replicate k CHR ''0'') = acc * 10 ^ k"
  by (induction k arbitrary: acc) (simp_all add: is_digit_def digit_val_def)

text \<open>The value of a padded component is its value as a decimal fraction, scaled.\<close>

lemma strtol_pad_zero:
  assumes "digits s" "length s \<le> n" "n \<le> 9"
  shows "to_I32 (strtol (pad_zero n (length s) s)) = digits_val 0 s * 10 ^ (n - length s)"
    and "0 \<le> digits_val 0 s * 10 ^ (n - length s)" "digits_val 0 s * 10 ^ (n - length s) < 2 ^ 31"
proof -
  let ?x = "digits_val 0 s * 10 ^ (n - length s)"
  have b: "0 \<le> digits_val 0 s" "digits_val 0 s < 10 ^ length s"
    using digits_val_bounds [of s 0] assms(1) by (simp_all add: digits_def)
  then show "0 \<le> ?x" by simp
  have "?x < 10 ^ length s * 10 ^ (n - length s)"
    using b by (intro mult_strict_right_mono) simp_all
  also have "\<dots> = 10 ^ n"
    using assms(2) by (simp flip: power_add)
  also have "\<dots> \<le> (10 :: int) ^ 9"
    using assms(3) by (intro power_increasing) simp_all
  finally show less: "?x < 2 ^ 31" by simp
  have "strtol (pad_zero n (length s) s) = ?x"
    using strtol_digits [of s "replicate (n - length s) CHR ''0''"] assms(1) less \<open>0 \<le> ?x\<close>
    by (simp add: pad_zero_def digits_def digits_val_append digits_val_zeros clamp_long_def)
  then show "to_I32 (strtol (pad_zero n (length s) s)) = ?x"
    using less \<open>0 \<le> ?x\<close> by (simp add: to_I32_id fits_I32_def)
qed

definition fraction_like :: "string \<Rightarrow> bool" where
  "fraction_like s \<longleftrightarrow> hd s = CHR ''0'' \<and> length s \<noteq> 1"

text \<open>Two components of digits, one of which has a leading zero, compare as the decimal
  fractions \<open>0.a\<close> and \<open>0.b\<close>: \<open>a / 10 ^ length a\<close> against \<open>b / 10 ^ length b\<close>. Equal
  fractions make the comparison go on with the next component.\<close>

theorem version_compare_fraction:
  assumes "digits a" "digits b" "fraction_like a \<or> fraction_like b" "length a \<le> 9" "length b \<le> 9"
    and "ver_v cf = Some a" "ver_v cs = Some b" "ver_prefix cf = ver_prefix cs"
  shows "\<exists>r. version_compare_node cf f cs g = Some r
    \<and> (r = None \<longleftrightarrow> digits_val 0 a * 10 ^ length b = digits_val 0 b * 10 ^ length a)
    \<and> (\<forall>c. r = Some c \<longrightarrow> (c < 0 \<longleftrightarrow> digits_val 0 a * 10 ^ length b < digits_val 0 b * 10 ^ length a))"
proof -
  define n where "n = max (length a) (length b)"
  let ?x = "digits_val 0 a * 10 ^ (n - length a)" and ?y = "digits_val 0 b * 10 ^ (n - length b)"
  have ne: "a \<noteq> []" "b \<noteq> []" and last: "is_digit (last a)" "is_digit (last b)"
    using assms(1,2) by (auto simp: digits_def)
  have last': "last s \<noteq> CHR ''*''" "\<not> is_suffix (last s)" if "is_digit (last s)" for s
    using digit_not [OF that] by auto
  have n: "length a \<le> n" "length b \<le> n" "n \<le> 9" "n \<le> length a + length b"
    using assms(4,5) by (simp_all add: n_def)
  note x = strtol_pad_zero [OF assms(1) n(1,3)] and y = strtol_pad_zero [OF assms(2) n(2,3)]
  have numbers: "version_numbers a (length a) b (length b) = Some (?x, ?y)"
    using assms(3) ne x(1) y(1) n(3)
    by (auto simp: version_numbers_def fraction_like_def char_at_hd Let_def simp flip: n_def)
  have sub: "sub_I32 ?x ?y = Some (?x - ?y)"
    using x(2,3) y(2,3) by (rule sub_I32_nonneg)
  have "length b = (n - length a) + (length a + length b - n)"
    "length a = (n - length b) + (length a + length b - n)"
    using n by simp_all
  then have pow: "(10 :: int) ^ length b = 10 ^ (n - length a) * 10 ^ (length a + length b - n)"
    "(10 :: int) ^ length a = 10 ^ (n - length b) * 10 ^ (length a + length b - n)"
    by (metis power_add)+
  have scale: "digits_val 0 a * 10 ^ length b = ?x * 10 ^ (length a + length b - n)"
    "digits_val 0 b * 10 ^ length a = ?y * 10 ^ (length a + length b - n)"
    unfolding pow by (simp_all only: mult.assoc)
  have "version_compare_node cf f cs g = Some (if ?x - ?y \<noteq> 0 then Some (?x - ?y) else None)"
    using assms(6-8) ne last last' numbers sub
    by (cases "?x = ?y") (simp_all add: version_compare_node_def char_before_last Let_def)
  moreover obtain k :: int where "10 ^ (length a + length b - n) = k" "0 < k" by simp
  ultimately show ?thesis
    unfolding scale by (auto simp: mult_less_cancel_right)
qed

lemma version_compare_fraction_witness:
  "\<exists>r. version_compare_node (version_node (ATOM_PREFIX_NONE, ''01'')) False
      (version_node (ATOM_PREFIX_NONE, ''1'')) False = Some r \<and> r \<noteq> None"
  using version_compare_fraction [of "''01''" "''1''" "version_node (ATOM_PREFIX_NONE, ''01'')"
      "version_node (ATOM_PREFIX_NONE, ''1'')" False False]
  by (auto simp: digits_def fraction_like_def is_digit_def digit_val_def version_node_def)

section \<open>Where the comparison is not an order\<close>

text \<open>A version with a letter at the end of a component that is not its last one, such as
  \<open>1.2b_p3\<close>, is smaller than itself: for Python it is not equal to itself.\<close>

theorem version_not_reflexive:
  assumes "list_all2 component_of pre cs" "\<forall>c \<in> set cs. snd c < 2 ^ 31"
    and "ver_v nd = Some s" "s \<noteq> []" "is_suffix (last s)" "last s \<noteq> CHR ''*''" "post \<noteq> []"
  shows "atom_version_compare (pre @ nd # post) (pre @ nd # post) = Some (- 1)
    \<and> PyAtomVersion_richcompare (pre @ nd # post) (pre @ nd # post) Py_EQ = Some False
    \<and> PyAtomVersion_richcompare (pre @ nd # post) (pre @ nd # post) Py_LT = Some True"
proof -
  have "version_compare_node nd f nd True = Some (Some (- 1))" for f
    using assms(3-6) by (simp add: version_compare_node_def char_before_last)
  then have "version_compare_loop (pre @ nd # post) (pre @ nd # post) = Some (Some (- 1))"
    using compare_common [OF assms(1,1,2)] assms(7) by simp
  then show ?thesis
    by (simp add: atom_version_compare_def PyAtomVersion_richcompare_def)
qed

lemma parse_not_reflexive: "parse_version ''1.2b_p3'' =
    [(component_node (num 1))\<lparr>full_version := Some ''1.2b_p3''\<rparr>] @ version_node (ATOM_PREFIX_NONE, ''2b'')
      # [version_node (ATOM_PREFIX_P, ''3'')]"
  by (simp add: parse_version_def atom_version_init_def version_loop.simps version_piece_def
      atom_prefix_links_def component_node_def version_node_def PyAtomVersion_new_def dec.simps c_eval)

lemma version_not_reflexive_witness:
  "atom_version_compare (parse_version ''1.2b_p3'') (parse_version ''1.2b_p3'') = Some (- 1)"
  unfolding parse_not_reflexive
  using version_not_reflexive [of "[(component_node (num 1))\<lparr>full_version := Some ''1.2b_p3''\<rparr>]" "[num 1]"
      "version_node (ATOM_PREFIX_NONE, ''2b'')" "''2b''" "[version_node (ATOM_PREFIX_P, ''3'')]"]
  by (simp add: component_of_def component_node_def version_node_def is_suffix_def char_val_def)

text \<open>A version extended by further components is greater than the version itself, whatever
  the components are: also a pre-release such as \<open>1.0_alpha1\<close> comes after its release \<open>1.0\<close>.\<close>

theorem version_longer_wins:
  assumes "list_all2 component_of vs cs" "list_all2 component_of ws cs" "\<forall>c \<in> set cs. snd c < 2 ^ 31"
    and "post \<noteq> []"
  shows "atom_version_compare (vs @ post) ws = Some 1 \<and> atom_version_compare ws (vs @ post) = Some (- 1)"
  using compare_common [OF assms(1-3), of post "[]"] compare_common [OF assms(2,1,3), of "[]" post]
    assms(4)
  by (cases post) (simp_all add: atom_version_compare_def)

lemma parse_alpha: "parse_version ''1.0_alpha1'' =
    [(component_node (num 1))\<lparr>full_version := Some ''1.0_alpha1''\<rparr>, component_node (num 0)]
      @ [version_node (ATOM_PREFIX_ALPHA, ''1'')]"
  "parse_version ''1.0'' =
    [(component_node (num 1))\<lparr>full_version := Some ''1.0''\<rparr>, component_node (num 0)]"
  by (simp_all add: parse_version_def atom_version_init_def version_loop.simps version_piece_def
      atom_prefix_links_def component_node_def version_node_def PyAtomVersion_new_def dec.simps c_eval)

lemma version_longer_wins_witness:
  "atom_version_compare (parse_version ''1.0_alpha1'') (parse_version ''1.0'') = Some 1"
  unfolding parse_alpha
  using version_longer_wins [of
      "[(component_node (num 1))\<lparr>full_version := Some ''1.0_alpha1''\<rparr>, component_node (num 0)]"
      "[num 1, num 0]" "[(component_node (num 1))\<lparr>full_version := Some ''1.0''\<rparr>, component_node (num 0)]"
      "[version_node (ATOM_PREFIX_ALPHA, ''1'')]"]
  by (simp add: component_of_def component_node_def version_node_def)

text \<open>A letter loses against any version that goes on behind the component, before the numbers
  are compared. With \<open>j < k\<close> the versions \<open>kb\<close>, \<open>j.x\<close> and \<open>k\<close>, each behind the same components,
  go round in a circle: \<open>1.2b\<close> is smaller than \<open>1.1.3\<close>, that is smaller than \<open>1.2\<close>, and that is
  smaller than \<open>1.2b\<close>.\<close>

definition letter_of :: "AtomVersion \<Rightarrow> nat \<Rightarrow> char \<Rightarrow> bool" where
  "letter_of v n l \<longleftrightarrow> ver_v v = Some (dec n @ [l]) \<and> ver_prefix v = ATOM_PREFIX_NONE"

lemma suffix_no_digit: "is_suffix l \<Longrightarrow> \<not> is_digit l \<and> l \<noteq> CHR ''*''"
  using digit_not(8) [of l] by (auto simp: is_suffix_def char_val_def)

lemma char_before_snoc: "char_before (s @ [c]) (Suc (length s)) = Some c"
  by (simp add: char_before_def char_at_def nth_append)

lemma compare_letter_longer:
  assumes "letter_of a n l" "is_suffix l" "component_of b (num j)"
  shows "version_compare_node a f b True = Some (Some (- 1))"
  using assms suffix_no_digit [of l] dec_last_not(1) [of j]
  by (simp add: letter_of_def component_of_def version_compare_node_def char_before_last char_before_snoc)

lemma compare_letter_number:
  assumes "component_of c (num k)" "letter_of a k l" "is_suffix l" "0 < k" "k < 2 ^ 31"
  shows "\<exists>z. version_compare_node c False a False = Some (Some z) \<and> z < 0"
proof -
  have l: "\<not> is_digit l" "l \<noteq> CHR ''*''" "0 < char_val l"
    using assms(3) suffix_no_digit [of l] by (auto simp: is_suffix_def char_val_def)
  have number: "strtol (dec k @ [l]) = int k"
    using assms(5) strtol_digits [OF dec_nonempty dec_digits, of k "[l]"] l(1)
    by (simp add: digits_val_append dec_digits digits_val_dec clamp_long_def)
  have "char_at (dec k) 0 \<noteq> Some CHR ''0''" "char_at (dec k @ [l]) 0 = char_at (dec k) 0"
    using assms(4) dec_leading_zero [of k] by (simp_all add: char_at_hd)
  then have "version_numbers (dec k) (length (dec k)) (dec k @ [l]) (Suc (length (dec k)))
      = Some (int k, int k)"
    using assms(5) number by (simp add: version_numbers_def strtol_dec to_I32_id fits_I32_def)
  moreover have "sub_I32 (int k) (int k) = Some 0"
    by (simp add: sub_I32_def fits_I32_def)
  ultimately show ?thesis
    using assms(1-3) l dec_last_not [of k]
    by (simp add: letter_of_def component_of_def version_compare_node_def char_before_last
        char_before_snoc Let_def)
qed

theorem version_compare_cycle:
  assumes "list_all2 component_of pre cs" "\<forall>c \<in> set cs. snd c < 2 ^ 31"
    and nodes: "letter_of a k l" "is_suffix l" "component_of b (num j)" "component_of c (num k)"
    and bounds: "j < k" "k < 2 ^ 31" and post: "post \<noteq> []"
  shows "\<exists>x y z. atom_version_compare (pre @ [a]) (pre @ b # post) = Some x \<and> x < 0
    \<and> atom_version_compare (pre @ b # post) (pre @ [c]) = Some y \<and> y < 0
    \<and> atom_version_compare (pre @ [c]) (pre @ [a]) = Some z \<and> z < 0"
proof -
  note common = compare_common [OF assms(1,1,2)]
  have "version_compare_loop (pre @ [a]) (pre @ b # post) = Some (Some (- 1))"
    using common compare_letter_longer [OF nodes(1,2,3)] post by simp
  moreover have "version_compare_loop (pre @ b # post) (pre @ [c]) = Some (Some (int j - int k))"
    using common compare_component_node [OF nodes(3,4)] bounds by (simp add: component_diff_def)
  moreover obtain z where "version_compare_node c False a False = Some (Some z)" "z < 0"
    using compare_letter_number [OF nodes(4,1,2)] bounds by auto
  then have "version_compare_loop (pre @ [c]) (pre @ [a]) = Some (Some z)" "z < 0"
    using common by simp_all
  ultimately show ?thesis
    using bounds by (simp add: atom_version_compare_def)
qed

lemma parse_cycle: "parse_version ''1.2b'' =
    [(component_node (num 1))\<lparr>full_version := Some ''1.2b''\<rparr>, version_node (ATOM_PREFIX_NONE, ''2b'')]"
  by (simp add: parse_version_def atom_version_init_def version_loop.simps version_piece_def
      atom_prefix_links_def component_node_def version_node_def PyAtomVersion_new_def dec.simps c_eval)

lemma version_compare_cycle_witness:
  "\<exists>x y z. atom_version_compare (component_node (num 1) # [version_node (ATOM_PREFIX_NONE, ''2b'')])
       (map component_node [num 1, num 1, num 3]) = Some x \<and> x < 0
    \<and> atom_version_compare (map component_node [num 1, num 1, num 3])
       (map component_node [num 1, num 2]) = Some y \<and> y < 0
    \<and> atom_version_compare (map component_node [num 1, num 2])
       (component_node (num 1) # [version_node (ATOM_PREFIX_NONE, ''2b'')]) = Some z \<and> z < 0"
  using version_compare_cycle [of "[component_node (num 1)]" "[num 1]"
      "version_node (ATOM_PREFIX_NONE, ''2b'')" 2 "CHR ''b''" "component_node (num 1)" 1
      "component_node (num 2)" "[component_node (num 3)]"]
  by (simp add: letter_of_def version_node_def is_suffix_def char_val_def dec.simps dec_digit_eval)

end
