(* ===== verification/Murmur.thy ===== *)
theory Murmur
  imports Prelude
begin

text \<open>
  The 32-bit Murmur3 hash of autogentoo/hacksaw/map.c (\<open>map_get_hash\<close>), on which the hash map,
  the lookup table and the hash of an atom rest. The buffer is a list of bytes, blocks are read
  little-endian, and all arithmetic wraps at 32 bits as in the code. The lemmas show that every
  mixing step is a bijection; hence keys of one length that differ in one aligned block only
  never collide.
\<close>

section \<open>The hash function\<close>

text \<open>The code's \<open>(k << r) | (k >> (32 - r))\<close>.\<close>

definition rot32 :: "nat \<Rightarrow> U32 \<Rightarrow> U32" where
  "rot32 r k = push_bit r k OR drop_bit (32 - r) k"

definition murmur_k :: "U32 \<Rightarrow> U32" where
  "murmur_k k = rot32 15 (k * 0xcc9e2d51) * 0x1b873593"

text \<open>One round of the loop over the blocks.\<close>

definition murmur_round :: "U32 \<Rightarrow> U32 \<Rightarrow> U32" where
  "murmur_round h k = rot32 13 (h XOR murmur_k k) * 5 + 0xe6546b64"

text \<open>\<open>blocks[i]\<close>, where \<open>off\<close> is the byte offset \<open>4 * i\<close>.\<close>

definition load32 :: "U8 list \<Rightarrow> nat \<Rightarrow> U32" where
  "load32 data off =
     ucast (data ! off) OR push_bit 8 (ucast (data ! (off + 1)))
       OR push_bit 16 (ucast (data ! (off + 2))) OR push_bit 24 (ucast (data ! (off + 3)))"

definition murmur_blocks :: "U8 list \<Rightarrow> nat \<Rightarrow> U32 list" where
  "murmur_blocks data nblocks = map (\<lambda>i. load32 data (4 * i)) [0..<nblocks]"

text \<open>The switch over \<open>nbytes & 3\<close>, whose cases fall through.\<close>

definition murmur_tail_k :: "U8 list \<Rightarrow> nat \<Rightarrow> nat \<Rightarrow> U32" where
  "murmur_tail_k data off r =
     (let k = 0;
          k = (if r = 3 then k XOR push_bit 16 (ucast (data ! (off + 2))) else k);
          k = (if 2 \<le> r then k XOR push_bit 8 (ucast (data ! (off + 1))) else k)
      in k XOR ucast (data ! off))"

definition murmur_tail :: "U8 list \<Rightarrow> nat \<Rightarrow> nat \<Rightarrow> U32 \<Rightarrow> U32" where
  "murmur_tail data off r h = (if r = 0 then h else h XOR murmur_k (murmur_tail_k data off r))"

text \<open>The finalisation.\<close>

definition murmur_final :: "U32 \<Rightarrow> U32" where
  "murmur_final h =
     (let h = h XOR drop_bit 16 h;
          h = h * 0x85ebca6b;
          h = h XOR drop_bit 13 h;
          h = h * 0xc2b2ae35
      in h XOR drop_bit 16 h)"

definition map_get_hash :: "U8 list \<Rightarrow> U32 \<Rightarrow> U32" where
  "map_get_hash data nbytes =
     (if nbytes = 0 then 0
      else
        let nblocks = unat nbytes div 4;
            h = foldl murmur_round 0 (murmur_blocks data nblocks);
            h = murmur_tail data (4 * nblocks) (unat (nbytes AND 3)) h
        in murmur_final (h XOR nbytes))"

text \<open>The bytes of a C string, and its hash as all callers compute it, with
  \<open>strlen\<close> converted to 32 bits.\<close>

definition bytes_of :: "string \<Rightarrow> U8 list" where
  "bytes_of s = map of_char s"

definition hash_str :: "string \<Rightarrow> U32" where
  "hash_str s = map_get_hash (bytes_of s) (word_of_nat (length s))"

lemmas murmur_eval [c_eval] = hash_str_def bytes_of_def map_get_hash_def murmur_final_def
  murmur_tail_def murmur_tail_k_def murmur_blocks_def murmur_round_def murmur_k_def load32_def
  rot32_def

section \<open>Every step is a bijection\<close>

lemma mult_inverse_inj:
  fixes c d :: U32
  assumes "c * d = 1" and "x * c = y * c"
  shows "x = y"
proof -
  have "z * c * d = z" for z
    using assms(1) by (simp add: mult.assoc)
  then show ?thesis
    using assms(2) by metis
qed

lemma rot32_inj:
  assumes r: "0 < r" "r < 32" and eq: "rot32 r x = rot32 r y"
  shows "x = y"
proof (rule bit_word_eqI)
  fix n
  assume n: "n < LENGTH(32)"
  have *: "bit (rot32 r z) ((n + r) mod 32) = bit z n" for z
    using n r by (cases "n + r < 32")
      (auto simp: rot32_def bit_simps mod_if dest: bit_imp_le_length)
  show "bit x n = bit y n"
    using * [of x] * [of y] eq by simp
qed

lemma xor_left_inj: "(a::U32) XOR b = a XOR c \<Longrightarrow> b = c"
proof -
  assume "a XOR b = a XOR c"
  then have "a XOR (a XOR b) = a XOR (a XOR c)"
    by simp
  then show "b = c"
    by (simp add: xor.assoc [symmetric])
qed

lemma xor_right_inj: "(b::U32) XOR a = c XOR a \<Longrightarrow> b = c"
  by (rule xor_left_inj [of a]) (simp add: xor.commute)

lemma murmur_k_inj: "murmur_k k = murmur_k k' \<Longrightarrow> k = k'"
proof -
  assume eq: "murmur_k k = murmur_k k'"
  have "rot32 15 (k * 0xcc9e2d51) = rot32 15 (k' * 0xcc9e2d51)"
    by (rule mult_inverse_inj [where c = "0x1b873593" and d = "0x56ed309b"])
      (use eq in \<open>simp_all add: murmur_k_def\<close>)
  then have "k * 0xcc9e2d51 = k' * 0xcc9e2d51"
    by (rule rot32_inj [rotated 2]) simp_all
  then show "k = k'"
    by (rule mult_inverse_inj [where d = "0xdee13bb1", rotated]) simp
qed

lemma shift_xor_inj:
  fixes x y :: U32
  assumes s: "0 < s" and eq: "x XOR drop_bit s x = y XOR drop_bit s y"
  shows "x = y"
proof (rule bit_word_eqI)
  fix n
  assume "n < LENGTH(32)"
  then show "bit x n = bit y n"
  proof (induction "32 - n" arbitrary: n rule: less_induct)
    case less
    have "bit (x XOR drop_bit s x) n = bit (y XOR drop_bit s y) n"
      using eq by simp
    moreover have "bit x (s + n) = bit y (s + n)"
    proof (cases "s + n < 32")
      case True
      then show ?thesis using less.hyps [of "s + n"] s by simp
    next
      case False
      then show ?thesis by (auto dest: bit_imp_le_length)
    qed
    ultimately show ?case
      by (auto simp: bit_simps)
  qed
qed

lemma murmur_round_inj_h: "murmur_round h k = murmur_round h' k \<Longrightarrow> h = h'"
proof -
  assume "murmur_round h k = murmur_round h' k"
  then have "rot32 13 (h XOR murmur_k k) * 5 = rot32 13 (h' XOR murmur_k k) * 5"
    by (simp add: murmur_round_def)
  then have "rot32 13 (h XOR murmur_k k) = rot32 13 (h' XOR murmur_k k)"
    by (rule mult_inverse_inj [where d = "0xcccccccd", rotated]) simp
  then have "h XOR murmur_k k = h' XOR murmur_k k"
    by (rule rot32_inj [rotated 2]) simp_all
  then show "h = h'"
    by (rule xor_right_inj)
qed

lemma murmur_round_inj_k: "murmur_round h k = murmur_round h k' \<Longrightarrow> k = k'"
proof -
  assume "murmur_round h k = murmur_round h k'"
  then have "rot32 13 (h XOR murmur_k k) * 5 = rot32 13 (h XOR murmur_k k') * 5"
    by (simp add: murmur_round_def)
  then have "rot32 13 (h XOR murmur_k k) = rot32 13 (h XOR murmur_k k')"
    by (rule mult_inverse_inj [where d = "0xcccccccd", rotated]) simp
  then have "h XOR murmur_k k = h XOR murmur_k k'"
    by (rule rot32_inj [rotated 2]) simp_all
  then show "k = k'"
    by (rule murmur_k_inj [OF xor_left_inj])
qed

lemma murmur_final_inj: "murmur_final h = murmur_final h' \<Longrightarrow> h = h'"
proof -
  let ?f = "\<lambda>h::U32. (h XOR drop_bit 16 h) * 0x85ebca6b"
  let ?g = "\<lambda>h::U32. (?f h XOR drop_bit 13 (?f h)) * 0xc2b2ae35"
  assume "murmur_final h = murmur_final h'"
  then have "?g h XOR drop_bit 16 (?g h) = ?g h' XOR drop_bit 16 (?g h')"
    by (simp add: murmur_final_def Let_def)
  then have "?g h = ?g h'"
    by (rule shift_xor_inj [rotated]) simp
  then have "?f h XOR drop_bit 13 (?f h) = ?f h' XOR drop_bit 13 (?f h')"
    by (rule mult_inverse_inj [where d = "0x7ed1b41d", rotated]) simp
  then have "?f h = ?f h'"
    by (rule shift_xor_inj [rotated]) simp
  then have "h XOR drop_bit 16 h = h' XOR drop_bit 16 h'"
    by (rule mult_inverse_inj [where d = "0xa5cb9243", rotated]) simp
  then show "h = h'"
    by (rule shift_xor_inj [rotated]) simp
qed

section \<open>Keys that differ in one block\<close>

lemma foldl_inj_start:
  assumes "\<And>h h' k. f h k = f h' k \<Longrightarrow> h = h'" and "foldl f h ks = foldl f h' ks"
  shows "h = h'"
  using assms(2)
proof (induction ks arbitrary: h h')
  case Nil
  then show ?case by simp
next
  case (Cons k ks)
  then have "f h k = f h' k" by (metis foldl_Cons)
  then show ?case by (rule assms(1))
qed

lemma foldl_inj_one:
  assumes "\<And>h h' k. f h k = f h' k \<Longrightarrow> h = h'" and "\<And>h k k'. f h k = f h k' \<Longrightarrow> k = k'"
    and "foldl f h (ks @ k # ks') = foldl f h (ks @ k' # ks')"
  shows "k = k'"
proof -
  let ?h = "foldl f h ks"
  have "foldl f (f ?h k) ks' = foldl f (f ?h k') ks'"
    using assms(3) by simp
  then have "f ?h k = f ?h k'"
    by (rule foldl_inj_start [rotated]) (fact assms(1))
  then show ?thesis
    by (rule assms(2))
qed

lemma bit_ucast8: "bit (ucast (b :: U8) :: U32) n \<longleftrightarrow> n < 8 \<and> bit b n"
  by (auto simp: bit_simps dest: bit_imp_le_length)

lemma U8_eqI: "(\<And>n. n < 8 \<Longrightarrow> bit (a :: U8) n = bit b n) \<Longrightarrow> a = b"
  by (rule bit_word_eqI) simp

lemma load32_bits:
  assumes "n < 8"
  shows "bit (load32 d off) n = bit (d ! off) n"
    and "bit (load32 d off) (8 + n) = bit (d ! (off + 1)) n"
    and "bit (load32 d off) (16 + n) = bit (d ! (off + 2)) n"
    and "bit (load32 d off) (24 + n) = bit (d ! (off + 3)) n"
  using assms by (auto simp: load32_def bit_or_iff bit_push_bit_iff bit_ucast8)

lemma load32_inj:
  assumes eq: "load32 d off = load32 d' off" and j: "j < 4"
  shows "d ! (off + j) = d' ! (off + j)"
proof -
  have "d ! off = d' ! off" "d ! (off + 1) = d' ! (off + 1)"
    "d ! (off + 2) = d' ! (off + 2)" "d ! (off + 3) = d' ! (off + 3)"
    by (rule U8_eqI, metis eq load32_bits)+
  moreover have "j = 0 \<or> j = 1 \<or> j = 2 \<or> j = 3"
    using j by arith
  ultimately show ?thesis by auto
qed

lemma murmur_tail_bits:
  assumes "n < 8"
  shows "bit (murmur_tail_k d off r) n = bit (d ! off) n"
    and "2 \<le> r \<Longrightarrow> bit (murmur_tail_k d off r) (8 + n) = bit (d ! (off + 1)) n"
    and "r = 3 \<Longrightarrow> bit (murmur_tail_k d off r) (16 + n) = bit (d ! (off + 2)) n"
  using assms by (auto simp: murmur_tail_k_def Let_def bit_xor_iff bit_push_bit_iff bit_ucast8)

lemma murmur_tail_k_inj:
  assumes eq: "murmur_tail_k d off r = murmur_tail_k d' off r" and r: "r < 4" and j: "j < r"
  shows "d ! (off + j) = d' ! (off + j)"
proof -
  have "d ! off = d' ! off"
    by (rule U8_eqI) (metis eq murmur_tail_bits(1))
  moreover have "2 \<le> r \<Longrightarrow> d ! (off + 1) = d' ! (off + 1)"
    by (rule U8_eqI) (metis eq murmur_tail_bits(2))
  moreover have "r = 3 \<Longrightarrow> d ! (off + 2) = d' ! (off + 2)"
    by (rule U8_eqI) (metis eq murmur_tail_bits(3))
  moreover have "j = 0 \<or> j = 1 \<and> 2 \<le> r \<or> j = 2 \<and> r = 3"
    using r j by arith
  ultimately show ?thesis by auto
qed

lemma unat_and_3: "unat ((x :: U32) AND 3) = unat x mod 4"
proof -
  have "x AND 3 = take_bit 2 x"
    by (simp add: take_bit_eq_mask mask_eq_exp_minus_1)
  then have "unat (x AND 3) = take_bit 2 (unat x)"
    by (simp only: unsigned_take_bit_eq)
  then show ?thesis
    by (simp add: take_bit_eq_mod)
qed

lemma murmur_blocks_split:
  assumes "i < nb"
  shows "murmur_blocks d nb = murmur_blocks d i @ load32 d (4 * i)
     # map (\<lambda>i. load32 d (4 * i)) [Suc i..<nb]"
proof -
  have "[0..<nb] = [0..<i] @ i # [Suc i..<nb]"
    using assms by (metis le_add1 less_imp_add_positive upt_add_eq_append upt_conv_Cons zero_le
        add_0 less_imp_le)
  then show ?thesis by (simp add: murmur_blocks_def)
qed

lemma load32_cong:
  assumes "\<And>j. j < 4 \<Longrightarrow> d ! (off + j) = d' ! (off + j)"
  shows "load32 d off = load32 d' off"
  using assms [of 0] assms [of 1] assms [of 2] assms [of 3] by (simp add: load32_def)

lemma murmur_tail_k_cong:
  assumes "\<And>j. j < r \<Longrightarrow> d ! (off + j) = d' ! (off + j)" and "0 < r" and "r < 4"
  shows "murmur_tail_k d off r = murmur_tail_k d' off r"
  using assms(1) [of 0] assms(1) [of 1] assms(1) [of 2] assms(2,3)
  by (auto simp: murmur_tail_k_def Let_def)

lemma murmur_blocks_cong:
  assumes "\<And>j. j < 4 * nb \<Longrightarrow> d ! j = d' ! j"
  shows "murmur_blocks d nb = murmur_blocks d' nb"
proof -
  have "load32 d (4 * i) = load32 d' (4 * i)" if "i < nb" for i
    by (rule load32_cong) (use assms that in auto)
  then show ?thesis by (simp add: murmur_blocks_def)
qed

text \<open>The hash of a non-empty buffer of known length, with the conversions resolved.\<close>

lemma map_get_hash_length:
  assumes "length d < 2 ^ 32" and "d \<noteq> []"
  shows "map_get_hash d (word_of_nat (length d)) =
     murmur_final (murmur_tail d (4 * (length d div 4)) (length d mod 4)
       (foldl murmur_round 0 (murmur_blocks d (length d div 4))) XOR word_of_nat (length d))"
proof -
  have n: "unat (word_of_nat (length d) :: U32) = length d"
    using assms(1) by (simp add: unat_of_nat take_bit_eq_mod)
  then have "(word_of_nat (length d) :: U32) \<noteq> 0"
    using assms(2) by auto
  with n show ?thesis
    by (simp add: map_get_hash_def Let_def unat_and_3)
qed

text \<open>The mixing steps of two buffers that agree outside one block.\<close>

lemma murmur_diff_block:
  assumes i: "i < nb" and agree: "\<And>j. j < 4 * nb \<Longrightarrow> j div 4 \<noteq> i \<Longrightarrow> a ! j = b ! j"
    and eq: "foldl murmur_round 0 (murmur_blocks a nb) = foldl murmur_round 0 (murmur_blocks b nb)"
    and j: "j < 4 * nb"
  shows "a ! j = b ! j"
proof (cases "j div 4 = i")
  case False
  then show ?thesis using agree j by blast
next
  case True
  have before: "murmur_blocks a i = murmur_blocks b i"
    by (rule murmur_blocks_cong) (use agree i in auto)
  have after: "load32 a (4 * l) = load32 b (4 * l)" if "Suc i \<le> l" "l < nb" for l
    by (rule load32_cong) (use agree that in auto)
  then have after: "map (\<lambda>l. load32 a (4 * l)) [Suc i..<nb] = map (\<lambda>l. load32 b (4 * l)) [Suc i..<nb]"
    by simp
  from eq have "load32 a (4 * i) = load32 b (4 * i)"
    unfolding murmur_blocks_split [OF i] before after
    by (rule foldl_inj_one [rotated 2]) (fact murmur_round_inj_h murmur_round_inj_k)+
  then have "a ! (4 * i + j mod 4) = b ! (4 * i + j mod 4)"
    by (rule load32_inj) simp
  moreover have "4 * i + j mod 4 = j"
    using True by auto
  ultimately show ?thesis by simp
qed

lemma murmur_diff_tail:
  assumes r: "r < 4" and j: "j < r"
    and eq: "murmur_tail a off r h = murmur_tail b off r h"
  shows "a ! (off + j) = b ! (off + j)"
proof -
  have "murmur_tail_k a off r = murmur_tail_k b off r"
    using eq j by (auto simp: murmur_tail_def dest!: xor_left_inj murmur_k_inj)
  then show ?thesis
    using r j by (rule murmur_tail_k_inj)
qed

lemma murmur_tail_cong:
  assumes "\<And>j. j < r \<Longrightarrow> a ! (off + j) = b ! (off + j)" and "r < 4"
  shows "murmur_tail a off r h = murmur_tail b off r h"
  using murmur_tail_k_cong [of r a off b] assms by (auto simp: murmur_tail_def)

lemma one_block_separates:
  assumes len: "length a = length b" "length a < 2 ^ 32"
    and agree: "\<And>j. j < length a \<Longrightarrow> j div 4 \<noteq> i \<Longrightarrow> a ! j = b ! j"
    and neq: "a \<noteq> b"
  shows "map_get_hash a (word_of_nat (length a)) \<noteq> map_get_hash b (word_of_nat (length b))"
proof
  let ?nb = "length a div 4" and ?r = "length a mod 4"
  let ?fold = "\<lambda>d. foldl murmur_round 0 (murmur_blocks d ?nb)"
  assume "map_get_hash a (word_of_nat (length a)) = map_get_hash b (word_of_nat (length b))"
  then have eq: "murmur_tail a (4 * ?nb) ?r (?fold a) = murmur_tail b (4 * ?nb) ?r (?fold b)"
    using len neq map_get_hash_length [of a] map_get_hash_length [of b]
    by (cases "a = []"; cases "b = []") (auto dest!: murmur_final_inj xor_right_inj)
  have split: "\<exists>k < ?r. j = 4 * ?nb + k" if "j < length a" "\<not> j < 4 * ?nb" for j
    using that mult_div_mod_eq [of 4 "length a"]
    by (intro exI [of _ "j - 4 * ?nb"] conjI) linarith+
  have pos: "4 * ?nb + k < length a" "(4 * ?nb + k) div 4 = ?nb" if "k < ?r" for k
    using that mult_div_mod_eq [of 4 "length a"] by linarith+
  have "a ! j = b ! j" if j: "j < length a" for j
  proof (cases "i < ?nb")
    case True
    have "murmur_tail a (4 * ?nb) ?r h = murmur_tail b (4 * ?nb) ?r h" for h
      by (rule murmur_tail_cong) (use agree pos True in auto)
    then have "?fold a = ?fold b"
      using eq by (auto simp: murmur_tail_def split: if_splits dest: xor_right_inj)
    then have "j < 4 * ?nb \<Longrightarrow> ?thesis"
      using murmur_diff_block [OF True, of a b j] agree by simp
    then show ?thesis
      using agree [OF j] True by (cases "j < 4 * ?nb") auto
  next
    case False
    have "?fold a = ?fold b"
      by (rule arg_cong [where f = "foldl murmur_round 0"], rule murmur_blocks_cong)
        (use agree False in auto)
    then have "k < ?r \<Longrightarrow> a ! (4 * ?nb + k) = b ! (4 * ?nb + k)" for k
      using eq murmur_diff_tail [of ?r k a "4 * ?nb" "?fold a" b] by simp
    then show ?thesis
      using split [OF j] agree [OF j] False by (cases "j < 4 * ?nb") auto
  qed
  then have "a = b"
    using len by (simp add: list_eq_iff_nth_eq)
  with neq show False by simp
qed

text \<open>two keys of one length (below 4 GiB) that agree outside one aligned four-byte block and
  are not equal have different hashes: every step of the hash is a bijection of its state and of
  the block it mixes in. In particular no two different keys of one length up to four collide.\<close>

theorem hash_separates_one_block:
  assumes len: "length a = length b" "length a < 2 ^ 32"
    and agree: "\<And>j. j < length a \<Longrightarrow> j div 4 \<noteq> i \<Longrightarrow> a ! j = b ! j"
    and neq: "a \<noteq> b"
  shows "map_get_hash a (word_of_nat (length a)) \<noteq> map_get_hash b (word_of_nat (length b))"
  by (rule one_block_separates [OF len agree neq])

theorem hash_separates_one_block_witness:
  "map_get_hash (bytes_of ''category/a'') 10 \<noteq> map_get_hash (bytes_of ''category/b'') 10"
proof -
  have "map_get_hash (bytes_of ''category/a'') (word_of_nat (length (bytes_of ''category/a'')))
     \<noteq> map_get_hash (bytes_of ''category/b'') (word_of_nat (length (bytes_of ''category/b'')))"
  proof (rule hash_separates_one_block [where i = 2])
    fix j
    assume "j < length (bytes_of ''category/a'')" and "j div 4 \<noteq> 2"
    then have "j \<in> {0, 1, 2, 3, 4, 5, 6, 7}"
      by (auto simp: bytes_of_def)
    then show "bytes_of ''category/a'' ! j = bytes_of ''category/b'' ! j"
      by (auto simp: bytes_of_def)
  qed (simp_all add: bytes_of_def)
  then show ?thesis by (simp add: bytes_of_def)
qed

end
