(* ===== verification/Objects.thy ===== *)
theory Objects
  imports Prelude
begin

text \<open>
  Reference counting of autogentoo/hacksaw/object.h. A pointer to an object is its address, 0 is
  NULL. The world records the live objects with their reference counts, the objects whose
  \<open>free\<close> callback has run (a callback releases its object; it is chosen by the owner of the
  object, so its other effects are not part of the model), and, in order, the calls of the
  CPython functions that count references of Python objects, which are library code. Touching an
  object that is not live is undefined behaviour.
\<close>

datatype py_call = Py_XINCREF U64 | Py_XDECREF U64

record world =
  objs :: "U64 \<rightharpoonup> U64"
  destroyed :: "U64 list"
  py_calls :: "py_call list"

text \<open>\<open>OBJECT_FREE\<close> runs the callback in the header of a live object.\<close>

definition object_free :: "U64 \<Rightarrow> world \<Rightarrow> world option" where
  "object_free p w =
     (if p = 0 then Some w
      else case objs w p of
        None \<Rightarrow> None
      | Some c \<Rightarrow> Some (w\<lparr>objs := (objs w)(p := None), destroyed := destroyed w @ [p]\<rparr>))"

definition object_incref :: "U64 \<Rightarrow> world \<Rightarrow> world option" where
  "object_incref p w =
     (if p = 0 then Some w
      else case objs w p of
        None \<Rightarrow> None
      | Some c \<Rightarrow> Some (w\<lparr>objs := (objs w)(p \<mapsto> c + 1)\<rparr>))"

text \<open>\<open>OBJECT_DECREF\<close> frees an object whose count is 0 or drops to 0.\<close>

definition object_decref :: "U64 \<Rightarrow> world \<Rightarrow> world option" where
  "object_decref p w =
     (if p = 0 then Some w
      else case objs w p of
        None \<Rightarrow> None
      | Some c \<Rightarrow> if c = 0 then object_free p w
                  else if c - 1 = 0 then object_free p (w\<lparr>objs := (objs w)(p \<mapsto> c - 1)\<rparr>)
                  else Some (w\<lparr>objs := (objs w)(p \<mapsto> c - 1)\<rparr>))"

definition py_xincref :: "U64 \<Rightarrow> world \<Rightarrow> world" where
  "py_xincref p w = w\<lparr>py_calls := py_calls w @ [Py_XINCREF p]\<rparr>"

definition py_xdecref :: "U64 \<Rightarrow> world \<Rightarrow> world" where
  "py_xdecref p w = w\<lparr>py_calls := py_calls w @ [Py_XDECREF p]\<rparr>"

text \<open>The references of one object taken minus those given back.\<close>

fun py_effect :: "py_call \<Rightarrow> U64 \<Rightarrow> int" where
  "py_effect (Py_XINCREF p) x = (if p = x then 1 else 0)"
| "py_effect (Py_XDECREF p) x = (if p = x then - 1 else 0)"

definition py_balance :: "world \<Rightarrow> U64 \<Rightarrow> int" where
  "py_balance w x = (\<Sum>c \<leftarrow> py_calls w. py_effect c x)"

lemma py_balance_simps [simp]:
  "py_balance (py_xincref p w) x = py_balance w x + (if p = x then 1 else 0)"
  "py_balance (py_xdecref p w) x = py_balance w x - (if p = x then 1 else 0)"
  by (simp_all add: py_balance_def py_xincref_def py_xdecref_def)

text \<open>A pointer that may be counted: NULL, or the address of a live object.\<close>

definition live :: "world \<Rightarrow> U64 \<Rightarrow> bool" where
  "live w p \<longleftrightarrow> p = 0 \<or> p \<in> dom (objs w)"

lemmas object_defs = object_free_def object_incref_def object_decref_def

section \<open>Reference counting as an interface\<close>

text \<open>
  What the containers rely on: taking a reference of a live object succeeds, keeps every other
  object as it is, and giving back a reference that was taken restores the counts.
\<close>

locale ref_counting =
  fixes incref :: "'p \<Rightarrow> 'w \<Rightarrow> 'w option"
    and decref :: "'p \<Rightarrow> 'w \<Rightarrow> 'w option"
    and alive :: "'w \<Rightarrow> 'p \<Rightarrow> bool"
    and headroom :: "'w \<Rightarrow> 'p \<Rightarrow> bool"
    and others :: "'p \<Rightarrow> 'w \<Rightarrow> 'w \<Rightarrow> bool"
  assumes incref_alive: "alive w p \<Longrightarrow> \<exists>w'. incref p w = Some w' \<and> (\<forall>q. alive w' q = alive w q)"
    and incref_others: "incref p w = Some w' \<Longrightarrow> others p w w'"
    and incref_decref: "alive w p \<Longrightarrow> headroom w p \<Longrightarrow> incref p w = Some w' \<Longrightarrow> decref p w' = Some w"
begin

text \<open>Handing a reference over: the owner's reference is replaced by the receiver's.\<close>

lemma hand_over:
  assumes "alive w p" and "headroom w p"
  shows "Option.bind (incref p w) (decref p) = Some w"
proof -
  obtain w' where w': "incref p w = Some w'"
    using incref_alive [OF assms(1)] by blast
  then show ?thesis
    using incref_decref [OF assms w'] by simp
qed

end

text \<open>The code's macros provide it: a count of at least one that does not overflow is restored.\<close>

definition count_headroom :: "world \<Rightarrow> U64 \<Rightarrow> bool" where
  "count_headroom w p \<longleftrightarrow> (\<forall>c. objs w p = Some c \<longrightarrow> c \<noteq> 0 \<and> c + 1 \<noteq> 0)"

definition same_others :: "U64 \<Rightarrow> world \<Rightarrow> world \<Rightarrow> bool" where
  "same_others p w w' \<longleftrightarrow> (\<forall>q. q \<noteq> p \<longrightarrow> objs w' q = objs w q)
     \<and> destroyed w' = destroyed w \<and> py_calls w' = py_calls w"

interpretation rc: ref_counting object_incref object_decref live count_headroom same_others
proof
  fix w p
  assume "live w p"
  then show "\<exists>w'. object_incref p w = Some w' \<and> (\<forall>q. live w' q = live w q)"
    by (auto simp: live_def object_incref_def)
next
  fix w p w'
  assume "object_incref p w = Some w'"
  then show "same_others p w w'"
    by (auto simp: same_others_def object_incref_def split: if_splits option.splits)
next
  fix w p w'
  assume "live w p" and "count_headroom w p" and "object_incref p w = Some w'"
  then show "object_decref p w' = Some w"
    by (auto simp: count_headroom_def object_incref_def object_decref_def fun_upd_idem
        split: if_splits option.splits)
qed

end
