(* ===== verification/Lut.thy ===== *)
theory Lut
  imports Murmur Objects
begin

text \<open>
  The lookup table of autogentoo/hacksaw/lut.c, which keeps the packages and the use flags: a
  hash table with chained buckets whose entries have a serialised 64-bit id made of the hash of
  the key and the number of older keys with that hash. A chain of nodes is a list. The lemmas
  show that the table keeps its invariant, that it behaves as a map from keys to ids and data,
  that ids are distinct and survive reallocation, and that the references it holds on Python
  objects balance.
\<close>

section \<open>The table\<close>

definition LUT_HASH_MASK :: U64 where "LUT_HASH_MASK = 0x00000000ffffffff"
definition LUT_OVERLAP_MASK :: U64 where "LUT_OVERLAP_MASK = 0x0000ffff00000000"
definition LUT_HASH_SHIFT :: nat where "LUT_HASH_SHIFT = 0"
definition LUT_OVERLAP_SHIFT :: nat where "LUT_OVERLAP_SHIFT = 32"

definition LUT_FLAG_NONE :: U32 where "LUT_FLAG_NONE = 0"
definition LUT_FLAG_NOT_FOUND :: U32 where "LUT_FLAG_NOT_FOUND = 1"
definition LUT_FLAG_EXISTS :: U32 where "LUT_FLAG_EXISTS = 2"
definition LUT_FLAG_REFERENCE :: U32 where "LUT_FLAG_REFERENCE = 4"
definition LUT_FLAG_PYTHON :: U32 where "LUT_FLAG_PYTHON = 8"
definition LUT_FLAG_ARBITRARY :: U32 where "LUT_FLAG_ARBITRARY = 16"

lemmas lut_consts [c_eval] = LUT_HASH_MASK_def LUT_OVERLAP_MASK_def LUT_HASH_SHIFT_def
  LUT_OVERLAP_SHIFT_def LUT_FLAG_NONE_def LUT_FLAG_NOT_FOUND_def LUT_FLAG_EXISTS_def
  LUT_FLAG_REFERENCE_def LUT_FLAG_PYTHON_def LUT_FLAG_ARBITRARY_def

definition has_flag :: "U32 \<Rightarrow> U32 \<Rightarrow> bool" where
  "has_flag flags f \<longleftrightarrow> flags AND f \<noteq> 0"

record LUTNode =
  node_id :: U64
  node_key :: string
  node_data :: U64
  node_flags :: U32

record LUT =
  lut_table :: "LUTNode list list"
  lut_n :: U32
  lut_size :: U64
  lut_realloc_at :: U64

text \<open>The constant 0.7 as a double.\<close>

definition LUT_THRESHOLD :: f64 where
  "LUT_THRESHOLD = (6305039478318694, 53)"

definition LUT_ID_GET_HASH :: "U64 \<Rightarrow> U64" where
  "LUT_ID_GET_HASH i = drop_bit LUT_HASH_SHIFT i AND LUT_HASH_MASK"

text \<open>The index of a bucket; a table of size 0 divides by zero.\<close>

definition lut_get_bucket :: "LUT \<Rightarrow> U32 \<Rightarrow> nat option" where
  "lut_get_bucket self hash =
     (if lut_size self = 0 then None else Some (unat ((ucast hash :: U64) mod lut_size self)))"

definition lut_new :: "U64 \<Rightarrow> LUT" where
  "lut_new new_size =
     \<lparr>lut_table = replicate (unat new_size) [], lut_n = 0, lut_size = new_size,
      lut_realloc_at = f64_mul_u64 LUT_THRESHOLD new_size\<rparr>"

section \<open>Reallocation\<close>

text \<open>Append one node of the old table to its bucket of the new table.\<close>

definition lut_place :: "LUT \<Rightarrow> LUTNode \<Rightarrow> LUT option" where
  "lut_place self current =
     do { b \<leftarrow> lut_get_bucket self (ucast (LUT_ID_GET_HASH (node_id current)));
          Some (self\<lparr>lut_table := (lut_table self)[b := lut_table self ! b @ [current]],
                     lut_n := lut_n self + 1\<rparr>) }"

fun lut_place_all :: "LUT \<Rightarrow> LUTNode list \<Rightarrow> LUT option" where
  "lut_place_all self [] = Some self"
| "lut_place_all self (current # next) =
     do { self \<leftarrow> lut_place self current; lut_place_all self next }"

text \<open>The loop over the old table stops once all nodes are counted.\<close>

fun lut_realloc_loop :: "LUT \<Rightarrow> LUTNode list list \<Rightarrow> U32 \<Rightarrow> LUT option" where
  "lut_realloc_loop self [] old_count = Some self"
| "lut_realloc_loop self (bucket # old_table) old_count =
     (if lut_n self < old_count
      then do { self \<leftarrow> lut_place_all self bucket; lut_realloc_loop self old_table old_count }
      else Some self)"

definition lut_realloc :: "LUT \<Rightarrow> U64 \<Rightarrow> LUT option" where
  "lut_realloc self new_size =
     (let old_count = lut_n self;
          new = self\<lparr>lut_table := replicate (unat new_size) [], lut_size := new_size,
                     lut_realloc_at := f64_mul_u64 LUT_THRESHOLD new_size, lut_n := 0\<rparr>
      in do { new \<leftarrow> lut_realloc_loop new (lut_table self) old_count;
              if lut_n new = old_count then Some new else None })"

section \<open>Lookup\<close>

fun lut_find_node :: "LUTNode list \<Rightarrow> U64 \<Rightarrow> nat option" where
  "lut_find_node [] i = None"
| "lut_find_node (current # next) i =
     (if node_id current = i then Some 0 else map_option Suc (lut_find_node next i))"

text \<open>\<open>lut_get_key\<close> returns NULL, here the inner None, and \<open>lut_get\<close> returns 0 for an unknown id.\<close>

definition lut_get_key :: "LUT \<Rightarrow> U64 \<Rightarrow> string option option" where
  "lut_get_key self i =
     do { b \<leftarrow> lut_get_bucket self (ucast (LUT_ID_GET_HASH i));
          Some (map_option (\<lambda>k. node_key (lut_table self ! b ! k))
                 (lut_find_node (lut_table self ! b) i)) }"

definition lut_get :: "LUT \<Rightarrow> U64 \<Rightarrow> U64 option" where
  "lut_get self i =
     do { b \<leftarrow> lut_get_bucket self (ucast (LUT_ID_GET_HASH i));
          Some (case lut_find_node (lut_table self ! b) i of
                  None \<Rightarrow> 0
                | Some k \<Rightarrow> node_data (lut_table self ! b ! k)) }"

text \<open>The walk of \<open>lut_get_id\<close>: the id of the key, or the 16-bit count of other keys with its hash.\<close>

fun lut_scan :: "string \<Rightarrow> U32 \<Rightarrow> LUTNode list \<Rightarrow> U16 \<Rightarrow> U64 + U16" where
  "lut_scan key hash [] hash_overlap = Inr hash_overlap"
| "lut_scan key hash (current # next) hash_overlap =
     (if LUT_ID_GET_HASH (node_id current) = ucast hash
      then if strcmp key (node_key current) = 0 then Inl (node_id current)
           else lut_scan key hash next (hash_overlap + 1)
      else lut_scan key hash next hash_overlap)"

definition lut_make_id :: "U32 \<Rightarrow> U16 \<Rightarrow> U64" where
  "lut_make_id hash hash_overlap =
     (push_bit LUT_HASH_SHIFT (ucast hash) AND LUT_HASH_MASK)
       OR (push_bit LUT_OVERLAP_SHIFT (ucast hash_overlap) AND LUT_OVERLAP_MASK)"

definition lut_get_id :: "LUT \<Rightarrow> string \<Rightarrow> (U64 \<times> U32) option" where
  "lut_get_id self key =
     do { b \<leftarrow> lut_get_bucket self (hash_str key);
          Some (case lut_scan key (hash_str key) (lut_table self ! b) 0 of
                  Inl i \<Rightarrow> (i, LUT_FLAG_EXISTS)
                | Inr hash_overlap \<Rightarrow> (lut_make_id (hash_str key) hash_overlap, LUT_FLAG_NOT_FOUND)) }"

section \<open>Insertion\<close>

text \<open>Taking and giving back the reference on the data that the flags ask for.\<close>

definition node_acquire :: "U32 \<Rightarrow> U64 \<Rightarrow> world \<Rightarrow> world option" where
  "node_acquire flag data w =
     (if has_flag flag LUT_FLAG_PYTHON then Some (py_xincref data w)
      else if has_flag flag LUT_FLAG_REFERENCE then object_incref data w
      else Some w)"

definition node_release :: "U32 \<Rightarrow> U64 \<Rightarrow> world \<Rightarrow> world option" where
  "node_release flag data w =
     (if has_flag flag LUT_FLAG_PYTHON then Some (py_xdecref data w)
      else if has_flag flag LUT_FLAG_REFERENCE then object_decref data w
      else Some w)"

text \<open>The branch that overwrites an existing node, with the asserts of the code.\<close>

definition lut_overwrite :: "LUTNode list \<Rightarrow> LUTNode \<Rightarrow> world \<Rightarrow> (LUTNode list \<times> world) option" where
  "lut_overwrite bucket node w =
     (if bucket = [] then None
      else case lut_find_node bucket (node_id node) of
        None \<Rightarrow> None
      | Some k \<Rightarrow>
          let current = bucket ! k; flag = node_flags node; data = node_data node in
          do { (current, w) \<leftarrow>
                 (if data \<noteq> node_data current
                  then do { w \<leftarrow> node_acquire flag data w;
                            w \<leftarrow> node_release (node_flags current) (node_data current) w;
                            Some (current\<lparr>node_data := data\<rparr>, w) }
                  else Some (current, w));
               w \<leftarrow> node_release flag data w;
               Some (bucket[k := current\<lparr>node_flags := flag\<rparr>], w) })"

definition lut_insert_id :: "LUT \<Rightarrow> world \<Rightarrow> string \<Rightarrow> U64 \<Rightarrow> U64 \<Rightarrow> U32 \<Rightarrow> (LUT \<times> world) option" where
  "lut_insert_id self w key data i flag =
     do { self \<leftarrow> (if lut_realloc_at self \<le> ucast (lut_n self + 1)
                   then lut_realloc self (lut_size self * 4) else Some self);
          w \<leftarrow> node_acquire flag data w;
          let node = \<lparr>node_id = i, node_key = key, node_data = data, node_flags = flag\<rparr>;
          b \<leftarrow> lut_get_bucket self (ucast (LUT_ID_GET_HASH i));
          if has_flag flag LUT_FLAG_NOT_FOUND
          then Some (self\<lparr>lut_table := (lut_table self)[b := lut_table self ! b @ [node]],
                          lut_n := lut_n self + 1\<rparr>, w)
          else if has_flag flag LUT_FLAG_EXISTS
          then do { (bucket, w) \<leftarrow> lut_overwrite (lut_table self ! b) node w;
                    Some (self\<lparr>lut_table := (lut_table self)[b := bucket]\<rparr>, w) }
          else Some (self, w) }"

definition lut_insert :: "LUT \<Rightarrow> world \<Rightarrow> string \<Rightarrow> U64 \<Rightarrow> U32 \<Rightarrow> (LUT \<times> world \<times> U64) option" where
  "lut_insert self w key data flags =
     do { (out, flag) \<leftarrow> lut_get_id self key;
          (self, w) \<leftarrow> lut_insert_id self w key data out (flag OR flags);
          Some (self, w, out) }"

text \<open>Freeing a node frees the rest of its chain first. The loop counter of \<open>lut_free\<close> has 32
  bits, so a larger table would be visited again.\<close>

fun lut_node_free :: "LUTNode list \<Rightarrow> world \<Rightarrow> world option" where
  "lut_node_free [] w = Some w"
| "lut_node_free (self # next) w =
     do { w \<leftarrow> lut_node_free next w; node_release (node_flags self) (node_data self) w }"

fun lut_free_buckets :: "LUTNode list list \<Rightarrow> world \<Rightarrow> world option" where
  "lut_free_buckets [] w = Some w"
| "lut_free_buckets (bucket # table) w =
     do { w \<leftarrow> lut_node_free bucket w; lut_free_buckets table w }"

definition lut_free :: "LUT \<Rightarrow> world \<Rightarrow> world option" where
  "lut_free self w =
     (if unat (lut_size self) \<le> 2 ^ 32 then lut_free_buckets (lut_table self) w else None)"

section \<open>Ids\<close>

text \<open>The hash a node is filed under, and its bucket in a table of a given size.\<close>

definition node_hash :: "LUTNode \<Rightarrow> U32" where
  "node_hash nd = ucast (node_id nd)"

definition lut_ix :: "U64 \<Rightarrow> LUTNode \<Rightarrow> nat" where
  "lut_ix m nd = unat ((ucast (node_hash nd) :: U64) mod m)"

lemma bit_ucast32: "bit (ucast (h :: U32) :: U64) n \<longleftrightarrow> n < 32 \<and> bit h n"
  by (auto simp: bit_simps dest: bit_imp_le_length)

lemma bit_ucast16: "bit (ucast (h :: U16) :: U64) n \<longleftrightarrow> n < 16 \<and> bit h n"
  by (auto simp: bit_simps dest: bit_imp_le_length)

lemma hash_mask: "(0xffffffff :: U64) = mask 32"
  by (simp add: mask_eq_exp_minus_1)

lemma overlap_mask: "(0x0000ffff00000000 :: U64) = push_bit 32 (mask 16)"
  by (simp add: mask_eq_exp_minus_1)

lemma ucast_get_hash [simp]: "(ucast (LUT_ID_GET_HASH i) :: U32) = ucast i"
  by (rule bit_word_eqI)
    (simp add: LUT_ID_GET_HASH_def lut_consts hash_mask bit_ucast_iff bit_and_iff bit_mask_iff)

lemma ucast_up_down32 [simp]: "(ucast (ucast (h :: U32) :: U64) :: U32) = h"
  by (rule bit_word_eqI) (simp add: bit_ucast_iff)

lemma get_hash_eq_iff: "LUT_ID_GET_HASH i = ucast (h :: U32) \<longleftrightarrow> ucast i = h"
proof
  assume "LUT_ID_GET_HASH i = ucast h"
  then have "(ucast (LUT_ID_GET_HASH i) :: U32) = ucast (ucast h :: U64)" by simp
  then show "ucast i = h" by simp
next
  assume "ucast i = h"
  then show "LUT_ID_GET_HASH i = ucast h"
    by (auto intro!: bit_word_eqI simp: LUT_ID_GET_HASH_def lut_consts hash_mask bit_ucast_iff
        bit_and_iff bit_mask_iff)
qed

lemma bit_make_id:
  "bit (lut_make_id h ov) n \<longleftrightarrow> n < 32 \<and> bit h n \<or> 32 \<le> n \<and> n < 48 \<and> bit ov (n - 32)"
  unfolding lut_make_id_def lut_consts hash_mask overlap_mask
  by (auto simp: bit_simps dest: bit_imp_le_length)

lemma hash_of_make_id [simp]: "ucast (lut_make_id h ov) = h"
  by (rule bit_word_eqI) (auto simp: bit_ucast_iff bit_make_id)

lemma overlap_of_make_id [simp]: "ucast (drop_bit 32 (lut_make_id h ov)) = ov"
  by (rule bit_word_eqI) (auto simp: bit_ucast_iff bit_drop_bit_eq bit_make_id)

lemma make_id_inj: "lut_make_id h ov = lut_make_id h' ov' \<longleftrightarrow> h = h' \<and> ov = ov'"
  by (metis hash_of_make_id overlap_of_make_id)

section \<open>The invariant\<close>

definition lut_nodes :: "LUT \<Rightarrow> LUTNode list" where
  "lut_nodes l = concat (lut_table l)"

text \<open>The nodes with one hash, oldest first.\<close>

definition lut_chain :: "LUT \<Rightarrow> U32 \<Rightarrow> LUTNode list" where
  "lut_chain l h = filter (\<lambda>nd. node_hash nd = h) (lut_nodes l)"

definition lut_shape :: "LUT \<Rightarrow> bool" where
  "lut_shape l \<longleftrightarrow> lut_size l \<noteq> 0 \<and> length (lut_table l) = unat (lut_size l)
     \<and> placed (lut_ix (lut_size l)) (lut_table l)"

definition numbered :: "U32 \<Rightarrow> LUTNode list \<Rightarrow> bool" where
  "numbered h nds \<longleftrightarrow> map node_id nds = map (\<lambda>k. lut_make_id h (word_of_nat k)) [0..<length nds]"

text \<open>Nodes are in their bucket, counted, numbered in the order of their age with at
  most \<open>2 ^ 16\<close> of one hash, filed under the hash of their key, and no two have the same key.\<close>

definition lut_inv :: "LUT \<Rightarrow> bool" where
  "lut_inv l \<longleftrightarrow> lut_shape l
     \<and> length (lut_nodes l) < 2 ^ 32 \<and> lut_n l = word_of_nat (length (lut_nodes l))
     \<and> (\<forall>h. numbered h (lut_chain l h) \<and> length (lut_chain l h) \<le> 2 ^ 16)
     \<and> (\<forall>nd \<in> set (lut_nodes l). hash_str (node_key nd) = node_hash nd)
     \<and> distinct (map node_key (lut_nodes l))"

text \<open>Room for one more node: the counters of the code do not overflow.\<close>

definition lut_room :: "LUT \<Rightarrow> bool" where
  "lut_room l \<longleftrightarrow> unat (lut_size l) < 2 ^ 62 \<and> length (lut_nodes l) + 1 < 2 ^ 32
     \<and> (\<forall>h. length (lut_chain l h) < 2 ^ 16)"

lemma lut_ix_bound: "lut_shape l \<Longrightarrow> lut_ix (lut_size l) nd < length (lut_table l)"
proof -
  assume "lut_shape l"
  then have "lut_size l \<noteq> 0" and len: "length (lut_table l) = unat (lut_size l)"
    by (simp_all add: lut_shape_def)
  then have "0 < unat (lut_size l)"
    by (simp add: unat_gt_0)
  then show ?thesis
    by (simp add: lut_ix_def len unat_mod_distrib)
qed

lemma lut_get_bucket_shape:
  "lut_shape l \<Longrightarrow> lut_get_bucket l h = Some (unat ((ucast h :: U64) mod lut_size l))"
  by (simp add: lut_get_bucket_def lut_shape_def)

lemma lut_place_eq:
  "lut_shape l \<Longrightarrow> lut_place l nd =
     Some (l\<lparr>lut_table := put_last (lut_ix (lut_size l)) nd (lut_table l), lut_n := lut_n l + 1\<rparr>)"
  by (simp add: lut_place_def lut_get_bucket_shape put_last_def lut_ix_def node_hash_def)

lemma lut_shape_put_last:
  "lut_shape l \<Longrightarrow> lut_shape
     (l\<lparr>lut_table := put_last (lut_ix (lut_size l)) nd (lut_table l), lut_n := m\<rparr>)"
  using lut_ix_bound [of l nd] by (simp add: lut_shape_def placed_put_last)

lemma lut_chain_put_last:
  assumes "lut_shape l"
  shows "lut_chain (l\<lparr>lut_table := put_last (lut_ix (lut_size l)) nd (lut_table l), lut_n := m\<rparr>) h
    = lut_chain l h @ (if node_hash nd = h then [nd] else [])"
proof -
  have "filter (\<lambda>x. node_hash x = h) (concat (put_last (lut_ix (lut_size l)) nd (lut_table l)))
     = filter (\<lambda>x. node_hash x = h) (concat (lut_table l)) @ filter (\<lambda>x. node_hash x = h) [nd]"
    using assms lut_ix_bound [OF assms, of nd]
    by (intro filter_put_last) (auto simp: lut_shape_def lut_ix_def)
  then show ?thesis by (simp add: lut_chain_def lut_nodes_def)
qed

lemma mset_nodes_put_last:
  "lut_shape l \<Longrightarrow>
   mset (lut_nodes (l\<lparr>lut_table := put_last (lut_ix (lut_size l)) nd (lut_table l), lut_n := m\<rparr>))
     = add_mset nd (mset (lut_nodes l))"
  using mset_put_last [OF lut_ix_bound] by (simp add: lut_nodes_def del: mset_concat)

section \<open>Reallocation keeps every chain\<close>

lemma lut_place_all_append:
  "lut_place_all l (xs @ ys) = Option.bind (lut_place_all l xs) (\<lambda>l. lut_place_all l ys)"
  by (induction xs arbitrary: l) (auto simp: Option.bind_assoc)

lemma lut_place_all:
  assumes "lut_shape l"
  shows "\<exists>l'. lut_place_all l nds = Some l' \<and> lut_shape l' \<and> lut_size l' = lut_size l
    \<and> lut_n l' = lut_n l + word_of_nat (length nds)
    \<and> mset (lut_nodes l') = mset (lut_nodes l) + mset nds
    \<and> (\<forall>h. lut_chain l' h = lut_chain l h @ filter (\<lambda>nd. node_hash nd = h) nds)"
  using assms
proof (induction nds arbitrary: l)
  case Nil
  then show ?case by simp
next
  case (Cons nd nds)
  let ?l = "l\<lparr>lut_table := put_last (lut_ix (lut_size l)) nd (lut_table l), lut_n := lut_n l + 1\<rparr>"
  obtain l' where l': "lut_place_all ?l nds = Some l'" "lut_shape l'" "lut_size l' = lut_size l"
      "lut_n l' = lut_n l + 1 + word_of_nat (length nds)"
      "mset (lut_nodes l') = mset (lut_nodes ?l) + mset nds"
      "\<And>h. lut_chain l' h = lut_chain ?l h @ filter (\<lambda>nd. node_hash nd = h) nds"
    using Cons.IH [OF lut_shape_put_last [OF Cons.prems, where nd = nd and m = "lut_n l + 1"]] by auto
  then show ?case
    by (simp add: lut_place_eq Cons.prems mset_nodes_put_last lut_chain_put_last add.assoc)
qed

lemma lut_realloc_loop_all:
  assumes "lut_shape l" and "lut_n l = word_of_nat k"
    and "k + length (concat buckets) = tot" and "tot < 2 ^ 32"
  shows "lut_realloc_loop l buckets (word_of_nat tot) = lut_place_all l (concat buckets)"
  using assms
proof (induction buckets arbitrary: l k)
  case Nil
  then show ?case by simp
next
  case (Cons b buckets)
  have less: "lut_n l < word_of_nat tot \<longleftrightarrow> k < tot"
    using Cons.prems(2-4) by (simp add: word_less_nat_alt unat_of_nat take_bit_eq_mod)
  show ?case
  proof (cases "k < tot")
    case True
    obtain l' where l': "lut_place_all l b = Some l'" "lut_shape l'"
        "lut_n l' = lut_n l + word_of_nat (length b)"
      using lut_place_all [OF Cons.prems(1), of b] by blast
    have "lut_realloc_loop l' buckets (word_of_nat tot) = lut_place_all l' (concat buckets)"
      by (rule Cons.IH [of _ "k + length b"]) (use l' Cons.prems in simp_all)
    then show ?thesis
      using True less l'(1) by (simp add: lut_place_all_append)
  next
    case False
    then have "length (concat (b # buckets)) = 0"
      using Cons.prems(3) by linarith
    then have none: "concat (b # buckets) = []"
      by (simp only: length_0_conv)
    show ?thesis
      unfolding none using False less by simp
  qed
qed

text \<open>A reallocated table holds the same nodes, each chain in the same order.\<close>

lemma lut_realloc_chains:
  assumes inv: "lut_inv l" and m: "m \<noteq> 0"
  shows "\<exists>l'. lut_realloc l m = Some l' \<and> lut_shape l' \<and> lut_size l' = m \<and> lut_n l' = lut_n l
    \<and> mset (lut_nodes l') = mset (lut_nodes l) \<and> (\<forall>h. lut_chain l' h = lut_chain l h)"
proof -
  let ?e = "l\<lparr>lut_table := replicate (unat m) [], lut_size := m,
    lut_realloc_at := f64_mul_u64 LUT_THRESHOLD m, lut_n := 0\<rparr>"
  have shape: "lut_shape ?e"
    using m by (simp add: lut_shape_def)
  have empty: "lut_nodes ?e = []" "lut_chain ?e h = []" for h
    by (simp_all add: lut_nodes_def lut_chain_def)
  have n: "lut_n l = word_of_nat (length (concat (lut_table l)))"
      "length (concat (lut_table l)) < 2 ^ 32"
    using inv by (simp_all add: lut_inv_def lut_nodes_def)
  obtain l' where l': "lut_place_all ?e (lut_nodes l) = Some l'" "lut_shape l'" "lut_size l' = m"
      "lut_n l' = word_of_nat (length (lut_nodes l))" "mset (lut_nodes l') = mset (lut_nodes l)"
      "\<And>h. lut_chain l' h = lut_chain l h"
    using lut_place_all [OF shape, of "lut_nodes l"] by (auto simp: empty lut_chain_def)
  have "lut_realloc_loop ?e (lut_table l) (lut_n l) = Some l'"
    unfolding n(1) using lut_realloc_loop_all [OF shape, of 0 "lut_table l"] n(2) l'(1)
    by (simp add: lut_nodes_def)
  then have "lut_realloc l m = Some l'"
    using l'(4) n(1) by (simp add: lut_realloc_def lut_nodes_def)
  then show ?thesis
    using l' n(1) by (auto simp: lut_nodes_def)
qed

lemma lut_inv_mset:
  assumes "lut_inv l" "lut_shape l'" "lut_n l' = lut_n l" "mset (lut_nodes l') = mset (lut_nodes l)"
    and "\<And>h. lut_chain l' h = lut_chain l h"
  shows "lut_inv l'"
proof -
  have "length (lut_nodes l') = length (lut_nodes l)" "set (lut_nodes l') = set (lut_nodes l)"
    using assms(4) by (metis size_mset) (metis assms(4) set_mset_mset)
  moreover have "distinct (map node_key (lut_nodes l')) = distinct (map node_key (lut_nodes l))"
    using assms(4) by (metis mset_eq_imp_distinct_iff mset_map)
  ultimately show ?thesis
    using assms by (simp add: lut_inv_def)
qed

section \<open>Lookups\<close>

lemma find_node_Some:
  "lut_find_node nds i = Some k \<Longrightarrow> k < length nds \<and> node_id (nds ! k) = i"
  by (induction nds arbitrary: k) (auto split: if_splits)

lemma find_node_None: "lut_find_node nds i = None \<longleftrightarrow> i \<notin> node_id ` set nds"
  by (induction nds) (auto split: if_splits)

definition lut_bucket :: "LUT \<Rightarrow> U32 \<Rightarrow> LUTNode list" where
  "lut_bucket l h = lut_table l ! unat ((ucast h :: U64) mod lut_size l)"

lemma lut_bucket_bound:
  "lut_shape l \<Longrightarrow> unat ((ucast (h :: U32) :: U64) mod lut_size l) < length (lut_table l)"
  using lut_ix_bound [of l "\<lparr>node_id = ucast h, node_key = [], node_data = 0, node_flags = 0\<rparr>"]
  by (simp add: lut_ix_def node_hash_def)

lemma lut_chain_bucket:
  assumes "lut_shape l"
  shows "lut_chain l h = filter (\<lambda>nd. node_hash nd = h) (lut_bucket l h)"
  unfolding lut_chain_def lut_nodes_def lut_bucket_def
  by (rule placed_filter_concat [where ix = "lut_ix (lut_size l)"])
    (use assms lut_bucket_bound [OF assms] in \<open>auto simp: lut_shape_def lut_ix_def\<close>)

lemma bucket_subset: "lut_shape l \<Longrightarrow> set (lut_bucket l h) \<subseteq> set (lut_nodes l)"
  using nth_mem [OF lut_bucket_bound] by (fastforce simp: lut_nodes_def lut_bucket_def)

lemma node_in_chain: "nd \<in> set (lut_nodes l) \<longleftrightarrow> nd \<in> set (lut_chain l (node_hash nd))"
  by (simp add: lut_chain_def)

text \<open>Ids are distinct while fewer than \<open>2 ^ 16 + 1\<close> keys share a hash.\<close>

lemma numbered_distinct:
  assumes "numbered h nds" and "length nds \<le> 2 ^ 16"
  shows "distinct (map node_id nds)"
proof -
  have "inj_on (\<lambda>k. lut_make_id h (word_of_nat k)) {0..<length nds}"
  proof (rule inj_onI)
    fix x y
    assume "x \<in> {0..<length nds}" "y \<in> {0..<length nds}"
      and "lut_make_id h (word_of_nat x) = lut_make_id h (word_of_nat y)"
    then have "(word_of_nat x :: U16) = word_of_nat y" "x < 2 ^ 16" "y < 2 ^ 16"
      using assms(2) by (auto simp: make_id_inj)
    then have "unat (word_of_nat x :: U16) = unat (word_of_nat y :: U16)"
      by simp
    then show "x = y"
      using \<open>x < 2 ^ 16\<close> \<open>y < 2 ^ 16\<close> by (simp only: unat_of_nat) simp
  qed
  then show ?thesis
    using assms(1) by (simp add: numbered_def distinct_map)
qed

lemma lut_ids_distinct:
  assumes inv: "lut_inv l" and "nd \<in> set (lut_nodes l)" "nd' \<in> set (lut_nodes l)"
    and "node_id nd = node_id nd'"
  shows "nd = nd'"
proof -
  let ?c = "lut_chain l (node_hash nd)"
  have "node_hash nd' = node_hash nd"
    using assms(4) by (simp add: node_hash_def)
  then have "nd \<in> set ?c" "nd' \<in> set ?c"
    using assms(2,3) by (simp_all add: lut_chain_def)
  moreover have "distinct (map node_id ?c)"
    using inv numbered_distinct by (auto simp: lut_inv_def)
  ultimately show ?thesis
    using assms(4) by (auto simp: distinct_map dest: inj_onD)
qed

text \<open>The table as a map from keys to ids and data.\<close>

definition lut_map :: "LUT \<Rightarrow> string \<rightharpoonup> U64 \<times> U64" where
  "lut_map l = map_of (map (\<lambda>nd. (node_key nd, (node_id nd, node_data nd))) (lut_nodes l))"

lemma lut_map_Some:
  assumes "lut_inv l"
  shows "lut_map l k = Some (i, d) \<longleftrightarrow>
    (\<exists>nd \<in> set (lut_nodes l). node_key nd = k \<and> node_id nd = i \<and> node_data nd = d)"
proof -
  have "distinct (map fst (map (\<lambda>nd. (node_key nd, (node_id nd, node_data nd))) (lut_nodes l)))"
    using assms by (simp add: lut_inv_def comp_def)
  from map_of_eq_Some_iff [OF this] show ?thesis
    by (auto simp: lut_map_def)
qed

lemma lut_map_None: "lut_map l k = None \<longleftrightarrow> k \<notin> node_key ` set (lut_nodes l)"
  by (auto simp: lut_map_def map_of_eq_None_iff image_image)

lemma lut_get_node:
  assumes inv: "lut_inv l" and nd: "nd \<in> set (lut_nodes l)"
  shows "\<exists>k. lut_find_node (lut_bucket l (node_hash nd)) (node_id nd) = Some k
    \<and> lut_bucket l (node_hash nd) ! k = nd"
proof -
  let ?b = "lut_bucket l (node_hash nd)"
  have shape: "lut_shape l" using inv by (simp add: lut_inv_def)
  have "nd \<in> set ?b"
    using nd node_in_chain [of nd l] lut_chain_bucket [OF shape] by simp
  then obtain k where k: "lut_find_node ?b (node_id nd) = Some k"
    using find_node_None [of ?b "node_id nd"] by (cases "lut_find_node ?b (node_id nd)") auto
  then have "?b ! k \<in> set (lut_nodes l)" "node_id (?b ! k) = node_id nd"
    using find_node_Some [OF k] bucket_subset [OF shape, of "node_hash nd"] by auto
  then show ?thesis
    using k lut_ids_distinct [OF inv _ nd] by auto
qed

lemma lut_get_Some:
  assumes inv: "lut_inv l" and "lut_map l k = Some (i, d)"
  shows "lut_get l i = Some d" and "lut_get_key l i = Some (Some k)"
proof -
  obtain nd where nd: "nd \<in> set (lut_nodes l)" "node_key nd = k" "node_id nd = i" "node_data nd = d"
    using assms by (auto simp: lut_map_Some)
  have "lut_shape l" using inv by (simp add: lut_inv_def)
  then show "lut_get l i = Some d" "lut_get_key l i = Some (Some k)"
    using lut_get_node [OF inv nd(1)] nd
    by (auto simp: lut_get_def lut_get_key_def lut_get_bucket_shape lut_bucket_def node_hash_def)
qed

lemma lut_get_unknown:
  assumes inv: "lut_inv l" and "\<forall>k d. lut_map l k \<noteq> Some (i, d)"
  shows "lut_get l i = Some 0" and "lut_get_key l i = Some None"
proof -
  have shape: "lut_shape l" using inv by (simp add: lut_inv_def)
  have "i \<notin> node_id ` set (lut_nodes l)"
    using assms by (auto simp: lut_map_Some)
  then have "lut_find_node (lut_bucket l (ucast i)) i = None"
    using bucket_subset [OF shape, of "ucast i"] by (auto simp: find_node_None)
  then show "lut_get l i = Some 0" "lut_get_key l i = Some None"
    using shape by (simp_all add: lut_get_def lut_get_key_def lut_get_bucket_shape lut_bucket_def)
qed

lemma get_hash_eq_node: "LUT_ID_GET_HASH (node_id nd) = ucast h \<longleftrightarrow> node_hash nd = h"
  by (simp add: get_hash_eq_iff node_hash_def)

lemma lut_scan_spec:
  "lut_scan key h nds ov =
    (case find (\<lambda>nd. node_hash nd = h \<and> node_key nd = key) nds of
       Some nd \<Rightarrow> Inl (node_id nd)
     | None \<Rightarrow> Inr (ov + word_of_nat (length (filter (\<lambda>nd. node_hash nd = h) nds))))"
  by (induction nds arbitrary: ov)
    (auto simp: get_hash_eq_node add.assoc add.commute split: option.split)

lemma lut_get_id_found:
  assumes inv: "lut_inv l" and k: "lut_map l key = Some (i, d)"
  shows "lut_get_id l key = Some (i, LUT_FLAG_EXISTS)"
proof -
  let ?h = "hash_str key" and ?P = "\<lambda>nd. node_hash nd = hash_str key \<and> node_key nd = key"
  have shape: "lut_shape l" using inv by (simp add: lut_inv_def)
  obtain nd where nd: "nd \<in> set (lut_nodes l)" "node_key nd = key" "node_id nd = i"
    using k inv by (auto simp: lut_map_Some)
  then have h: "node_hash nd = ?h"
    using inv by (auto simp: lut_inv_def)
  then have "nd \<in> set (lut_bucket l ?h)"
    using nd node_in_chain [of nd l] lut_chain_bucket [OF shape] by simp
  then obtain nd' where nd': "find ?P (lut_bucket l ?h) = Some nd'"
    using nd(2) h by (cases "find ?P (lut_bucket l ?h)") (auto simp: find_None_iff)
  then have "nd' \<in> set (lut_nodes l)" "node_key nd' = key"
    using bucket_subset [OF shape, of ?h] by (auto simp: find_Some_iff)
  then have "nd' = nd"
    using nd inv by (auto simp: lut_inv_def distinct_map dest: inj_onD)
  then show ?thesis
    using nd' nd shape
    by (simp add: lut_get_id_def lut_get_bucket_shape lut_scan_spec flip: lut_bucket_def)
qed

lemma lut_get_id_missing:
  assumes inv: "lut_inv l" and k: "lut_map l key = None"
  shows "lut_get_id l key = Some (lut_make_id (hash_str key)
    (word_of_nat (length (lut_chain l (hash_str key)))), LUT_FLAG_NOT_FOUND)"
proof -
  let ?P = "\<lambda>nd. node_hash nd = hash_str key \<and> node_key nd = key"
  have shape: "lut_shape l" using inv by (simp add: lut_inv_def)
  have "find ?P (lut_bucket l (hash_str key)) = None"
    using k bucket_subset [OF shape, of "hash_str key"] by (auto simp: find_None_iff lut_map_None)
  then show ?thesis
    using shape by (simp add: lut_get_id_def lut_get_bucket_shape lut_scan_spec
        lut_chain_bucket flip: lut_bucket_def)
qed

text \<open>The id given out for a key that is not in the table belongs to no entry.\<close>

lemma fresh_id:
  assumes inv: "lut_inv l" and few: "length (lut_chain l h) < 2 ^ 16"
    and nd: "nd \<in> set (lut_nodes l)"
  shows "node_id nd \<noteq> lut_make_id h (word_of_nat (length (lut_chain l h)))"
proof
  assume eq: "node_id nd = lut_make_id h (word_of_nat (length (lut_chain l h)))"
  then have "node_hash nd = h" by (simp add: node_hash_def)
  then have "nd \<in> set (lut_chain l h)"
    using nd by (simp add: lut_chain_def)
  then have "node_id nd \<in> set (map node_id (lut_chain l h))"
    by simp
  moreover have "map node_id (lut_chain l h)
      = map (\<lambda>k. lut_make_id h (word_of_nat k)) [0..<length (lut_chain l h)]"
    using inv by (simp add: lut_inv_def numbered_def)
  ultimately obtain k where k: "k < length (lut_chain l h)" "node_id nd = lut_make_id h (word_of_nat k)"
    by auto
  then have "unat (word_of_nat k :: U16) = unat (word_of_nat (length (lut_chain l h)) :: U16)"
    using eq by (simp add: make_id_inj)
  then show False
    using k(1) few by (simp only: unat_of_nat) simp
qed

section \<open>Growing the table\<close>

text \<open>Two tables with the same nodes in the same chains are the same map.\<close>

definition same_entries :: "LUT \<Rightarrow> LUT \<Rightarrow> bool" where
  "same_entries l l' \<longleftrightarrow> mset (lut_nodes l') = mset (lut_nodes l)
     \<and> (\<forall>h. lut_chain l' h = lut_chain l h) \<and> lut_n l' = lut_n l"

lemma same_entries_set: "same_entries l l' \<Longrightarrow> set (lut_nodes l') = set (lut_nodes l)"
  unfolding same_entries_def by (metis set_mset_mset)

lemma same_entries_length: "same_entries l l' \<Longrightarrow> length (lut_nodes l') = length (lut_nodes l)"
  unfolding same_entries_def by (metis size_mset)

lemma same_entries_map:
  assumes "lut_inv l" "lut_inv l'" "same_entries l l'"
  shows "lut_map l' = lut_map l"
proof
  fix k
  have "lut_map l' k = Some p \<longleftrightarrow> lut_map l k = Some p" for p
    using assms same_entries_set [OF assms(3)] by (cases p) (simp add: lut_map_Some)
  then show "lut_map l' k = lut_map l k"
    by (metis option.exhaust)
qed

lemma lut_realloc_entries:
  assumes "lut_inv l" and "m \<noteq> 0"
  shows "\<exists>l'. lut_realloc l m = Some l' \<and> lut_inv l' \<and> same_entries l l' \<and> lut_size l' = m"
  using lut_realloc_chains [OF assms] lut_inv_mset [OF assms(1)]
  by (fastforce simp: same_entries_def)

definition lut_grow :: "LUT \<Rightarrow> LUT option" where
  "lut_grow l = (if lut_realloc_at l \<le> ucast (lut_n l + 1) then lut_realloc l (lut_size l * 4)
     else Some l)"

lemma lut_grow_entries:
  assumes inv: "lut_inv l" and room: "lut_room l"
  shows "\<exists>l'. lut_grow l = Some l' \<and> lut_inv l' \<and> same_entries l l'"
proof -
  have "unat (lut_size l * 4) = unat (lut_size l) * 4"
    using room by (simp add: lut_room_def unat_word_ariths)
  then have "lut_size l * 4 \<noteq> 0"
    using inv by (metis lut_inv_def lut_shape_def mult_eq_0_iff unat_eq_0 zero_neq_numeral)
  then show ?thesis
    using lut_realloc_entries [OF inv] inv by (fastforce simp: lut_grow_def same_entries_def)
qed

section \<open>Inserting a key\<close>

text \<open>Flags without an own reference, or with a reference counted by CPython: the modes in which
  the program uses the table. Taking and giving back such a reference always succeeds.\<close>

definition plain_flags :: "U32 \<Rightarrow> bool" where
  "plain_flags f \<longleftrightarrow> has_flag f LUT_FLAG_PYTHON \<or> \<not> has_flag f LUT_FLAG_REFERENCE"

definition lut_plain :: "LUT \<Rightarrow> bool" where
  "lut_plain l \<longleftrightarrow> (\<forall>nd \<in> set (lut_nodes l). plain_flags (node_flags nd))"

definition plain_acquire :: "U32 \<Rightarrow> U64 \<Rightarrow> world \<Rightarrow> world" where
  "plain_acquire f d w = (if has_flag f LUT_FLAG_PYTHON then py_xincref d w else w)"

definition plain_release :: "U32 \<Rightarrow> U64 \<Rightarrow> world \<Rightarrow> world" where
  "plain_release f d w = (if has_flag f LUT_FLAG_PYTHON then py_xdecref d w else w)"

lemma node_acquire_plain: "plain_flags f \<Longrightarrow> node_acquire f d w = Some (plain_acquire f d w)"
  by (auto simp: node_acquire_def plain_flags_def plain_acquire_def)

lemma node_release_plain: "plain_flags f \<Longrightarrow> node_release f d w = Some (plain_release f d w)"
  by (auto simp: node_release_def plain_flags_def plain_release_def)

lemma lut_insert_id_grow:
  "lut_insert_id self w key data i flag =
     Option.bind (lut_grow self) (\<lambda>self. Option.bind (node_acquire flag data w) (\<lambda>w.
       let node = \<lparr>node_id = i, node_key = key, node_data = data, node_flags = flag\<rparr> in
       Option.bind (lut_get_bucket self (ucast i)) (\<lambda>b.
         if has_flag flag LUT_FLAG_NOT_FOUND
         then Some (self\<lparr>lut_table := (lut_table self)[b := lut_table self ! b @ [node]],
                         lut_n := lut_n self + 1\<rparr>, w)
         else if has_flag flag LUT_FLAG_EXISTS
         then Option.bind (lut_overwrite (lut_table self ! b) node w) (\<lambda>(bucket, w).
           Some (self\<lparr>lut_table := (lut_table self)[b := bucket]\<rparr>, w))
         else Some (self, w))))"
  by (simp add: lut_insert_id_def lut_grow_def)

text \<open>A new key: the node is appended to its chain.\<close>

lemma lut_insert_id_new:
  assumes inv: "lut_inv l" and room: "lut_room l" and f: "plain_flags f" "has_flag f LUT_FLAG_NOT_FOUND"
    and key: "lut_map l key = None"
    and i: "i = lut_make_id (hash_str key) (word_of_nat (length (lut_chain l (hash_str key))))"
  shows "\<exists>l'. lut_insert_id l w key d i f = Some (l', plain_acquire f d w) \<and> lut_inv l'
    \<and> mset (lut_nodes l') = add_mset \<lparr>node_id = i, node_key = key, node_data = d, node_flags = f\<rparr>
         (mset (lut_nodes l))"
proof -
  let ?nd = "\<lparr>node_id = i, node_key = key, node_data = d, node_flags = f\<rparr>"
  obtain g where g: "lut_grow l = Some g" "lut_inv g" and same: "same_entries l g"
    using lut_grow_entries [OF inv room] by blast
  have shape: "lut_shape g" using g by (simp add: lut_inv_def)
  define l' where "l' = g\<lparr>lut_table := put_last (lut_ix (lut_size g)) ?nd (lut_table g),
    lut_n := lut_n g + 1\<rparr>"
  have hash: "node_hash ?nd = hash_str key" by (simp add: node_hash_def i)
  have eq: "lut_insert_id l w key d i f = Some (l', plain_acquire f d w)"
    using shape f by (simp add: lut_insert_id_grow g node_acquire_plain lut_get_bucket_shape l'_def
        put_last_def lut_ix_def node_hash_def)
  have nodes: "mset (lut_nodes l') = add_mset ?nd (mset (lut_nodes g))"
    using mset_nodes_put_last [OF shape] by (simp add: l'_def)
  have n: "lut_n l' = lut_n g + 1" by (simp add: l'_def)
  have len: "length (lut_nodes l') = length (lut_nodes g) + 1"
    using arg_cong [OF nodes, of size] by simp
  have set: "set (lut_nodes l') = insert ?nd (set (lut_nodes g))"
    using arg_cong [OF nodes, of set_mset] by simp
  have chain: "lut_chain l' h = lut_chain g h @ (if hash_str key = h then [?nd] else [])" for h
    using lut_chain_put_last [OF shape, where nd = ?nd and m = "lut_n g + 1" and h = h] hash by (simp add: l'_def)
  have chains: "numbered h (lut_chain l' h) \<and> length (lut_chain l' h) \<le> 2 ^ 16" for h
    using g(2) same room i
    by (auto simp: chain lut_inv_def numbered_def lut_room_def same_entries_def Suc_le_eq)
  have "distinct (map node_key (lut_nodes l'))"
  proof -
    have "distinct (map node_key (?nd # lut_nodes g))"
      using g(2) key same_entries_set [OF same] by (auto simp: lut_inv_def lut_map_None)
    moreover have "mset (map node_key (lut_nodes l')) = mset (map node_key (?nd # lut_nodes g))"
      using nodes by simp
    ultimately show ?thesis by (metis mset_eq_imp_distinct_iff)
  qed
  moreover have "lut_shape l'"
    unfolding l'_def by (rule lut_shape_put_last [OF shape])
  moreover have "lut_n l' = word_of_nat (length (lut_nodes l'))" "length (lut_nodes l') < 2 ^ 32"
    using g(2) room same_entries_length [OF same] n by (auto simp: lut_inv_def len lut_room_def)
  ultimately have "lut_inv l'"
    using chains g(2) hash by (auto simp: lut_inv_def set)
  then show ?thesis
    using eq nodes same by (auto simp: same_entries_def)
qed

text \<open>A known key: its node gets the new data and flags, everything else stays.\<close>

definition node_update :: "U64 \<Rightarrow> U64 \<Rightarrow> U32 \<Rightarrow> LUTNode \<Rightarrow> LUTNode" where
  "node_update i d f nd = (if node_id nd = i then nd\<lparr>node_data := d, node_flags := f\<rparr> else nd)"

lemma node_update_simps [simp]:
  "node_id (node_update i d f nd) = node_id nd" "node_key (node_update i d f nd) = node_key nd"
  "node_hash (node_update i d f nd) = node_hash nd" "lut_ix m (node_update i d f nd) = lut_ix m nd"
  by (simp_all add: node_update_def node_hash_def lut_ix_def)

lemma map_unchanged: "(\<And>x. x \<in> set xs \<Longrightarrow> f x = x) \<Longrightarrow> map f xs = xs"
  by (simp add: map_idI)

text \<open>The references taken and given back when a node is overwritten.\<close>

definition overwrite_world :: "LUTNode \<Rightarrow> U64 \<Rightarrow> U32 \<Rightarrow> world \<Rightarrow> world" where
  "overwrite_world current d f w = plain_release f d
     (if d \<noteq> node_data current
      then plain_release (node_flags current) (node_data current) (plain_acquire f d w) else w)"

lemma node_data_same:
  "node_data nd = d \<Longrightarrow> nd\<lparr>node_data := d, node_flags := f\<rparr> = nd\<lparr>node_flags := f\<rparr>"
  by (cases nd) simp

lemma lut_overwrite_plain:
  assumes k: "lut_find_node bucket (node_id node) = Some k" and cur: "bucket ! k = current"
    and f: "plain_flags (node_flags node)" "plain_flags (node_flags current)"
  shows "lut_overwrite bucket node w =
    Some (bucket[k := current\<lparr>node_data := node_data node, node_flags := node_flags node\<rparr>],
          overwrite_world current (node_data node) (node_flags node) w)"
proof -
  have "bucket \<noteq> []" using k by auto
  then show ?thesis
    using k cur f by (simp add: lut_overwrite_def Let_def node_acquire_plain node_release_plain
        overwrite_world_def node_data_same)
qed

text \<open>In a table with distinct ids, updating the node found is updating by id everywhere.\<close>

lemma lut_update_everywhere:
  assumes inv: "lut_inv l" and nd: "nd \<in> set (lut_nodes l)"
    and k: "lut_find_node (lut_bucket l (node_hash nd)) (node_id nd) = Some k"
  shows "(lut_table l)[unat ((ucast (node_hash nd) :: U64) mod lut_size l) :=
      (lut_bucket l (node_hash nd))[k := nd\<lparr>node_data := d, node_flags := f\<rparr>]]
    = map (map (node_update (node_id nd) d f)) (lut_table l)"
    (is "?t[?b := ?bucket[k := ?nd]] = map (map ?f) ?t")
proof -
  have shape: "lut_shape l" using inv by (simp add: lut_inv_def)
  have b: "?b < length ?t" by (rule lut_bucket_bound [OF shape])
  have only: "x = nd" if "x \<in> set (lut_nodes l)" "node_id x = node_id nd" for x
    using lut_ids_distinct [OF inv that(1) nd that(2)] .
  have nth_in: "x \<in> set (lut_nodes l)" if "c < length ?t" "x \<in> set (?t ! c)" for c x
    using nth_mem [OF that(1)] that(2) by (auto simp: lut_nodes_def)
  have kb: "k < length ?bucket" "node_id (?bucket ! k) = node_id nd"
    using find_node_Some [OF k] by auto
  have at: "?bucket ! k = nd"
    by (rule only [OF nth_in [OF b]]) (use kb in \<open>auto simp: lut_bucket_def\<close>)
  show ?thesis
  proof (rule nth_equalityI)
    fix c
    assume "c < length (?t[?b := ?bucket[k := ?nd]])"
    then have c: "c < length ?t" by simp
    show "?t[?b := ?bucket[k := ?nd]] ! c = map (map ?f) ?t ! c"
    proof (cases "c = ?b")
      case False
      have "?f x = x" if "x \<in> set (?t ! c)" for x
      proof -
        have "x \<noteq> nd"
          using inv c that False by (auto simp: lut_inv_def lut_shape_def placed_def lut_ix_def)
        then show ?thesis
          using only [OF nth_in [OF c that]] by (auto simp: node_update_def)
      qed
      then show ?thesis
        using c False by (simp add: map_unchanged)
    next
      case True
      have dist: "distinct ?bucket"
      proof -
        have "distinct (lut_nodes l)"
          using inv by (simp add: lut_inv_def distinct_map)
        then show ?thesis
          using b by (simp add: lut_nodes_def lut_bucket_def distinct_concat_iff)
      qed
      have "?bucket[k := ?nd] = map ?f ?bucket"
      proof (rule nth_equalityI)
        fix j
        assume "j < length (?bucket[k := ?nd])"
        then have j: "j < length ?bucket" by simp
        have "?f (?bucket ! j) = ?bucket ! j" if "j \<noteq> k"
        proof -
          have "?bucket ! j \<noteq> nd"
            using that at dist kb(1) j by (metis nth_eq_iff_index_eq)
          moreover have "?bucket ! j \<in> set (lut_nodes l)"
            by (rule nth_in [OF b]) (use j in \<open>simp add: lut_bucket_def\<close>)
          ultimately show ?thesis
            using only by (auto simp: node_update_def)
        qed
        moreover have "?f nd = ?nd" by (simp add: node_update_def)
        ultimately show "?bucket[k := ?nd] ! j = map ?f ?bucket ! j"
          using j at by (cases "j = k") simp_all
      qed simp
      then show ?thesis
        using True b by (simp add: lut_bucket_def)
    qed
  qed simp
qed

lemma lut_insert_id_old:
  assumes inv: "lut_inv l" and room: "lut_room l" and plain: "lut_plain l"
    and f: "plain_flags f" "\<not> has_flag f LUT_FLAG_NOT_FOUND" "has_flag f LUT_FLAG_EXISTS"
    and nd: "nd \<in> set (lut_nodes l)"
  shows "\<exists>l'. lut_insert_id l w (node_key nd) d (node_id nd) f
      = Some (l', overwrite_world nd d f (plain_acquire f d w)) \<and> lut_inv l'
    \<and> mset (lut_nodes l') = image_mset (node_update (node_id nd) d f) (mset (lut_nodes l))"
proof -
  let ?f = "node_update (node_id nd) d f"
  let ?node = "\<lparr>node_id = node_id nd, node_key = node_key nd, node_data = d, node_flags = f\<rparr>"
  obtain g where g: "lut_grow l = Some g" "lut_inv g" and same: "same_entries l g"
    using lut_grow_entries [OF inv room] by blast
  have shape: "lut_shape g" using g by (simp add: lut_inv_def)
  have nd': "nd \<in> set (lut_nodes g)" using nd same_entries_set [OF same] by simp
  obtain k where k: "lut_find_node (lut_bucket g (node_hash nd)) (node_id nd) = Some k"
      "lut_bucket g (node_hash nd) ! k = nd"
    using lut_get_node [OF g(2) nd'] by blast
  define l' where "l' = g\<lparr>lut_table := map (map ?f) (lut_table g)\<rparr>"
  have "lut_overwrite (lut_bucket g (node_hash nd)) ?node w' =
      Some ((lut_bucket g (node_hash nd))[k := nd\<lparr>node_data := d, node_flags := f\<rparr>],
            overwrite_world nd d f w')" for w'
    using lut_overwrite_plain [of _ ?node, OF _ k(2)] k(1) f plain nd by (simp add: lut_plain_def)
  then have eq: "lut_insert_id l w (node_key nd) d (node_id nd) f
      = Some (l', overwrite_world nd d f (plain_acquire f d w))"
    using shape f lut_update_everywhere [OF g(2) nd' k(1)]
    by (simp add: lut_insert_id_grow g node_acquire_plain lut_get_bucket_shape l'_def
        flip: node_hash_def lut_bucket_def)
  have nodes: "lut_nodes l' = map ?f (lut_nodes g)"
    by (simp add: lut_nodes_def l'_def map_concat)
  have chain: "lut_chain l' h = map ?f (lut_chain g h)" for h
    by (simp add: lut_chain_def nodes filter_map comp_def)
  have "lut_shape l'"
    using shape by (auto simp: lut_shape_def placed_def l'_def)
  moreover have "numbered h (lut_chain l' h) \<longleftrightarrow> numbered h (lut_chain g h)" for h
    by (simp add: numbered_def chain comp_def)
  moreover have "lut_n l' = lut_n g" by (simp add: l'_def)
  ultimately have "lut_inv l'"
    using g(2) by (simp add: lut_inv_def nodes chain comp_def)
  moreover have "mset (lut_nodes l') = image_mset ?f (mset (lut_nodes l))"
    using same by (simp add: nodes same_entries_def)
  ultimately show ?thesis
    using eq by blast
qed

section \<open>The table as a map\<close>

text \<open>Flags a caller adds to those of \<open>lut_get_id\<close>.\<close>

definition caller_flags :: "U32 \<Rightarrow> bool" where
  "caller_flags f \<longleftrightarrow> plain_flags f \<and> \<not> has_flag f LUT_FLAG_NOT_FOUND \<and> \<not> has_flag f LUT_FLAG_EXISTS"

lemma has_flag_or: "has_flag (a OR b) c \<longleftrightarrow> has_flag a c \<or> has_flag b c"
  by (simp add: has_flag_def word_ao_dist or_eq_0_iff)

lemma status_flags [simp]:
  "has_flag LUT_FLAG_NOT_FOUND LUT_FLAG_NOT_FOUND" "\<not> has_flag LUT_FLAG_NOT_FOUND LUT_FLAG_EXISTS"
  "\<not> has_flag LUT_FLAG_NOT_FOUND LUT_FLAG_PYTHON" "\<not> has_flag LUT_FLAG_NOT_FOUND LUT_FLAG_REFERENCE"
  "has_flag LUT_FLAG_EXISTS LUT_FLAG_EXISTS" "\<not> has_flag LUT_FLAG_EXISTS LUT_FLAG_NOT_FOUND"
  "\<not> has_flag LUT_FLAG_EXISTS LUT_FLAG_PYTHON" "\<not> has_flag LUT_FLAG_EXISTS LUT_FLAG_REFERENCE"
  "has_flag LUT_FLAG_PYTHON LUT_FLAG_PYTHON" "\<not> has_flag LUT_FLAG_PYTHON LUT_FLAG_EXISTS"
  "\<not> has_flag LUT_FLAG_PYTHON LUT_FLAG_NOT_FOUND" "\<not> has_flag LUT_FLAG_PYTHON LUT_FLAG_REFERENCE"
  by (simp_all add: has_flag_def lut_consts)


lemma caller_flags_new:
  assumes "caller_flags f"
  shows "plain_flags (LUT_FLAG_NOT_FOUND OR f)" "has_flag (LUT_FLAG_NOT_FOUND OR f) LUT_FLAG_NOT_FOUND"
    "plain_acquire (LUT_FLAG_NOT_FOUND OR f) = plain_acquire f"
  using assms
  by (auto simp: caller_flags_def plain_flags_def has_flag_or plain_acquire_def fun_eq_iff)

lemma caller_flags_old:
  assumes "caller_flags f"
  shows "plain_flags (LUT_FLAG_EXISTS OR f)" "\<not> has_flag (LUT_FLAG_EXISTS OR f) LUT_FLAG_NOT_FOUND"
    "has_flag (LUT_FLAG_EXISTS OR f) LUT_FLAG_EXISTS"
    "plain_acquire (LUT_FLAG_EXISTS OR f) = plain_acquire f"
    "plain_release (LUT_FLAG_EXISTS OR f) = plain_release f"
  using assms
  by (auto simp: caller_flags_def plain_flags_def has_flag_or plain_acquire_def plain_release_def
      fun_eq_iff)

lemma lut_map_ext:
  assumes "lut_inv l'" and "\<And>k' i' d'. m k' = Some (i', d') \<longleftrightarrow>
    (\<exists>nd \<in> set (lut_nodes l'). node_key nd = k' \<and> node_id nd = i' \<and> node_data nd = d')"
  shows "lut_map l' = m"
proof
  fix k'
  have "lut_map l' k' = Some p \<longleftrightarrow> m k' = Some p" for p
    using assms(2) lut_map_Some [OF assms(1)] by (cases p) simp
  then show "lut_map l' k' = m k'"
    by (metis option.exhaust)
qed

text \<open>Inserting a new key.\<close>

lemma lut_insert_new:
  assumes inv: "lut_inv l" and room: "lut_room l" and plain: "lut_plain l" and f: "caller_flags f"
    and new: "lut_map l k = None"
  shows "\<exists>l'. lut_insert l w k d f = Some (l', plain_acquire f d w,
        lut_make_id (hash_str k) (word_of_nat (length (lut_chain l (hash_str k)))))
    \<and> lut_inv l' \<and> lut_plain l'
    \<and> mset (lut_nodes l') = add_mset
        \<lparr>node_id = lut_make_id (hash_str k) (word_of_nat (length (lut_chain l (hash_str k)))),
         node_key = k, node_data = d, node_flags = LUT_FLAG_NOT_FOUND OR f\<rparr> (mset (lut_nodes l))
    \<and> lut_map l' = (lut_map l)
        (k \<mapsto> (lut_make_id (hash_str k) (word_of_nat (length (lut_chain l (hash_str k)))), d))"
proof -
  let ?i = "lut_make_id (hash_str k) (word_of_nat (length (lut_chain l (hash_str k))))"
  let ?nd = "\<lparr>node_id = ?i, node_key = k, node_data = d, node_flags = LUT_FLAG_NOT_FOUND OR f\<rparr>"
  obtain l' where l': "lut_insert_id l w k d ?i (LUT_FLAG_NOT_FOUND OR f)
        = Some (l', plain_acquire f d w)" "lut_inv l'"
      "mset (lut_nodes l') = add_mset ?nd (mset (lut_nodes l))"
    using lut_insert_id_new [OF inv room caller_flags_new(1,2) [OF f] new refl, of w d]
      caller_flags_new(3) [OF f] by auto
  have set: "set (lut_nodes l') = insert ?nd (set (lut_nodes l))"
    using arg_cong [OF l'(3), of set_mset] by simp
  have "lut_map l' = (lut_map l)(k \<mapsto> (?i, d))"
    using new by (intro lut_map_ext [OF l'(2)]) (auto simp: set lut_map_None lut_map_Some [OF inv])
  moreover have "lut_plain l'"
    using plain caller_flags_new(1) [OF f] by (simp add: lut_plain_def set)
  ultimately show ?thesis
    using l' by (simp add: lut_insert_def lut_get_id_missing [OF inv new])
qed

text \<open>Inserting a known key.\<close>

lemma lut_insert_old:
  assumes inv: "lut_inv l" and room: "lut_room l" and plain: "lut_plain l" and f: "caller_flags f"
    and nd: "nd \<in> set (lut_nodes l)"
  shows "\<exists>l'. lut_insert l w (node_key nd) d f
      = Some (l', overwrite_world nd d (LUT_FLAG_EXISTS OR f) (plain_acquire f d w), node_id nd)
    \<and> lut_inv l' \<and> lut_plain l'
    \<and> mset (lut_nodes l')
        = image_mset (node_update (node_id nd) d (LUT_FLAG_EXISTS OR f)) (mset (lut_nodes l))
    \<and> lut_map l' = (lut_map l)(node_key nd \<mapsto> (node_id nd, d))"
proof -
  let ?g = "LUT_FLAG_EXISTS OR f"
  have old: "lut_map l (node_key nd) = Some (node_id nd, node_data nd)"
    using nd by (auto simp: lut_map_Some [OF inv])
  obtain l' where l': "lut_insert_id l w (node_key nd) d (node_id nd) ?g
        = Some (l', overwrite_world nd d ?g (plain_acquire f d w))" "lut_inv l'"
      "mset (lut_nodes l') = image_mset (node_update (node_id nd) d ?g) (mset (lut_nodes l))"
    using lut_insert_id_old [OF inv room plain caller_flags_old(1-3) [OF f] nd, of w d]
      caller_flags_old(4) [OF f] by auto
  have set: "set (lut_nodes l') = node_update (node_id nd) d ?g ` set (lut_nodes l)"
    using arg_cong [OF l'(3), of set_mset] by simp
  have same_key: "node_key x = node_key nd \<longleftrightarrow> node_id x = node_id nd" if "x \<in> set (lut_nodes l)" for x
    using that nd inv lut_ids_distinct [OF inv that nd]
    by (auto simp: lut_inv_def distinct_map dest: inj_onD)
  have "lut_map l' = (lut_map l)(node_key nd \<mapsto> (node_id nd, d))"
  proof (rule lut_map_ext [OF l'(2)])
    fix k' i' d'
    have upd: "node_data (node_update (node_id nd) d ?g x) = (if node_id x = node_id nd then d else node_data x)"
      for x by (simp add: node_update_def)
    have right: "(\<exists>x \<in> set (lut_nodes l'). node_key x = k' \<and> node_id x = i' \<and> node_data x = d') \<longleftrightarrow>
      (\<exists>x \<in> set (lut_nodes l). node_key x = k' \<and> node_id x = i'
         \<and> (if node_id x = node_id nd then d else node_data x) = d')"
      by (simp add: set upd)
    show "((lut_map l)(node_key nd \<mapsto> (node_id nd, d))) k' = Some (i', d') \<longleftrightarrow>
      (\<exists>x \<in> set (lut_nodes l'). node_key x = k' \<and> node_id x = i' \<and> node_data x = d')"
    proof (cases "k' = node_key nd")
      case True
      then show ?thesis
        unfolding right using same_key nd by auto
    next
      case False
      then have "node_id x \<noteq> node_id nd" if "x \<in> set (lut_nodes l)" "node_key x = k'" for x
        using same_key that by auto
      then show ?thesis
        unfolding right using False lut_map_Some [OF inv, of k' i' d'] by auto
    qed
  qed
  moreover have "lut_plain l'"
    using plain caller_flags_old(1) [OF f] by (auto simp: lut_plain_def set node_update_def)
  ultimately show ?thesis
    using l' by (simp add: lut_insert_def lut_get_id_found [OF inv old])
qed


lemma lut_nodes_new: "lut_nodes (lut_new m) = []"
  by (simp add: lut_nodes_def lut_new_def)

lemma lut_new_inv: "m \<noteq> 0 \<Longrightarrow> lut_inv (lut_new m)"
  by (simp add: lut_inv_def lut_shape_def lut_chain_def lut_nodes_new numbered_def)
    (simp add: lut_new_def)

lemma lut_new_room: "unat m < 2 ^ 62 \<Longrightarrow> lut_room (lut_new m)"
  by (simp add: lut_room_def lut_chain_def lut_nodes_new) (simp add: lut_new_def)

lemma lut_new_plain: "lut_plain (lut_new m)"
  by (simp add: lut_plain_def lut_nodes_new)

lemma lut_new_map: "lut_map (lut_new m) = Map.empty"
  by (simp add: lut_map_def lut_nodes_new)

lemma lut_new4: "lut_inv (lut_new 4)" "lut_room (lut_new 4)" "lut_plain (lut_new 4)"
  by (simp_all add: lut_new_inv lut_new_room lut_new_plain)

lemma lut_insert_map:
  assumes "lut_inv l" "lut_room l" "lut_plain l" "caller_flags f"
  shows "\<exists>l' w' i. lut_insert l w k d f = Some (l', w', i) \<and> lut_inv l' \<and> lut_plain l'
    \<and> lut_map l' = (lut_map l)(k \<mapsto> (i, d)) \<and> map_option fst (lut_map l k) \<in> {None, Some i}"
proof (cases "lut_map l k")
  case None
  obtain l' where "lut_insert l w k d f = Some (l', plain_acquire f d w,
        lut_make_id (hash_str k) (word_of_nat (length (lut_chain l (hash_str k)))))"
      "lut_inv l'" "lut_plain l'" "lut_map l' = (lut_map l)
        (k \<mapsto> (lut_make_id (hash_str k) (word_of_nat (length (lut_chain l (hash_str k)))), d))"
    using lut_insert_new [OF assms None, of w d] by blast
  then show ?thesis using None by simp
next
  case (Some p)
  then obtain nd where nd: "nd \<in> set (lut_nodes l)" "node_key nd = k" "p = (node_id nd, node_data nd)"
    using lut_map_Some [OF assms(1)] by (cases p) auto
  obtain l' where "lut_insert l w k d f
        = Some (l', overwrite_world nd d (LUT_FLAG_EXISTS OR f) (plain_acquire f d w), node_id nd)"
      "lut_inv l'" "lut_plain l'" "lut_map l' = (lut_map l)(k \<mapsto> (node_id nd, d))"
    using lut_insert_old [OF assms nd(1), of w d] unfolding nd(2) by blast
  then show ?thesis using Some nd(3) by simp
qed

text \<open>C3. \<open>lut_insert\<close> succeeds and implements the update of a map from keys to ids and data: the
  table keeps its invariant, the key is bound to the returned id and the data, every other key
  keeps its id and data, and a key that was in the table keeps its id, also when the insertion
  reallocates the table.\<close>

theorem lut_insert_refines_map:
  assumes "lut_inv l" "lut_room l" "lut_plain l" "caller_flags f"
  shows "\<exists>l' w' i. lut_insert l w k d f = Some (l', w', i) \<and> lut_inv l' \<and> lut_plain l'
    \<and> lut_map l' = (lut_map l)(k \<mapsto> (i, d)) \<and> map_option fst (lut_map l k) \<in> {None, Some i}"
  by (rule lut_insert_map [OF assms])

lemma caller_python: "caller_flags LUT_FLAG_PYTHON"
  by (simp add: caller_flags_def plain_flags_def)

definition no_world :: world where
  "no_world = \<lparr>objs = Map.empty, destroyed = [], py_calls = []\<rparr>"

lemma lut_insert_refines_map_witness:
  "\<exists>l' w' i. lut_insert (lut_new 4) no_world ''sys-devel/gcc'' 64 LUT_FLAG_PYTHON = Some (l', w', i)
    \<and> lut_map l' = [''sys-devel/gcc'' \<mapsto> (i, 64)]"
  using lut_insert_refines_map [OF lut_new4 caller_python, of no_world "''sys-devel/gcc''" 64]
  by (auto simp: lut_new_map)

text \<open>C10. Reallocating a table to any size but 0 passes the assert of the code and keeps all
  of its content: the same keys with the same ids and data, all reachable, and so every id
  handed out before stays valid.\<close>

theorem lut_realloc_preserves:
  assumes "lut_inv l" and "m \<noteq> 0"
  shows "\<exists>l'. lut_realloc l m = Some l' \<and> lut_inv l' \<and> lut_size l' = m \<and> lut_n l' = lut_n l
    \<and> lut_map l' = lut_map l \<and> (\<forall>i. lut_get l' i = lut_get l i \<and> lut_get_key l' i = lut_get_key l i)
    \<and> (\<forall>k. lut_get_id l' k = lut_get_id l k)"
proof -
  obtain l' where l': "lut_realloc l m = Some l'" "lut_inv l'" "same_entries l l'" "lut_size l' = m"
    using lut_realloc_entries [OF assms] by blast
  have map: "lut_map l' = lut_map l"
    by (rule same_entries_map [OF assms(1) l'(2,3)])
  have "lut_get l' i = lut_get l i \<and> lut_get_key l' i = lut_get_key l i" for i
  proof (cases "\<exists>k d. lut_map l k = Some (i, d)")
    case True
    then obtain k d where "lut_map l k = Some (i, d)" by blast
    then show ?thesis
      using lut_get_Some [OF assms(1)] lut_get_Some [OF l'(2)] map by simp
  next
    case False
    then show ?thesis
      using lut_get_unknown [OF assms(1), of i] lut_get_unknown [OF l'(2), of i] map by simp
  qed
  moreover have "lut_get_id l' k = lut_get_id l k" for k
  proof (cases "lut_map l k")
    case None
    then show ?thesis
      using l'(3) map lut_get_id_missing [OF assms(1), of k] lut_get_id_missing [OF l'(2), of k]
      by (simp add: same_entries_def)
  next
    case (Some p)
    then show ?thesis
      using map lut_get_id_found [OF assms(1), of k] lut_get_id_found [OF l'(2), of k] by (cases p) simp
  qed
  ultimately show ?thesis
    using l' map by (auto simp: same_entries_def)
qed

lemma lut_realloc_preserves_witness:
  "\<exists>l'. lut_realloc (lut_new 4) 16 = Some l' \<and> lut_size l' = 16 \<and> lut_map l' = Map.empty"
  using lut_realloc_preserves [OF lut_new_inv, of 4 16] by (auto simp: lut_new_map)


section \<open>Tables of ids as an interface\<close>

text \<open>
  What the atoms, packages and use flags rely on: a table that binds keys to ids and data and
  whose lookups read the binding. The lemmas say that ids identify their keys and that an
  insertion can be read back and disturbs no other id.
\<close>

locale id_table =
  fixes insert :: "'t \<Rightarrow> 'w \<Rightarrow> 'k \<Rightarrow> 'd \<Rightarrow> 'f \<Rightarrow> ('t \<times> 'w \<times> 'i) option"
    and get_id :: "'t \<Rightarrow> 'k \<Rightarrow> 'i option"
    and get :: "'t \<Rightarrow> 'i \<Rightarrow> 'd option"
    and get_key :: "'t \<Rightarrow> 'i \<Rightarrow> 'k option"
    and bindings :: "'t \<Rightarrow> 'k \<rightharpoonup> 'i \<times> 'd"
    and inv :: "'t \<Rightarrow> bool"
    and ready :: "'t \<Rightarrow> 'f \<Rightarrow> bool"
  assumes insert_binds: "inv t \<Longrightarrow> ready t f \<Longrightarrow> \<exists>t' w' i. insert t w k d f = Some (t', w', i) \<and> inv t'
      \<and> bindings t' = (bindings t)(k \<mapsto> (i, d)) \<and> map_option fst (bindings t k) \<in> {None, Some i}"
    and get_bound: "inv t \<Longrightarrow> bindings t k = Some (i, d) \<Longrightarrow> get t i = Some d"
    and get_key_bound: "inv t \<Longrightarrow> bindings t k = Some (i, d) \<Longrightarrow> get_key t i = Some k"
    and get_id_iff: "inv t \<Longrightarrow> get_id t k = Some i \<longleftrightarrow> (\<exists>d. bindings t k = Some (i, d))"
begin

lemma unique_id:
  "inv t \<Longrightarrow> bindings t k = Some (i, d) \<Longrightarrow> bindings t k2 = Some (i, d2) \<Longrightarrow> k = k2"
  using get_key_bound [of t k i d] get_key_bound [of t k2 i d2] by simp

lemma get_by_key: "inv t \<Longrightarrow> get_id t k = Some i \<Longrightarrow> get t i = Some d \<Longrightarrow> bindings t k = Some (i, d)"
  using get_id_iff get_bound by fastforce

lemma insert_then_read:
  assumes "inv t" "ready t f"
  shows "\<exists>t' w' i. insert t w k d f = Some (t', w', i)
    \<and> get t' i = Some d \<and> get_key t' i = Some k \<and> get_id t' k = Some i
    \<and> (\<forall>k2 i2 d2. k2 \<noteq> k \<and> get_id t k2 = Some i2 \<and> get t i2 = Some d2
        \<longrightarrow> i2 \<noteq> i \<and> get t' i2 = Some d2 \<and> get_key t' i2 = Some k2)"
proof -
  obtain t' w' i where t': "insert t w k d f = Some (t', w', i)" "inv t'"
      "bindings t' = (bindings t)(k \<mapsto> (i, d))"
    using insert_binds [OF assms, of w k d] by blast
  have "i2 \<noteq> i \<and> get t' i2 = Some d2 \<and> get_key t' i2 = Some k2"
    if "k2 \<noteq> k" "get_id t k2 = Some i2" "get t i2 = Some d2" for k2 i2 d2
  proof -
    have b: "bindings t' k2 = Some (i2, d2)" "bindings t' k = Some (i, d)"
      using get_by_key [OF assms(1) that(2,3)] t'(3) that(1) by simp_all
    have "i2 \<noteq> i"
      using unique_id [OF t'(2), of k2 i2 d2 k d] b that(1) by blast
    then show ?thesis
      using get_bound [OF t'(2) b(1)] get_key_bound [OF t'(2) b(1)] by blast
  qed
  moreover have "bindings t' k = Some (i, d)"
    using t'(3) by simp
  ultimately show ?thesis
    using t'(1) get_bound [OF t'(2)] get_key_bound [OF t'(2)] get_id_iff [OF t'(2)] by blast
qed

end

text \<open>The id of a key that \<open>lut_get_id\<close> finds in the table, and the key of an id.\<close>

definition lut_known_id :: "LUT \<Rightarrow> string \<Rightarrow> U64 option" where
  "lut_known_id l k = (case lut_get_id l k of
     Some (i, flag) \<Rightarrow> if flag = LUT_FLAG_EXISTS then Some i else None
   | None \<Rightarrow> None)"

definition lut_known_key :: "LUT \<Rightarrow> U64 \<Rightarrow> string option" where
  "lut_known_key l i = Option.bind (lut_get_key l i) (\<lambda>k. k)"

definition lut_ready :: "LUT \<Rightarrow> U32 \<Rightarrow> bool" where
  "lut_ready l f \<longleftrightarrow> lut_room l \<and> lut_plain l \<and> caller_flags f"

lemma lut_known_id_iff:
  assumes "lut_inv l"
  shows "lut_known_id l k = Some i \<longleftrightarrow> (\<exists>d. lut_map l k = Some (i, d))"
proof (cases "lut_map l k")
  case None
  then show ?thesis
    by (simp add: lut_known_id_def lut_get_id_missing [OF assms None] lut_consts)
next
  case (Some p)
  then show ?thesis
    using lut_get_id_found [OF assms, of k] by (cases p) (simp add: lut_known_id_def)
qed

interpretation lut_ids: id_table lut_insert lut_known_id lut_get lut_known_key lut_map lut_inv lut_ready
proof
  fix l f w k d
  assume "lut_inv l" "lut_ready l f"
  then show "\<exists>l' w' i. lut_insert l w k d f = Some (l', w', i) \<and> lut_inv l'
      \<and> lut_map l' = (lut_map l)(k \<mapsto> (i, d)) \<and> map_option fst (lut_map l k) \<in> {None, Some i}"
    using lut_insert_map [of l f] unfolding lut_ready_def by blast
qed (use lut_get_Some in \<open>simp_all add: lut_known_key_def lut_known_id_iff\<close>)

section \<open>Reading back what was inserted\<close>

text \<open>C15. After \<open>lut_insert\<close> the returned id reads back the data and the key, the key reads back
  the id, and every id of another key still reads the data and the key it had before.\<close>

theorem lut_insert_roundtrip:
  assumes "lut_inv l" "lut_room l" "lut_plain l" "caller_flags f"
  shows "\<exists>l' w' i. lut_insert l w k d f = Some (l', w', i)
    \<and> lut_get l' i = Some d \<and> lut_known_key l' i = Some k \<and> lut_known_id l' k = Some i
    \<and> (\<forall>k2 i2 d2. k2 \<noteq> k \<and> lut_known_id l k2 = Some i2 \<and> lut_get l i2 = Some d2
        \<longrightarrow> i2 \<noteq> i \<and> lut_get l' i2 = Some d2 \<and> lut_known_key l' i2 = Some k2)"
  using assms by (intro lut_ids.insert_then_read) (simp_all add: lut_ready_def)

lemma lut_insert_roundtrip_witness:
  "\<exists>l' w' i. lut_insert (lut_new 4) no_world ''sys-devel/gcc'' 64 LUT_FLAG_PYTHON = Some (l', w', i)
    \<and> lut_get l' i = Some 64"
  using lut_insert_roundtrip [OF lut_new4 caller_python, of no_world "''sys-devel/gcc''" 64] by blast

section \<open>References on Python objects\<close>

text \<open>A table all of whose entries hold a reference on a Python object, and how many of them
  hold one on a given object.\<close>

definition lut_python :: "LUT \<Rightarrow> bool" where
  "lut_python l \<longleftrightarrow> (\<forall>nd \<in> set (lut_nodes l). has_flag (node_flags nd) LUT_FLAG_PYTHON)"

definition lut_held :: "LUT \<Rightarrow> U64 \<Rightarrow> nat" where
  "lut_held l x = count (image_mset node_data (mset (lut_nodes l))) x"

lemma lut_python_plain: "lut_python l \<Longrightarrow> lut_plain l"
  by (simp add: lut_python_def lut_plain_def plain_flags_def)

lemma lut_node_free_balance:
  "\<forall>nd \<in> set nds. has_flag (node_flags nd) LUT_FLAG_PYTHON \<Longrightarrow>
   \<exists>w'. lut_node_free nds w = Some w'
     \<and> (\<forall>x. py_balance w' x = py_balance w x - int (count (image_mset node_data (mset nds)) x))"
  by (induction nds) (auto simp: node_release_def)

lemma lut_free_buckets_balance:
  "\<forall>nd \<in> set (concat t). has_flag (node_flags nd) LUT_FLAG_PYTHON \<Longrightarrow>
   \<exists>w'. lut_free_buckets t w = Some w'
     \<and> (\<forall>x. py_balance w' x = py_balance w x - int (count (image_mset node_data (mset (concat t))) x))"
proof (induction t arbitrary: w)
  case Nil
  then show ?case by simp
next
  case (Cons b t)
  obtain w1 where w1: "lut_node_free b w = Some w1"
      "\<And>x. py_balance w1 x = py_balance w x - int (count (image_mset node_data (mset b)) x)"
    using lut_node_free_balance [of b w] Cons.prems by auto
  obtain w2 where "lut_free_buckets t w1 = Some w2"
      "\<And>x. py_balance w2 x = py_balance w1 x - int (count (image_mset node_data (mset (concat t))) x)"
    using Cons.IH [of w1] Cons.prems by auto
  then show ?case
    using w1 by (simp del: mset_concat)
qed

lemma lut_free_balance:
  assumes "lut_python l" and "unat (lut_size l) \<le> 2 ^ 32"
  shows "\<exists>w'. lut_free l w = Some w' \<and> (\<forall>x. py_balance w' x = py_balance w x - int (lut_held l x))"
  using assms lut_free_buckets_balance [of "lut_table l" w]
  by (simp add: lut_free_def lut_python_def lut_held_def lut_nodes_def del: mset_concat)

lemma image_mset_update1:
  assumes "distinct xs" "nd \<in> set xs" "\<forall>x \<in> set xs. x \<noteq> nd \<longrightarrow> f x = x"
  shows "image_mset f (mset xs) = add_mset (f nd) (mset xs - {#nd#})"
proof -
  obtain ys zs where xs: "xs = ys @ nd # zs"
    using assms(2) by (auto simp: in_set_conv_decomp)
  then have "map f ys = ys" "map f zs = zs"
    using assms(1,3) by (auto intro!: map_idI)
  then show ?thesis
    unfolding xs by (metis add_mset_remove_trivial list.simps(9) map_append mset.simps(2) mset_append
        mset_map union_mset_add_mset_right)
qed

text \<open>Overwriting the data of a node moves one reference from the old data to the new.\<close>

lemma lut_held_overwrite:
  assumes inv: "lut_inv l" and nd: "nd \<in> set (lut_nodes l)"
    and m: "mset (lut_nodes l') = image_mset (node_update (node_id nd) d f) (mset (lut_nodes l))"
  shows "int (lut_held l' x) = int (lut_held l x)
    + (if x = d then 1 else 0) - (if x = node_data nd then 1 else 0)"
proof -
  have "node_update (node_id nd) d f y = y" if "y \<in> set (lut_nodes l)" "y \<noteq> nd" for y
    using lut_ids_distinct [OF inv that(1) nd] that(2) by (auto simp: node_update_def)
  then have "mset (lut_nodes l') = add_mset (node_update (node_id nd) d f nd) (mset (lut_nodes l) - {#nd#})"
    unfolding m using inv nd by (intro image_mset_update1) (auto simp: lut_inv_def distinct_map)
  moreover obtain N where "mset (lut_nodes l) = add_mset nd N"
    using nd by (metis mset_add set_mset_mset)
  ultimately show ?thesis
    by (simp add: lut_held_def node_update_def)
qed



section \<open>Ids of keys that are not in the table\<close>

text \<open>The id of a key that is not in the table is only a guess: two different keys with one
  hash get the same id while neither is in the table, and once one of them is inserted the id
  that was handed out for the other reads the data of the first. This is the situation of two
  atoms whose packages are not loaded yet.\<close>

theorem lut_stale_id:
  assumes inv: "lut_inv l" and room: "lut_room l" and plain: "lut_plain l" and f: "caller_flags f"
    and k: "lut_map l k = None" "lut_map l k2 = None" "hash_str k = hash_str k2"
  shows "\<exists>i l' w'. lut_get_id l k = Some (i, LUT_FLAG_NOT_FOUND)
    \<and> lut_get_id l k2 = Some (i, LUT_FLAG_NOT_FOUND)
    \<and> lut_insert l w k d f = Some (l', w', i) \<and> lut_get l' i = Some d
    \<and> lut_get_key l' i = Some (Some k)"
proof -
  let ?i = "lut_make_id (hash_str k) (word_of_nat (length (lut_chain l (hash_str k))))"
  obtain l' w' where l': "lut_insert l w k d f = Some (l', w', ?i)" "lut_inv l'"
      "lut_map l' = (lut_map l)(k \<mapsto> (?i, d))"
    using lut_insert_new [OF inv room plain f k(1), of w d] by blast
  then show ?thesis
    using lut_get_Some [OF l'(2), of k ?i d] lut_get_id_missing [OF inv k(1)]
      lut_get_id_missing [OF inv k(2)] k(3) by auto
qed

lemma collision: "hash_str ''a/ijls'' = hash_str ''a/cmzq''"
  by (simp add: c_eval Let_def upt_conv_Cons)

lemma lut_stale_id_witness:
  "\<exists>i l' w'. lut_get_id (lut_new 4) ''a/cmzq'' = Some (i, LUT_FLAG_NOT_FOUND)
    \<and> lut_insert (lut_new 4) no_world ''a/ijls'' 64 LUT_FLAG_PYTHON = Some (l', w', i)
    \<and> lut_get l' i = Some 64"
  using lut_stale_id [OF lut_new4 caller_python _ _ collision, of no_world 64]
  by (auto simp: lut_new_map)

end
