(* ===== verification/Atom.thy ===== *)
theory Atom
  imports Lut Version
begin

text \<open>
  Atoms of autogentoo/cportage/atom.c: an atom selects packages by category, name, version range,
  slot and use flags. \<open>atom_init\<close> takes an atom string apart and asks the table of packages for the
  id of its key; the Python operators print, hash and compare atoms. The lemmas show that
  nothing of the string is lost, that a version is recognised whatever the name looks like, when
  the code runs into a NULL pointer, and how equality and hash of atoms disagree.
\<close>

section \<open>The data of an atom\<close>

datatype atom_use =
  ATOM_USE_DISABLE | ATOM_USE_ENABLE | ATOM_USE_ENABLE_IF_ON | ATOM_USE_DISABLE_IF_OFF
| ATOM_USE_EQUAL | ATOM_USE_OPPOSITE

datatype atom_use_default = ATOM_DEFAULT_NONE | ATOM_DEFAULT_ON | ATOM_DEFAULT_OFF

datatype atom_block = ATOM_BLOCK_NONE | ATOM_BLOCK_SOFT | ATOM_BLOCK_HARD

datatype atom_slot = ATOM_SLOT_IGNORE | ATOM_SLOT_REBUILD

fun block_val :: "atom_block \<Rightarrow> U32" where
  "block_val ATOM_BLOCK_NONE = 0"
| "block_val ATOM_BLOCK_SOFT = 1"
| "block_val ATOM_BLOCK_HARD = 2"

fun slot_val :: "atom_slot \<Rightarrow> U32" where
  "slot_val ATOM_SLOT_IGNORE = 0"
| "slot_val ATOM_SLOT_REBUILD = 1"

text \<open>Version ranges are bit masks.\<close>

definition ATOM_VERSION_NONE :: U32 where "ATOM_VERSION_NONE = 0"
definition ATOM_VERSION_E :: U32 where "ATOM_VERSION_E = 1"
definition ATOM_VERSION_L :: U32 where "ATOM_VERSION_L = 2"
definition ATOM_VERSION_G :: U32 where "ATOM_VERSION_G = 4"
definition ATOM_VERSION_REV :: U32 where "ATOM_VERSION_REV = ATOM_VERSION_E OR 8"
definition ATOM_VERSION_ALL :: U32 where
  "ATOM_VERSION_ALL = ATOM_VERSION_E OR ATOM_VERSION_L OR ATOM_VERSION_G"
definition ATOM_VERSION_GE :: U32 where "ATOM_VERSION_GE = ATOM_VERSION_E OR ATOM_VERSION_G"
definition ATOM_VERSION_LE :: U32 where "ATOM_VERSION_LE = ATOM_VERSION_L OR ATOM_VERSION_E"

lemmas range_consts [c_eval] = ATOM_VERSION_NONE_def ATOM_VERSION_E_def ATOM_VERSION_L_def
  ATOM_VERSION_G_def ATOM_VERSION_REV_def ATOM_VERSION_ALL_def ATOM_VERSION_GE_def
  ATOM_VERSION_LE_def

text \<open>A chain of use flags is a list.\<close>

record AtomFlag =
  flag_name :: "string option"
  flag_option :: atom_use
  flag_def :: atom_use_default

record Atom =
  atom_id :: U64
  atom_id_flag :: U32
  atom_cached_hash :: int
  atom_category :: "string option"
  atom_name :: "string option"
  atom_key :: "string option"
  atom_repository :: "string option"
  atom_slot :: "string option"
  atom_sub_slot :: "string option"
  atom_slot_opts :: atom_slot
  atom_range :: U32
  atom_blocks :: atom_block
  atom_version :: "AtomVersion list"
  atom_useflags :: "AtomFlag list"

text \<open>The type's allocator returns zeroed memory.\<close>

definition PyAtom_new :: Atom where
  "PyAtom_new =
     \<lparr>atom_id = 0, atom_id_flag = 0, atom_cached_hash = 0, atom_category = None, atom_name = None,
      atom_key = None, atom_repository = None, atom_slot = None, atom_sub_slot = None,
      atom_slot_opts = ATOM_SLOT_IGNORE, atom_range = 0, atom_blocks = ATOM_BLOCK_NONE,
      atom_version = [], atom_useflags = []\<rparr>"

section \<open>Use flags of an atom\<close>

definition PyAtomFlag_new :: AtomFlag where
  "PyAtomFlag_new = \<lparr>flag_name = None, flag_option = ATOM_USE_DISABLE, flag_def = ATOM_DEFAULT_NONE\<rparr>"

text \<open>The chain behind the flag is cut.\<close>

definition atomflag_init :: "AtomFlag \<Rightarrow> string \<Rightarrow> AtomFlag" where
  "atomflag_init self name =
     (let (opt, name) = (if char_at name 0 = Some CHR ''-'' then (ATOM_USE_DISABLE, drop 1 name)
                         else (ATOM_USE_ENABLE, name))
      in self\<lparr>flag_option := opt, flag_name := Some name, flag_def := ATOM_DEFAULT_NONE\<rparr>)"

definition atomflag_build :: "string \<Rightarrow> AtomFlag" where
  "atomflag_build name = atomflag_init PyAtomFlag_new name"

fun atomflag_marks :: "atom_use \<Rightarrow> string \<times> string" where
  "atomflag_marks ATOM_USE_DISABLE = (''-'', [])"
| "atomflag_marks ATOM_USE_ENABLE = ([], [])"
| "atomflag_marks ATOM_USE_ENABLE_IF_ON = ([], ''?'')"
| "atomflag_marks ATOM_USE_DISABLE_IF_OFF = (''!'', ''?'')"
| "atomflag_marks ATOM_USE_EQUAL = ([], ''='')"
| "atomflag_marks ATOM_USE_OPPOSITE = (''!'', ''='')"

definition PyAtomFlag_repr :: "AtomFlag \<Rightarrow> string option" where
  "PyAtomFlag_repr self =
     (let (prefix, suffix) = atomflag_marks (flag_option self)
      in map_option (\<lambda>name. ''AtomFlag<'' @ prefix @ name @ suffix @ ''>'') (flag_name self))"

text \<open>The iterator is the rest of the chain still to be returned.\<close>

definition PyAtomFlag_iter :: "AtomFlag list \<Rightarrow> AtomFlag list" where
  "PyAtomFlag_iter self = self"

fun PyAtomFlag_next :: "AtomFlag list \<Rightarrow> (AtomFlag \<times> AtomFlag list) option" where
  "PyAtomFlag_next (out # next) = Some (out, next)"
| "PyAtomFlag_next [] = None"

section \<open>Hashing\<close>

definition PyATOM_STRING_HASH :: "string option \<Rightarrow> U64" where
  "PyATOM_STRING_HASH str = (case str of None \<Rightarrow> 0 | Some s \<Rightarrow> ucast (hash_str s))"

fun flags_hash :: "U64 \<Rightarrow> AtomFlag list \<Rightarrow> U64 option" where
  "flags_hash flag_hash [] = Some flag_hash"
| "flags_hash flag_hash (flag # next) =
     do { name \<leftarrow> flag_name flag; flags_hash (flag_hash + ucast (hash_str name)) next }"

text \<open>The struct the hash is taken of, byte by byte.\<close>

definition atom_hash_data :: "Atom \<Rightarrow> U64 \<Rightarrow> U64 \<Rightarrow> U8 list" where
  "atom_hash_data self version_hash flag_hash =
     le_bytes 8 (atom_id self) @ le_bytes 8 version_hash
       @ le_bytes 8 (PyATOM_STRING_HASH (atom_repository self))
       @ le_bytes 8 (PyATOM_STRING_HASH (atom_slot self))
       @ le_bytes 8 (PyATOM_STRING_HASH (atom_sub_slot self))
       @ le_bytes 8 flag_hash
       @ le_bytes 4 (slot_val (atom_slot_opts self))
       @ le_bytes 4 (atom_range self)
       @ le_bytes 4 (block_val (atom_blocks self))"

text \<open>A version without \<open>full_version\<close> is a NULL pointer for \<open>strlen\<close>.\<close>

definition version_hash :: "AtomVersion list \<Rightarrow> U64 option" where
  "version_hash v =
     (case v of [] \<Rightarrow> Some 0 | node # _ \<Rightarrow> map_option (\<lambda>s. ucast (hash_str s)) (full_version node))"

definition PyAtom_hash :: "Atom \<Rightarrow> int option" where
  "PyAtom_hash self =
     (if atom_cached_hash self \<noteq> - 1 then Some (atom_cached_hash self)
      else do { flag_hash \<leftarrow> flags_hash 0 (atom_useflags self);
                version_hash \<leftarrow> version_hash (atom_version self);
                Some (uint (map_get_hash (atom_hash_data self version_hash flag_hash) 60)) })"

section \<open>Taking an atom string apart\<close>

definition digit_at :: "string \<Rightarrow> nat \<Rightarrow> bool" where
  "digit_at s i = (case char_at s i of None \<Rightarrow> False | Some c \<Rightarrow> is_digit c)"

text \<open>Where the version of a name starts: the index of its dash.\<close>

definition find_version :: "string \<Rightarrow> nat option" where
  "find_version name_ident =
     (case strrchr name_ident CHR ''-'' of
        None \<Rightarrow> None
      | Some last_dash \<Rightarrow>
          if char_at name_ident (last_dash + 1) = Some CHR ''r'' \<and> digit_at name_ident (last_dash + 2)
          then (case strrchr (take last_dash name_ident) CHR ''-'' of
                  None \<Rightarrow> None
                | Some second_dash \<Rightarrow>
                    if digit_at (take last_dash name_ident) (second_dash + 1) then Some second_dash
                    else None)
          else if digit_at name_ident (last_dash + 1) then Some last_dash
          else None)"

text \<open>The table of packages of \<open>global_portage\<close> is None before the program initialises it. The
  result is the return code and the atom.\<close>

definition atom_init :: "LUT option \<Rightarrow> Atom \<Rightarrow> string \<Rightarrow> (int \<times> Atom) option" where
  "atom_init global_packages self input =
     (case global_packages of
        None \<Rightarrow> Some (1, self)
      | Some packages \<Rightarrow>
          let self = self\<lparr>atom_version := [], atom_useflags := [], atom_slot := None,
                          atom_sub_slot := None, atom_slot_opts := ATOM_SLOT_IGNORE,
                          atom_range := ATOM_VERSION_ALL, atom_blocks := ATOM_BLOCK_NONE,
                          atom_cached_hash := - 1\<rparr>
          in case strchr input CHR ''/'' of
               None \<Rightarrow> Some (1, self)
             | Some cat_splt \<Rightarrow>
                 let category = take cat_splt input;
                     name_ident = drop (cat_splt + 1) input;
                     (version, name) =
                       (case find_version name_ident of
                          None \<Rightarrow> ([], name_ident)
                        | Some ver_splt \<Rightarrow>
                            (parse_version (drop (ver_splt + 1) name_ident), take ver_splt name_ident));
                     key = category @ ''/'' @ name
                 in do {
                   (i, flag) \<leftarrow> lut_get_id packages key;
                   let self = self\<lparr>atom_version := version, atom_category := Some category,
                                   atom_name := Some name, atom_repository := None,
                                   atom_key := Some key, atom_id := i, atom_id_flag := flag\<rparr>;
                   hash \<leftarrow> PyAtom_hash self;
                   Some (0, self\<lparr>atom_cached_hash := hash\<rparr>) })"

text \<open>The command line passes the bare name on, not the one it has put \<open>SEARCH/\<close> in front of.\<close>

definition cmdline_atom_new :: "LUT option \<Rightarrow> string \<Rightarrow> Atom option option" where
  "cmdline_atom_new global_packages name =
     do { (r, out) \<leftarrow> atom_init global_packages PyAtom_new name;
          Some (if r \<noteq> 0 then None else Some out) }"

section \<open>Printing and comparing\<close>

text \<open>The sign for an exact version is stored behind the terminator of the prefix.\<close>

definition atom_prefix :: "U32 \<Rightarrow> string" where
  "atom_prefix rng =
     (if rng = ATOM_VERSION_ALL then []
      else if has_flag rng ATOM_VERSION_G then ''>''
      else if has_flag rng ATOM_VERSION_L then ''<''
      else [])"

definition PyAtom_repr :: "Atom \<Rightarrow> string option" where
  "PyAtom_repr self =
     do { category \<leftarrow> atom_category self;
          name \<leftarrow> atom_name self;
          case atom_version self of
            [] \<Rightarrow> Some (atom_prefix (atom_range self) @ category @ ''/'' @ name)
          | node # _ \<Rightarrow>
              do { v \<leftarrow> full_version node;
                   Some (atom_prefix (atom_range self) @ category @ ''/'' @ name @ ''-'' @ v) } }"

definition PyAtom_richcompare :: "Atom \<Rightarrow> Atom \<Rightarrow> py_op \<Rightarrow> bool option" where
  "PyAtom_richcompare self other op' =
     do { a \<leftarrow> atom_key self; b \<leftarrow> atom_key other;
          Some (Py_RETURN_RICHCOMPARE (strcmp a b) 0 op') }"

section \<open>Nothing of the string is lost\<close>

lemma strchr_Some: "strchr s c = Some i \<Longrightarrow> i < length s \<and> s ! i = c \<and> c \<notin> set (take i s)"
  by (induction s arbitrary: i) (auto split: if_splits)

lemma strchr_append: "c \<notin> set xs \<Longrightarrow> strchr (xs @ c # ys) c = Some (length xs)"
  by (induction xs) auto

lemma strchr_None: "strchr s c = None \<longleftrightarrow> c \<notin> set s"
  by (induction s) auto

lemma strrchr_Some: "strrchr s c = Some i \<Longrightarrow> i < length s \<and> s ! i = c"
  by (induction s arbitrary: i) (auto split: option.splits if_splits)

lemma split_at: "i < length s \<Longrightarrow> s ! i = c \<Longrightarrow> take i s @ c # drop (Suc i) s = s"
  using id_take_nth_drop [of i s] by simp

lemma find_version_dash:
  assumes "find_version name = Some i"
  shows "i < length name \<and> name ! i = CHR ''-''"
proof -
  obtain d where d: "strrchr name CHR ''-'' = Some d"
    using assms by (auto simp: find_version_def split: option.splits)
  then have "d < length name" "name ! d = CHR ''-''"
    using strrchr_Some by auto
  then show ?thesis
    using assms d
    by (auto simp: find_version_def split: option.splits if_splits dest!: strrchr_Some)
qed

text \<open>The version string of a name, if it has one, and whether it could be parsed.\<close>

definition version_string :: "string \<Rightarrow> string option" where
  "version_string name = map_option (\<lambda>i. drop (i + 1) name) (find_version name)"

definition valid_version :: "string \<Rightarrow> bool" where
  "valid_version s \<longleftrightarrow> full_version (hd (parse_version s)) \<noteq> None"

lemma parse_version_nonempty: "\<exists>node rest. parse_version s = node # rest
    \<and> full_version node \<in> {None, Some s}"
  by (auto simp: parse_version_def atom_version_init_def Let_def split_beta PyAtomVersion_new_def
      split: list.split option.splits)

lemma atom_init_cases:
  assumes "strchr input CHR ''/'' = Some c" and "lut_size packages \<noteq> 0"
  defines "nm \<equiv> drop (c + 1) input"
  defines "name \<equiv> case find_version nm of None \<Rightarrow> nm | Some i \<Rightarrow> take i nm"
  defines "version \<equiv> case version_string nm of None \<Rightarrow> [] | Some s \<Rightarrow> parse_version s"
  shows "if \<exists>s. version_string nm = Some s \<and> \<not> valid_version s
    then atom_init (Some packages) self input = None
    else \<exists>a. atom_init (Some packages) self input = Some (0, a)
      \<and> atom_category a = Some (take c input) \<and> atom_name a = Some name
      \<and> atom_key a = Some (take c input @ ''/'' @ name) \<and> atom_version a = version
      \<and> Some (atom_id a, atom_id_flag a) = lut_get_id packages (take c input @ ''/'' @ name)
      \<and> atom_range a = ATOM_VERSION_ALL \<and> atom_useflags a = []"
proof -
  obtain i flag where g: "lut_get_id packages (take c input @ ''/'' @ name) = Some (i, flag)"
    using assms(2) by (cases "lut_get_id packages (take c input @ ''/'' @ name)")
      (auto simp: lut_get_id_def lut_get_bucket_def split: sum.splits)
  show ?thesis
  proof (cases "find_version nm")
    case None
    then show ?thesis
      using g assms(1) by (simp add: atom_init_def nm_def name_def version_def version_string_def
          PyAtom_hash_def version_hash_def Let_def)
  next
    case (Some k)
    obtain node rest where v: "parse_version (drop (k + 1) nm) = node # rest"
        "full_version node \<in> {None, Some (drop (k + 1) nm)}"
      using parse_version_nonempty by blast
    then show ?thesis
      using g assms(1) Some by (auto simp: atom_init_def nm_def name_def version_def version_string_def
          valid_version_def PyAtom_hash_def version_hash_def Let_def)
  qed
qed

lemma atom_init_lossless:
  assumes "atom_init (Some packages) self input = Some (0, a)"
  shows "PyAtom_repr a = Some input"
    and "\<exists>category name. atom_category a = Some category \<and> atom_name a = Some name
      \<and> CHR ''/'' \<notin> set category \<and> atom_key a = Some (category @ ''/'' @ name)
      \<and> lut_get_id packages (category @ ''/'' @ name) = Some (atom_id a, atom_id_flag a)"
proof -
  obtain c where c: "strchr input CHR ''/'' = Some c"
    using assms by (cases "strchr input CHR ''/''") (auto simp: atom_init_def Let_def)
  let ?nm = "drop (c + 1) input"
  let ?name = "case find_version ?nm of None \<Rightarrow> ?nm | Some i \<Rightarrow> take i ?nm"
  have size: "lut_size packages \<noteq> 0"
    using assms c by (auto simp: atom_init_def lut_get_id_def lut_get_bucket_def Let_def split: prod.splits)
  have a: "atom_category a = Some (take c input)" "atom_name a = Some ?name"
      "atom_key a = Some (take c input @ ''/'' @ ?name)" "atom_range a = ATOM_VERSION_ALL"
      "atom_version a = (case version_string ?nm of None \<Rightarrow> [] | Some s \<Rightarrow> parse_version s)"
      "Some (atom_id a, atom_id_flag a) = lut_get_id packages (take c input @ ''/'' @ ?name)"
      "\<forall>s. version_string ?nm = Some s \<longrightarrow> valid_version s"
    using atom_init_cases [OF c size, of self] assms by (auto split: if_splits)
  have input: "input = take c input @ ''/'' @ ?nm"
    using strchr_Some [OF c] split_at [of c input "CHR ''/''"] by simp
  show "PyAtom_repr a = Some input"
  proof (cases "find_version ?nm")
    case None
    then show ?thesis
      using a input by (simp add: PyAtom_repr_def atom_prefix_def version_string_def)
  next
    case (Some i)
    let ?v = "drop (i + 1) ?nm"
    obtain node rest where v: "parse_version ?v = node # rest" "full_version node \<in> {None, Some ?v}"
      using parse_version_nonempty by blast
    have "valid_version ?v"
      using a(7) Some by (simp add: version_string_def)
    then have "full_version node = Some ?v"
      using v by (auto simp: valid_version_def)
    moreover have "take i ?nm @ ''-'' @ ?v = ?nm"
      using find_version_dash [OF Some] split_at [of i ?nm "CHR ''-''"] by simp
    ultimately show ?thesis
      using a(1,2,4,5) Some v(1) input
      by (simp add: PyAtom_repr_def atom_prefix_def version_string_def)
  qed
  show "\<exists>category name. atom_category a = Some category \<and> atom_name a = Some name
      \<and> CHR ''/'' \<notin> set category \<and> atom_key a = Some (category @ ''/'' @ name)
      \<and> lut_get_id packages (category @ ''/'' @ name) = Some (atom_id a, atom_id_flag a)"
    using a strchr_Some [OF c] by auto
qed

text \<open>The version is found behind any name.\<close>

lemma digit_at_dec: "digit_at (xs @ dec n @ ys) (length xs)"
  using dec_hd [of n] by (cases "dec n") (simp_all add: digit_at_def char_at_def nth_append)

lemma text_starts_digit:
  assumes "cs \<noteq> []" "fst (hd cs) = ATOM_PREFIX_NONE"
  shows "\<exists>n ys. components_text cs = dec n @ ys"
  using assms by (cases cs rule: components_text.cases)
    (auto simp: component_text_def intro: exI [of _ "[]"])

lemma find_version_components:
  assumes "cs \<noteq> []" "fst (hd cs) = ATOM_PREFIX_NONE"
  shows "find_version (name @ ''-'' @ version_text cs r) = Some (length name)"
proof -
  obtain n ys where d: "components_text cs = dec n @ ys"
    using text_starts_digit [OF assms] by blast
  note nodash = components_no_dash [of cs]
  have at: "digit_at (name @ ''-'' @ components_text cs @ zs) (length name + 1)" for zs
    using digit_at_dec [of "name @ ''-''" n "ys @ zs"] d by simp
  show ?thesis
  proof (cases r)
    case None
    have "strrchr (name @ ''-'' @ components_text cs) CHR ''-'' = Some (length name)"
      using strrchr_append [OF nodash, of name] by simp
    moreover have "char_at (name @ ''-'' @ components_text cs) (length name + 1) \<noteq> Some CHR ''r''"
      using at [of "[]"] by (auto simp: digit_at_def split: option.splits)
    ultimately show ?thesis
      using at [of "[]"] None by (simp add: find_version_def version_text_def)
  next
    case (Some k)
    let ?v = "name @ ''-'' @ components_text cs"
    have eq: "name @ ''-'' @ version_text cs r = ?v @ ''-r'' @ dec k"
      using Some by (simp add: version_text_def)
    have "CHR ''-'' \<notin> set (''r'' @ dec k)"
      using dec_no_split [of k] by auto
    then have "strrchr (?v @ ''-r'' @ dec k) CHR ''-'' = Some (length ?v)"
      using strrchr_append [of "CHR ''-''" "''r'' @ dec k" ?v] by simp
    moreover have "char_at (?v @ ''-r'' @ dec k) (length ?v + 1) = Some CHR ''r''"
      by (simp add: char_at_def nth_append)
    moreover have "digit_at (?v @ ''-r'' @ dec k) (length ?v + 2)"
      using digit_at_dec [of "?v @ ''-r''" k "[]"] by simp
    moreover have "strrchr ?v CHR ''-'' = Some (length name)"
      using strrchr_append [OF nodash, of name] by simp
    moreover have "digit_at ?v (length name + 1)"
      using at [of "[]"] by simp
    ultimately show ?thesis
      unfolding eq find_version_def by simp
  qed
qed

lemma valid_components: "cs \<noteq> [] \<Longrightarrow> rev_of r < 2 ^ 31 \<Longrightarrow> valid_version (version_text cs r)"
  by (simp add: valid_version_def parse_components components_version_def)

lemma atom_init_components:
  assumes "CHR ''/'' \<notin> set category" "cs \<noteq> []" "fst (hd cs) = ATOM_PREFIX_NONE" "rev_of r < 2 ^ 31" "lut_size packages \<noteq> 0"
  shows "\<exists>a. atom_init (Some packages) self (category @ ''/'' @ name @ ''-'' @ version_text cs r)
      = Some (0, a) \<and> atom_category a = Some category \<and> atom_name a = Some name
    \<and> atom_key a = Some (category @ ''/'' @ name)
    \<and> atom_version a = components_version (version_text cs r) cs (int (rev_of r))
    \<and> Some (atom_id a, atom_id_flag a) = lut_get_id packages (category @ ''/'' @ name)"
proof -
  let ?input = "category @ ''/'' @ name @ ''-'' @ version_text cs r"
  have c: "strchr ?input CHR ''/'' = Some (length category)"
    using strchr_append [OF assms(1)] by simp
  have "version_string (name @ ''-'' @ version_text cs r) = Some (version_text cs r)"
    using find_version_components [OF assms(2,3), of name r] by (simp add: version_string_def)
  then show ?thesis
    using atom_init_cases [OF c assms(5), of self] find_version_components [OF assms(2,3), of name r]
      valid_components [OF assms(2,4)] parse_components [OF assms(2,4)] by auto
qed

text \<open>C16. Printing a parsed atom gives back the string it was parsed from: whenever \<open>atom_init\<close>
  succeeds, category, name and version together are exactly the input, the category has no slash,
  the key is category and name, and the id is the one of the key in the table of packages.\<close>

theorem atom_init_repr:
  assumes "atom_init (Some packages) self input = Some (0, a)"
  shows "PyAtom_repr a = Some input
    \<and> (\<exists>category name. atom_category a = Some category \<and> atom_name a = Some name
      \<and> CHR ''/'' \<notin> set category \<and> atom_key a = Some (category @ ''/'' @ name)
      \<and> lut_get_id packages (category @ ''/'' @ name) = Some (atom_id a, atom_id_flag a))"
  using atom_init_lossless [OF assms] by (rule conjI)

lemma gcc_atom: "''sys-devel/gcc-9.3-r1'' = ''sys-devel'' @ ''/'' @ ''gcc'' @ ''-'' @ version_text [num 9, num 3] (Some 1)"
  by (simp add: version_text_eval)

lemma atom_init_repr_witness:
  "\<exists>a. atom_init (Some (lut_new 4)) PyAtom_new ''sys-devel/gcc-9.3-r1'' = Some (0, a)
    \<and> PyAtom_repr a = Some ''sys-devel/gcc-9.3-r1''"
proof -
  have "lut_size (lut_new 4) \<noteq> 0" by (simp add: lut_new_def)
  then obtain a where "atom_init (Some (lut_new 4)) PyAtom_new ''sys-devel/gcc-9.3-r1'' = Some (0, a)"
    unfolding gcc_atom using atom_init_components [of "''sys-devel''" "[num 9, num 3]" "Some 1" "lut_new 4" PyAtom_new "''gcc''"]
    by (auto simp: rev_of_def)
  then show ?thesis
    using atom_init_repr by blast
qed

text \<open>C17. A version of numbers and suffixes with an optional revision is recognised behind any
  category without a slash and any name, also a name with dashes, digits or something that looks
  like a version: the name stays whole and the version is parsed to its components.\<close>

theorem atom_init_finds_version:
  assumes "CHR ''/'' \<notin> set category" "bounded cs r" "lut_size packages \<noteq> 0"
  shows "\<exists>a. atom_init (Some packages) self (category @ ''/'' @ name @ ''-'' @ version_text cs r)
      = Some (0, a) \<and> atom_category a = Some category \<and> atom_name a = Some name
    \<and> atom_key a = Some (category @ ''/'' @ name)
    \<and> atom_version a = components_version (version_text cs r) cs (int (rev_of r))"
  using assms atom_init_components [of category cs r packages self name] by (auto simp: bounded_def)

lemma atom_init_finds_version_witness:
  "\<exists>a. atom_init (Some (lut_new 4)) PyAtom_new ''sys-devel/gcc-9.3-r1'' = Some (0, a)
    \<and> atom_name a = Some ''gcc''"
  unfolding gcc_atom
  using atom_init_finds_version [of "''sys-devel''" "[num 9, num 3]" "Some 1" "lut_new 4" PyAtom_new "''gcc''"]
  by (auto simp: bounded_def rev_of_def lut_new_def)


lemma invalid_prefix: "\<not> valid_version ''1.0_foobar1''"
  by (simp add: valid_version_def parse_version_def atom_version_init_def version_loop.simps
      version_piece_def atom_prefix_links_def version_node_def PyAtomVersion_new_def)


section \<open>Equality and hash\<close>

text \<open>Two 64-bit numbers below \<open>2 ^ 32\<close> differ in their low four bytes only.\<close>

lemma le_bytes_low:
  "8 \<le> i + 4 \<Longrightarrow> i < 8 \<Longrightarrow> le_bytes 8 (ucast (h :: U32) :: U64) ! i = 0"
  by (auto simp: le_bytes_def intro!: bit_word_eqI)
    (auto simp: bit_simps dest: bit_imp_le_length)

lemma le_bytes_inj:
  assumes "le_bytes 8 x = le_bytes 8 (y :: U64)"
  shows "x = y"
proof (rule bit_word_eqI)
  fix n
  assume "n < LENGTH(64)"
  then have n: "n div 8 < 8" "8 * (n div 8) + n mod 8 = n" "n mod 8 < 8"
    by simp_all
  have byte: "bit (le_bytes 8 z ! (n div 8)) (n mod 8) \<longleftrightarrow> bit z n" for z :: U64
    using n by (simp add: le_bytes_def bit_simps)
  show "bit x n \<longleftrightarrow> bit y n"
    unfolding byte [symmetric] using assms by simp
qed

lemma version_hash_small: "version_hash v = Some h \<Longrightarrow> \<exists>h'. h = ucast (h' :: U32)"
  by (auto simp: version_hash_def split: list.splits intro: exI [of _ 0])

lemma atom_hash_differs:
  assumes h: "h1 = ucast (u1 :: U32)" "h2 = ucast (u2 :: U32)" "h1 \<noteq> h2"
  shows "map_get_hash (atom_hash_data a h1 f) 60 \<noteq> map_get_hash (atom_hash_data a h2 f) 60"
proof -
  let ?pre = "le_bytes 8 (atom_id a)"
  obtain post where data: "atom_hash_data a x f = ?pre @ le_bytes 8 x @ post" and "length post = 44" for x
    by (simp add: atom_hash_data_def)
  then have len: "length (atom_hash_data a x f) = 60" for x by simp
  have "map_get_hash (atom_hash_data a h1 f) (word_of_nat (length (atom_hash_data a h1 f)))
      \<noteq> map_get_hash (atom_hash_data a h2 f) (word_of_nat (length (atom_hash_data a h2 f)))"
  proof (rule one_block_separates)
    fix j
    assume "j < length (atom_hash_data a h1 f)" and j: "j div 4 \<noteq> 2"
    then have "j < 8 \<or> 12 \<le> j" by presburger
    then show "atom_hash_data a h1 f ! j = atom_hash_data a h2 f ! j"
      unfolding data using le_bytes_low [of "j - 8"] by (auto simp: nth_append h(1,2))
  next
    show "atom_hash_data a h1 f \<noteq> atom_hash_data a h2 f"
      unfolding data using le_bytes_inj h(3) by auto
  qed (simp_all add: len)
  then show ?thesis by (simp add: len)
qed

text \<open>Python requires equal objects to have equal hashes, but atoms of one package that differ
  in their version only compare equal and have different hashes whenever the hashes of the two
  version strings differ: both operands hash through the same data, and the hash separates them.\<close>

theorem atom_equal_hash_differs:
  assumes "atom_cached_hash a = - 1" "atom_key a = Some key"
    and "flags_hash 0 (atom_useflags a) = Some f"
    and "version_hash (atom_version a) = Some h1" "version_hash w = Some h2" "h1 \<noteq> h2"
  shows "PyAtom_richcompare a (a\<lparr>atom_version := w\<rparr>) Py_EQ = Some True
    \<and> (\<exists>x y. PyAtom_hash a = Some x \<and> PyAtom_hash (a\<lparr>atom_version := w\<rparr>) = Some y \<and> x \<noteq> y)"
proof -
  obtain u1 u2 :: U32 where "h1 = ucast u1" "h2 = ucast u2"
    using version_hash_small assms(4,5) by blast
  then have "map_get_hash (atom_hash_data a h1 f) 60 \<noteq> map_get_hash (atom_hash_data a h2 f) 60"
    using atom_hash_differs assms(6) by blast
  moreover have "atom_hash_data (a\<lparr>atom_version := w\<rparr>) x f = atom_hash_data a x f" for x
    by (simp add: atom_hash_data_def)
  ultimately show ?thesis
    using assms by (simp add: PyAtom_richcompare_def PyAtom_hash_def flip: word_uint_eq_iff)
qed

lemma version_hashes: "hash_str ''1.0'' \<noteq> hash_str ''1.1''"
  by (simp add: c_eval Let_def)

lemma atom_equal_hash_differs_witness:
  "\<exists>a b. atom_version a = parse_version ''1.0'' \<and> atom_version b = parse_version ''1.1''
    \<and> PyAtom_richcompare a b Py_EQ = Some True \<and> PyAtom_hash a \<noteq> PyAtom_hash b"
proof -
  let ?a = "PyAtom_new\<lparr>atom_cached_hash := - 1, atom_key := Some ''a/b'', atom_version := parse_version ''1.0''\<rparr>"
  have "''1.0'' = version_text [num 1, num 0] None" "''1.1'' = version_text [num 1, num 1] None"
    by (simp_all add: version_text_eval)
  then have "version_hash (parse_version ''1.0'') = Some (ucast (hash_str ''1.0''))"
      "version_hash (parse_version ''1.1'') = Some (ucast (hash_str ''1.1''))"
    using parse_components [of "[num 1, num 0]" None] parse_components [of "[num 1, num 1]" None]
    by (simp_all add: version_hash_def components_version_def rev_of_def)
  moreover have "(ucast (hash_str ''1.0'') :: U64) \<noteq> ucast (hash_str ''1.1'')"
    using version_hashes ucast_up_down32 by metis
  ultimately have "PyAtom_richcompare ?a (?a\<lparr>atom_version := parse_version ''1.1''\<rparr>) Py_EQ = Some True
    \<and> (\<exists>x y. PyAtom_hash ?a = Some x \<and> PyAtom_hash (?a\<lparr>atom_version := parse_version ''1.1''\<rparr>) = Some y
        \<and> x \<noteq> y)"
    by (intro atom_equal_hash_differs [where key = "''a/b''" and f = 0 and ?h1.0 = "ucast (hash_str ''1.0'')"
          and ?h2.0 = "ucast (hash_str ''1.1'')"]) (simp_all add: PyAtom_new_def)
  then have "PyAtom_richcompare ?a (?a\<lparr>atom_version := parse_version ''1.1''\<rparr>) Py_EQ = Some True"
    "PyAtom_hash ?a \<noteq> PyAtom_hash (?a\<lparr>atom_version := parse_version ''1.1''\<rparr>)"
    by (metis option.inject)+
  moreover have "atom_version ?a = parse_version ''1.0''"
    "atom_version (?a\<lparr>atom_version := parse_version ''1.1''\<rparr>) = parse_version ''1.1''"
    by simp_all
  ultimately show ?thesis by blast
qed

end
