(* ===== verification/Package.thy ===== *)
theory Package
  imports Atom
begin

text \<open>
  Packages of autogentoo/cportage/package.c and the parts of atom.c and ebuild.c that work on the
  ebuilds of a package. The objects live in a store that maps addresses to them, 0 is NULL; the
  ebuilds of a package are chained through their \<open>older\<close> pointers. The lemmas show that adding an
  ebuild inserts it into the chain, newest first, that the lookup of an atom returns the newest
  ebuild that matches, and for which ranges it does not.
\<close>

section \<open>The objects\<close>

record Ebuild =
  eb_name :: "string option"
  eb_category :: "string option"
  eb_package_id :: U64
  eb_package_lut_flags :: U32
  eb_slot :: "string option"
  eb_sub_slot :: "string option"
  eb_key :: "string option"
  eb_package_key :: "string option"
  eb_ebuild :: "string option"
  eb_cache_file :: "string option"
  eb_version :: "AtomVersion list"
  eb_metadata_init :: bool
  eb_package :: U64
  eb_older :: U64

record Package =
  pkg_package_id :: U64
  pkg_category :: "string option"
  pkg_name :: "string option"
  pkg_key :: "string option"
  pkg_ebuilds :: U64

record store =
  st_ebuilds :: "U64 \<rightharpoonup> Ebuild"
  st_packages :: "U64 \<rightharpoonup> Package"
  st_world :: world

text \<open>What a method returns to Python, and the arguments it checks the type of.\<close>

datatype py_exc = TypeError | RuntimeError | KeyError | SystemError | FileNotFoundError

datatype py_result = Py_None | Py_True | Py_False | Py_Obj U64 | Py_Int int | Py_Null | Py_Raise py_exc

datatype py_arg = Arg_Ebuild U64 | Arg_Atom Atom | Arg_Package U64 | Arg_Other

definition with_world :: "(world \<Rightarrow> world) \<Rightarrow> store \<Rightarrow> store" where
  "with_world f st = st\<lparr>st_world := f (st_world st)\<rparr>"

definition PyEbuild_new :: Ebuild where
  "PyEbuild_new =
     \<lparr>eb_name = None, eb_category = None, eb_package_id = 0, eb_package_lut_flags = 0,
      eb_slot = None, eb_sub_slot = None, eb_key = None, eb_package_key = None, eb_ebuild = None,
      eb_cache_file = None, eb_version = [], eb_metadata_init = False, eb_package = 0, eb_older = 0\<rparr>"

definition PyPackage_new :: Package where
  "PyPackage_new = \<lparr>pkg_package_id = 0, pkg_category = None, pkg_name = None, pkg_key = None, pkg_ebuilds = 0\<rparr>"

text \<open>A key without a slash makes the code compute with the NULL pointer.\<close>

definition PyPackage_init :: "Package \<Rightarrow> string \<Rightarrow> Package option" where
  "PyPackage_init self key =
     (case strchr key CHR ''/'' of
        None \<Rightarrow> None
      | Some cat_split \<Rightarrow>
          Some (self\<lparr>pkg_key := Some key, pkg_category := Some (take cat_split key),
                     pkg_name := Some (drop (cat_split + 1) key), pkg_ebuilds := 0\<rparr>))"

section \<open>Adding an ebuild\<close>

text \<open>The walk along the chain: \<open>Inl\<close> is the error that the ebuild itself was met, \<open>Inr\<close> the nodes
  between which it goes.\<close>

partial_function (option) add_ebuild_walk ::
    "(U64 \<rightharpoonup> Ebuild) \<Rightarrow> U64 \<Rightarrow> AtomVersion list \<Rightarrow> U64 \<Rightarrow> U64 \<Rightarrow> (unit + U64 \<times> U64) option" where
  "add_ebuild_walk m ebuild version last_eb current =
     (if current = 0 then Some (Inr (last_eb, 0))
      else if ebuild = current then Some (Inl ())
      else Option.bind (m current) (\<lambda>cur.
        Option.bind (atom_version_compare version (eb_version cur)) (\<lambda>c.
          if c > 0 then Some (Inr (last_eb, current))
          else add_ebuild_walk m ebuild version current (eb_older cur))))"

definition set_older :: "U64 \<Rightarrow> U64 \<Rightarrow> (U64 \<rightharpoonup> Ebuild) \<Rightarrow> (U64 \<rightharpoonup> Ebuild)" where
  "set_older p q m = m(p := map_option (eb_older_update (\<lambda>_. q)) (m p))"

definition set_package :: "U64 \<Rightarrow> U64 \<Rightarrow> (U64 \<rightharpoonup> Ebuild) \<Rightarrow> (U64 \<rightharpoonup> Ebuild)" where
  "set_package p q m = m(p := map_option (eb_package_update (\<lambda>_. q)) (m p))"

definition PyPackage_add_ebuild :: "store \<Rightarrow> U64 \<Rightarrow> py_arg list \<Rightarrow> (store \<times> py_result) option" where
  "PyPackage_add_ebuild st self args =
     (case args of
        [Arg_Ebuild ebuild] \<Rightarrow>
          do { eb \<leftarrow> st_ebuilds st ebuild;
               pkg \<leftarrow> st_packages st self;
               if eb_package eb \<noteq> 0 then Some (st, Py_Raise RuntimeError)
               else do {
                 r \<leftarrow> add_ebuild_walk (st_ebuilds st) ebuild (eb_version eb) 0 (pkg_ebuilds pkg);
                 case r of
                   Inl _ \<Rightarrow> Some (st, Py_Raise RuntimeError)
                 | Inr (last_eb, current) \<Rightarrow>
                     let st = with_world (py_xincref ebuild) st;
                         st = (if last_eb = 0
                               then st\<lparr>st_packages := (st_packages st)(self \<mapsto> pkg\<lparr>pkg_ebuilds := ebuild\<rparr>),
                                       st_ebuilds := set_older ebuild current (st_ebuilds st)\<rparr>
                               else st\<lparr>st_ebuilds :=
                                    set_older last_eb ebuild (set_older ebuild current (st_ebuilds st))\<rparr>)
                     in Some (st\<lparr>st_ebuilds := set_package ebuild self (st_ebuilds st)\<rparr>, Py_None) } }
      | _ \<Rightarrow> Some (st, Py_Raise TypeError))"

section \<open>Matching an atom\<close>

definition range_admits :: "U32 \<Rightarrow> int \<Rightarrow> bool" where
  "range_admits rng compare \<longleftrightarrow>
     compare = 0 \<and> has_flag rng ATOM_VERSION_E \<or> compare > 0 \<and> has_flag rng ATOM_VERSION_G
     \<or> compare < 0 \<and> has_flag rng ATOM_VERSION_L"

partial_function (option) match_atom_walk ::
    "(U64 \<rightharpoonup> Ebuild) \<Rightarrow> AtomVersion list \<Rightarrow> U32 \<Rightarrow> U64 \<Rightarrow> U64 option option" where
  "match_atom_walk m version rng current =
     (if current = 0 then Some None
      else Option.bind (m current) (\<lambda>cur.
        Option.bind (atom_version_compare (eb_version cur) version) (\<lambda>compare.
          if range_admits rng compare then Some (Some current)
          else if compare > 0 \<and> \<not> has_flag rng ATOM_VERSION_L then Some None
          else match_atom_walk m version rng (eb_older cur))))"

definition PyPackage_match_atom :: "store \<Rightarrow> U64 \<Rightarrow> py_arg list \<Rightarrow> (store \<times> py_result) option" where
  "PyPackage_match_atom st self args =
     (case args of
        [Arg_Atom atom] \<Rightarrow>
          do { pkg \<leftarrow> st_packages st self;
               r \<leftarrow> match_atom_walk (st_ebuilds st) (atom_version atom) (atom_range atom) (pkg_ebuilds pkg);
               Some (case r of
                 None \<Rightarrow> (st, Py_None)
               | Some current \<Rightarrow> (with_world (py_xincref current) st, Py_Obj current)) }
      | _ \<Rightarrow> Some (st, Py_Raise TypeError))"

text \<open>\<open>atom_matches\<close> of atom.c looks at the version from the atom's side.\<close>

definition atom_matches :: "Atom \<Rightarrow> Ebuild \<Rightarrow> U32 option" where
  "atom_matches self target =
     do { key \<leftarrow> atom_key self; package_key \<leftarrow> eb_package_key target;
          if strcmp key package_key \<noteq> 0 then Some 0
          else do { version_compare \<leftarrow> atom_version_compare (atom_version self) (eb_version target);
                    Some (if version_compare = 0 then atom_range self AND ATOM_VERSION_E
                          else if version_compare > 0 then atom_range self AND ATOM_VERSION_L
                          else atom_range self AND ATOM_VERSION_G) } }"

definition PyAtom_matches :: "store \<Rightarrow> Atom \<Rightarrow> py_arg list \<Rightarrow> py_result option" where
  "PyAtom_matches st self args =
     (case args of
        [Arg_Ebuild e] \<Rightarrow>
          do { eb \<leftarrow> st_ebuilds st e; r \<leftarrow> atom_matches self eb;
               Some (if r \<noteq> 0 then Py_True else Py_False) }
      | _ \<Rightarrow> Some (Py_Raise TypeError))"

section \<open>Iteration\<close>

text \<open>The iterator of a package is its newest ebuild; \<open>PyEbuild_next\<close> returns the older one and
  leaves the iterator as it is. NULL without an exception ends the iteration.\<close>

definition PyPackage_iter :: "store \<Rightarrow> U64 \<Rightarrow> (store \<times> py_result) option" where
  "PyPackage_iter st self =
     do { pkg \<leftarrow> st_packages st self;
          Some (with_world (py_xincref (pkg_ebuilds pkg)) st,
                if pkg_ebuilds pkg = 0 then Py_Null else Py_Obj (pkg_ebuilds pkg)) }"

definition PyEbuild_next :: "store \<Rightarrow> U64 \<Rightarrow> (store \<times> py_result) option" where
  "PyEbuild_next st self =
     do { eb \<leftarrow> st_ebuilds st self;
          Some (with_world (py_xincref (eb_older eb)) st,
                if eb_older eb = 0 then Py_Null else Py_Obj (eb_older eb)) }"

text \<open>The first \<open>n\<close> items of a Python \<open>for\<close> loop over an iterator.\<close>

fun iterate :: "nat \<Rightarrow> store \<Rightarrow> U64 \<Rightarrow> U64 list option" where
  "iterate 0 st it = Some []"
| "iterate (Suc n) st it =
     do { (st, r) \<leftarrow> PyEbuild_next st it;
          case r of Py_Obj p \<Rightarrow> map_option (Cons p) (iterate n st it) | _ \<Rightarrow> Some [] }"

section \<open>Chains of ebuilds\<close>

text \<open>Following \<open>older\<close> from one address visits the given list and ends at another address.\<close>

fun older_seg :: "(U64 \<rightharpoonup> Ebuild) \<Rightarrow> U64 \<Rightarrow> U64 list \<Rightarrow> U64 \<Rightarrow> bool" where
  "older_seg m p [] q \<longleftrightarrow> p = q"
| "older_seg m p (x # xs) q \<longleftrightarrow>
     p = x \<and> x \<noteq> 0 \<and> (\<exists>e. m x = Some e \<and> older_seg m (eb_older e) xs q)"

lemma older_seg_append:
  "older_seg m p (xs @ ys) q \<longleftrightarrow> (\<exists>r. older_seg m p xs r \<and> older_seg m r ys q)"
  by (induction xs arbitrary: p) auto

lemma older_seg_other: "x \<notin> set xs \<Longrightarrow> older_seg (m(x := y)) p xs q \<longleftrightarrow> older_seg m p xs q"
  by (induction xs arbitrary: p) auto

lemma older_seg_set_older_other:
  "x \<notin> set xs \<Longrightarrow> older_seg (set_older x r m) p xs q \<longleftrightarrow> older_seg m p xs q"
  by (simp add: set_older_def older_seg_other)

lemma older_seg_set_package: "older_seg (set_package x r m) p xs q \<longleftrightarrow> older_seg m p xs q"
  by (induction xs arbitrary: p) (auto simp: set_package_def)

lemma older_seg_set_last:
  assumes "older_seg m p (xs @ [x]) r" "x \<notin> set xs"
  shows "older_seg (set_older x q m) p (xs @ [x]) q"
  using assms by (auto simp: older_seg_append older_seg_set_older_other) (auto simp: set_older_def)

lemma older_seg_hd: "older_seg m p xs 0 \<Longrightarrow> p = (if xs = [] then 0 else hd xs)"
  by (cases xs) auto

definition ebuild_ver :: "(U64 \<rightharpoonup> Ebuild) \<Rightarrow> U64 \<Rightarrow> AtomVersion list" where
  "ebuild_ver m x = (case m x of None \<Rightarrow> [] | Some e \<Rightarrow> eb_version e)"

lemma ebuild_ver_updates [simp]:
  "ebuild_ver (set_older p q m) = ebuild_ver m" "ebuild_ver (set_package p q m) = ebuild_ver m"
  by (auto simp: ebuild_ver_def set_older_def set_package_def fun_eq_iff split: option.split)

abbreviation newest :: "(U64 \<rightharpoonup> Ebuild) \<Rightarrow> U64 list \<Rightarrow> bool" where
  "newest m \<equiv> newest_first atom_version_compare (ebuild_ver m)"

abbreviation not_newer_than :: "(U64 \<rightharpoonup> Ebuild) \<Rightarrow> AtomVersion list \<Rightarrow> U64 \<Rightarrow> bool" where
  "not_newer_than m v x \<equiv> not_newer atom_version_compare v (ebuild_ver m x)"

text \<open>The ebuilds of a package, newest first.\<close>

definition package_inv :: "store \<Rightarrow> U64 \<Rightarrow> U64 list \<Rightarrow> bool" where
  "package_inv st pk xs \<longleftrightarrow> pk \<noteq> 0 \<and> distinct xs
     \<and> (\<exists>pkg. st_packages st pk = Some pkg \<and> older_seg (st_ebuilds st) (pkg_ebuilds pkg) xs 0)
     \<and> (\<forall>x \<in> set xs. \<exists>e. st_ebuilds st x = Some e \<and> eb_package e = pk \<and> well_formed (eb_version e))
     \<and> newest (st_ebuilds st) xs"

lemma insert_newest_split:
  "insert_newest cmp ver x ys = takeWhile (\<lambda>y. not_newer cmp (ver x) (ver y)) ys
     @ x # dropWhile (\<lambda>y. not_newer cmp (ver x) (ver y)) ys"
  by (induction ys) auto

text \<open>The walk stops between the ebuilds that are not older and the first older one.\<close>

lemma add_ebuild_walk:
  assumes "older_seg m p xs 0" "e \<notin> set xs" "well_formed v" "\<forall>x \<in> set xs. well_formed (ebuild_ver m x)"
  shows "add_ebuild_walk m e v l p = Some (Inr
    (if takeWhile (not_newer_than m v) xs = [] then l else last (takeWhile (not_newer_than m v) xs),
     if dropWhile (not_newer_than m v) xs = [] then 0 else hd (dropWhile (not_newer_than m v) xs)))"
  using assms
proof (induction xs arbitrary: p l)
  case Nil
  then show ?case by (subst add_ebuild_walk.simps) simp
next
  case (Cons x xs)
  obtain eb where eb: "m x = Some eb" "p = x" "x \<noteq> 0" "older_seg m (eb_older eb) xs 0"
    using Cons.prems(1) by auto
  have ver: "ebuild_ver m x = eb_version eb"
    using eb by (simp add: ebuild_ver_def)
  obtain c where c: "atom_version_compare v (eb_version eb) = Some c"
    using Cons.prems(3,4) components_order.defined [of v "eb_version eb"] ver by auto
  have nn: "not_newer_than m v x \<longleftrightarrow> \<not> c > 0"
    using c by (auto simp: not_newer_def ver)
  show ?case
  proof (cases "c > 0")
    case True
    then show ?thesis
      using Cons.prems(2) eb c nn by (subst add_ebuild_walk.simps) simp
  next
    case False
    then have "add_ebuild_walk m e v l p = add_ebuild_walk m e v x (eb_older eb)"
      using Cons.prems(2) eb c by (subst add_ebuild_walk.simps) simp
    then show ?thesis
      using Cons.IH [OF eb(4), of x] Cons.prems(2-4) False nn by simp
  qed
qed

lemma set_older_same [simp]: "set_older p q m p = map_option (eb_older_update (\<lambda>_. q)) (m p)"
  by (simp add: set_older_def)

text \<open>Linking an ebuild in between two segments.\<close>

lemma older_seg_insert:
  assumes seg: "older_seg m p (A @ B) 0" and e: "e \<notin> set A" "e \<notin> set B" "e \<noteq> 0" "m e = Some eb"
    and dist: "distinct (A @ B)"
  shows "older_seg
      (let m = set_older e (if B = [] then 0 else hd B) m in if A = [] then m else set_older (last A) e m)
      (if A = [] then e else p) (A @ e # B) 0"
proof -
  obtain r where r: "older_seg m p A r" "older_seg m r B 0"
    using seg by (auto simp: older_seg_append)
  let ?r = "if B = [] then 0 else hd B"
  have tail: "older_seg (set_older e ?r m) e (e # B) 0"
    using r(2) older_seg_hd [OF r(2)] e by (auto simp: older_seg_set_older_other)
  show ?thesis
  proof (cases A rule: rev_cases)
    case Nil
    then show ?thesis using tail by simp
  next
    case (snoc A' a)
    have "older_seg (set_older a e (set_older e ?r m)) p (A' @ [a]) e"
      using r(1) e dist snoc by (intro older_seg_set_last [of _ _ _ _ r]) (simp_all add: older_seg_set_older_other)
    moreover have "older_seg (set_older a e (set_older e ?r m)) e (e # B) 0"
      using tail dist e snoc by (subst older_seg_set_older_other) auto
    ultimately have "older_seg (set_older a e (set_older e ?r m)) p ((A' @ [a]) @ e # B) 0"
      unfolding older_seg_append by blast
    then show ?thesis
      using snoc by simp
  qed
qed

text \<open>Relinking leaves version and package of every ebuild as they are.\<close>

lemma set_older_keeps:
  "m x = Some eb \<Longrightarrow> \<exists>eb'. set_older p q m x = Some eb' \<and> eb_package eb' = eb_package eb
     \<and> eb_version eb' = eb_version eb \<and> eb_package_key eb' = eb_package_key eb"
  by (cases "x = p") (auto simp: set_older_def)

lemma set_package_keeps:
  "m x = Some eb \<Longrightarrow> \<exists>eb'. set_package p q m x = Some eb' \<and> eb_version eb' = eb_version eb
     \<and> eb_package_key eb' = eb_package_key eb
     \<and> eb_package eb' = (if x = p then q else eb_package eb)"
  by (cases "x = p") (auto simp: set_package_def)

definition same_except :: "U64 set \<Rightarrow> (U64 \<rightharpoonup> 'a) \<Rightarrow> (U64 \<rightharpoonup> 'a) \<Rightarrow> bool" where
  "same_except X m m' \<longleftrightarrow> (\<forall>x. x \<notin> X \<longrightarrow> m' x = m x)"

lemma same_except_dom: "same_except X m m' \<Longrightarrow> dom m' - X = dom m - X"
  by (auto simp: same_except_def)

lemma ebuild_ver_eq:
  assumes "dom m' = dom m" "\<forall>x eb. m x = Some eb \<longrightarrow> (\<exists>eb'. m' x = Some eb' \<and> eb_version eb' = eb_version eb)"
  shows "ebuild_ver m' = ebuild_ver m"
proof
  fix x
  show "ebuild_ver m' x = ebuild_ver m x"
  proof (cases "m x")
    case None
    then have "m' x = None" using assms(1) by (metis domIff)
    then show ?thesis using None by (simp add: ebuild_ver_def)
  next
    case (Some eb)
    then show ?thesis using assms(2) by (fastforce simp: ebuild_ver_def)
  qed
qed

lemma add_ebuild_effect:
  assumes inv: "package_inv st pk xs" and e: "e \<noteq> 0" "st_ebuilds st e = Some eb" "eb_package eb = 0"
    and v: "well_formed (eb_version eb)"
  shows "\<exists>st'. PyPackage_add_ebuild st pk [Arg_Ebuild e] = Some (st', Py_None)
    \<and> package_inv st' pk (insert_newest atom_version_compare (ebuild_ver (st_ebuilds st)) e xs)
    \<and> same_except (insert e (set xs)) (st_ebuilds st) (st_ebuilds st')
    \<and> same_except {pk} (st_packages st) (st_packages st')
    \<and> st_world st' = py_xincref e (st_world st)
    \<and> (\<forall>x eb. st_ebuilds st x = Some eb \<longrightarrow>
         (\<exists>eb'. st_ebuilds st' x = Some eb' \<and> eb_package_key eb' = eb_package_key eb
            \<and> eb_version eb' = eb_version eb))
    \<and> (\<forall>pkg. st_packages st pk = Some pkg \<longrightarrow>
         (\<exists>pkg'. st_packages st' pk = Some pkg' \<and> pkg_key pkg' = pkg_key pkg
            \<and> pkg_package_id pkg' = pkg_package_id pkg))"
proof -
  let ?m = "st_ebuilds st"
  obtain pkg where pkg: "st_packages st pk = Some pkg" "older_seg ?m (pkg_ebuilds pkg) xs 0"
      and dist: "distinct xs" "pk \<noteq> 0" and sorted: "newest ?m xs"
      and all: "\<forall>x \<in> set xs. \<exists>e. ?m x = Some e \<and> eb_package e = pk \<and> well_formed (eb_version e)"
    using inv by (auto simp: package_inv_def)
  have notin: "e \<notin> set xs"
    using all e dist by auto
  have ver: "ebuild_ver ?m e = eb_version eb" "\<forall>x \<in> set xs. well_formed (ebuild_ver ?m x)"
    using e all by (auto simp: ebuild_ver_def)
  define A where "A = takeWhile (not_newer_than ?m (eb_version eb)) xs"
  define B where "B = dropWhile (not_newer_than ?m (eb_version eb)) xs"
  have xs: "xs = A @ B" by (simp add: A_def B_def)
  have ins: "insert_newest atom_version_compare (ebuild_ver ?m) e xs = A @ e # B"
    by (simp add: insert_newest_split A_def B_def ver)
  have walk: "add_ebuild_walk ?m e (eb_version eb) 0 (pkg_ebuilds pkg) =
      Some (Inr (if A = [] then 0 else last A, if B = [] then 0 else hd B))"
    using add_ebuild_walk [OF pkg(2) notin v ver(2), of 0] by (simp add: A_def B_def)
  define m' where "m' = set_package e pk (let m = set_older e (if B = [] then 0 else hd B) ?m
      in if A = [] then m else set_older (last A) e m)"
  define pkg' where "pkg' = (if A = [] then pkg\<lparr>pkg_ebuilds := e\<rparr> else pkg)"
  let ?st = "with_world (py_xincref e) st\<lparr>st_ebuilds := m', st_packages := (st_packages st)(pk \<mapsto> pkg')\<rparr>"
  have last: "last A \<noteq> 0" if "A \<noteq> []"
  proof -
    have "0 \<notin> set xs" if "older_seg m p xs q" for m p xs q
      using that by (induction xs arbitrary: p) auto
    then show ?thesis
      using pkg(2) that xs last_in_set [OF that] by force
  qed
  have keeps: "\<exists>eb'. m' x = Some eb' \<and> eb_version eb' = eb_version eb
      \<and> eb_package_key eb' = eb_package_key eb \<and> eb_package eb' = (if x = e then pk else eb_package eb)"
    if eb: "?m x = Some eb" for x eb
  proof -
    define m1 where "m1 = set_older e (if B = [] then 0 else hd B) ?m"
    obtain eb1 where eb1: "m1 x = Some eb1" "eb_package eb1 = eb_package eb" "eb_version eb1 = eb_version eb"
        "eb_package_key eb1 = eb_package_key eb"
      using set_older_keeps [where m = ?m and x = x, OF eb] unfolding m1_def by blast
    define m2 where "m2 = (if A = [] then m1 else set_older (last A) e m1)"
    obtain eb2 where eb2: "m2 x = Some eb2" "eb_package eb2 = eb_package eb" "eb_version eb2 = eb_version eb"
        "eb_package_key eb2 = eb_package_key eb"
      using set_older_keeps [where m = m1 and x = x, OF eb1(1), of "last A" e] eb1
      unfolding m2_def by (cases "A = []") auto
    have "m' = set_package e pk m2"
      by (simp add: m'_def m2_def m1_def Let_def)
    then show ?thesis
      using set_package_keeps [where m = m2 and x = x, OF eb2(1), of e pk] eb2 by auto
  qed
  have "PyPackage_add_ebuild st pk [Arg_Ebuild e] = Some (?st, Py_None)"
    using e pkg(1) walk last
    by (simp add: PyPackage_add_ebuild_def with_world_def m'_def pkg'_def fun_upd_idem)
  moreover have "package_inv ?st pk (A @ e # B)"
  proof -
    have "older_seg m' (pkg_ebuilds pkg') (A @ e # B) 0"
      using older_seg_insert [of ?m "pkg_ebuilds pkg" A B e eb] pkg(2) xs notin e dist
      by (auto simp: m'_def pkg'_def older_seg_set_package)
    moreover have "\<exists>eb. m' x = Some eb \<and> eb_package eb = pk \<and> well_formed (eb_version eb)"
      if "x \<in> set (A @ e # B)" for x
      using that all e v xs keeps by (cases "x = e") fastforce+
    moreover have "newest m' (A @ e # B)"
    proof -
      have "ebuild_ver m' = ebuild_ver ?m"
        by (simp add: m'_def Let_def)
      then show ?thesis
        using components_order.insert_keeps_order [OF sorted, of e] v ver by (simp add: ins)
    qed
    moreover have "distinct (A @ e # B)"
      using dist notin xs by auto
    ultimately show ?thesis
      using dist by (auto simp: package_inv_def)
  qed
  moreover have "same_except (insert e (set xs)) ?m m'"
    using xs by (auto simp: same_except_def m'_def set_package_def set_older_def Let_def)
  moreover have "\<forall>x eb. ?m x = Some eb \<longrightarrow>
      (\<exists>eb'. m' x = Some eb' \<and> eb_package_key eb' = eb_package_key eb \<and> eb_version eb' = eb_version eb)"
    using keeps by blast
  moreover have "pkg_key pkg' = pkg_key pkg" "pkg_package_id pkg' = pkg_package_id pkg"
    by (simp_all add: pkg'_def)
  ultimately show ?thesis
    unfolding ins using pkg(1) by (intro exI [of _ ?st]) (simp add: same_except_def with_world_def)
qed

text \<open>C9. Adding an ebuild that belongs to no package yet inserts it into the chain in front of
  the first ebuild that is older, and so keeps the chain newest first; it marks the ebuild as
  belonging to the package, takes one reference on it, and touches no ebuild of another package.\<close>

theorem add_ebuild_inserts:
  assumes inv: "package_inv st pk xs" and e: "e \<noteq> 0" "st_ebuilds st e = Some eb" "eb_package eb = 0"
    and v: "well_formed (eb_version eb)"
  shows "\<exists>st'. PyPackage_add_ebuild st pk [Arg_Ebuild e] = Some (st', Py_None)
    \<and> package_inv st' pk (insert_newest atom_version_compare (ebuild_ver (st_ebuilds st)) e xs)
    \<and> same_except (insert e (set xs)) (st_ebuilds st) (st_ebuilds st')
    \<and> same_except {pk} (st_packages st) (st_packages st')
    \<and> st_world st' = py_xincref e (st_world st)"
  using add_ebuild_effect [OF assms] by blast

text \<open>A package with the ebuilds 1.2 and 1.0, and a loose ebuild 1.1.\<close>

definition ebuild_of :: "string \<Rightarrow> U64 \<Rightarrow> U64 \<Rightarrow> Ebuild" where
  "ebuild_of v package older = PyEbuild_new\<lparr>eb_version := parse_version v, eb_package_key := Some ''a/b'',
     eb_package := package, eb_older := older\<rparr>"

definition demo_store :: store where
  "demo_store = \<lparr>st_ebuilds = [10 \<mapsto> ebuild_of ''1.2'' 5 20, 20 \<mapsto> ebuild_of ''1.0'' 5 0,
       30 \<mapsto> ebuild_of ''1.1'' 0 0],
     st_packages = [5 \<mapsto> PyPackage_new\<lparr>pkg_key := Some ''a/b'', pkg_ebuilds := 10\<rparr>],
     st_world = no_world\<rparr>"

lemma demo_numeric: "''1.0'' = version_text [num 1, num 0] None" "''1.1'' = version_text [num 1, num 1] None"
    "''1.2'' = version_text [num 1, num 2] None"
  by (simp_all add: version_text_eval)

lemma demo_chain: "component_chain (parse_version ''1.0'') [num 1, num 0] 0"
    "component_chain (parse_version ''1.1'') [num 1, num 1] 0" "component_chain (parse_version ''1.2'') [num 1, num 2] 0"
  unfolding demo_numeric using parsed_chain [of "[num 1, num 0]" None]
    parsed_chain [of "[num 1, num 1]" None] parsed_chain [of "[num 1, num 2]" None]
  by (simp_all add: bounded_def rev_of_def)

lemma demo_well_formed: "well_formed (parse_version ''1.0'')" "well_formed (parse_version ''1.1'')"
    "well_formed (parse_version ''1.2'')"
  unfolding well_formed_def using demo_chain by blast+

lemma demo_not_newer: "not_newer atom_version_compare (parse_version ''1.1'') (parse_version ''1.2'')"
    "\<not> not_newer atom_version_compare (parse_version ''1.1'') (parse_version ''1.0'')"
    "not_newer atom_version_compare (parse_version ''1.0'') (parse_version ''1.2'')"
  using not_newer_chain [OF demo_chain(2,3)] not_newer_chain [OF demo_chain(2,1)]
    not_newer_chain [OF demo_chain(1,3)] by simp_all

lemma demo_package: "package_inv demo_store 5 [10, 20]"
  using demo_well_formed demo_not_newer(3)
  by (simp add: package_inv_def demo_store_def ebuild_of_def PyPackage_new_def newest_first_def
      ebuild_ver_def)

lemma add_ebuild_inserts_witness:
  "\<exists>st'. PyPackage_add_ebuild demo_store 5 [Arg_Ebuild 30] = Some (st', Py_None)
    \<and> package_inv st' 5 [10, 30, 20]"
proof -
  have "insert_newest atom_version_compare (ebuild_ver (st_ebuilds demo_store)) 30 [10, 20] = [10, 30, 20]"
    using demo_not_newer by (simp add: ebuild_ver_def demo_store_def ebuild_of_def)
  then show ?thesis
    using add_ebuild_inserts [OF demo_package, of 30 "ebuild_of ''1.1'' 0 0"] demo_well_formed
    by (auto simp: demo_store_def ebuild_of_def)
qed

text \<open>An error of \<open>add_ebuild\<close> changes nothing, and success means that the argument was one
  ebuild that belonged to no package before.\<close>

theorem add_ebuild_errors:
  assumes "PyPackage_add_ebuild st pk args = Some (st', r)"
  shows "r \<in> {Py_None, Py_Raise TypeError, Py_Raise RuntimeError} \<and> (r \<noteq> Py_None \<longrightarrow> st' = st)
    \<and> (r = Py_None \<longrightarrow> (\<exists>e eb. args = [Arg_Ebuild e] \<and> st_ebuilds st e = Some eb \<and> eb_package eb = 0))"
proof (cases "\<exists>e. args = [Arg_Ebuild e]")
  case False
  then have "PyPackage_add_ebuild st pk args = Some (st, Py_Raise TypeError)"
    by (auto simp: PyPackage_add_ebuild_def split: list.split py_arg.split)
  then show ?thesis using assms False by auto
next
  case True
  then obtain e where "args = [Arg_Ebuild e]" by blast
  then show ?thesis
    using assms by (auto simp: PyPackage_add_ebuild_def Let_def split: bind_splits if_splits sum.splits)
qed

lemma add_ebuild_errors_witness:
  "PyPackage_add_ebuild demo_store 5 [Arg_Ebuild 20] = Some (demo_store, Py_Raise RuntimeError)"
proof -
  have "PyPackage_add_ebuild demo_store 5 [Arg_Ebuild 20] = Some (demo_store, Py_Raise RuntimeError)"
    by (simp add: PyPackage_add_ebuild_def demo_store_def ebuild_of_def)
  then show ?thesis
    using add_ebuild_errors by blast
qed

section \<open>Which ebuild an atom finds\<close>

definition admitted :: "(U64 \<rightharpoonup> Ebuild) \<Rightarrow> AtomVersion list \<Rightarrow> U32 \<Rightarrow> U64 \<Rightarrow> bool" where
  "admitted m version rng x \<longleftrightarrow>
     (case atom_version_compare (ebuild_ver m x) version of
        None \<Rightarrow> False | Some c \<Rightarrow> range_admits rng c)"

lemma match_atom_walk_find:
  assumes "older_seg m p xs 0" "has_flag rng ATOM_VERSION_L \<or> has_flag rng ATOM_VERSION_G"
    and "\<forall>x \<in> set xs. atom_version_compare (ebuild_ver m x) version \<noteq> None"
  shows "match_atom_walk m version rng p = Some (find (admitted m version rng) xs)"
  using assms(1,3)
proof (induction xs arbitrary: p)
  case Nil
  then show ?case by (subst match_atom_walk.simps) simp
next
  case (Cons x xs)
  obtain eb where eb: "m x = Some eb" "p = x" "x \<noteq> 0" "older_seg m (eb_older eb) xs 0"
    using Cons.prems(1) by auto
  obtain c where c: "atom_version_compare (eb_version eb) version = Some c"
    using Cons.prems(2) eb by (auto simp: ebuild_ver_def)
  have adm: "admitted m version rng x \<longleftrightarrow> range_admits rng c"
    using c eb by (simp add: admitted_def ebuild_ver_def)
  show ?case
  proof (cases "range_admits rng c")
    case True
    then show ?thesis using eb c adm by (subst match_atom_walk.simps) simp
  next
    case False
    then have "\<not> (c > 0 \<and> \<not> has_flag rng ATOM_VERSION_L)"
      using assms(2) by (auto simp: range_admits_def)
    then have "match_atom_walk m version rng p = match_atom_walk m version rng (eb_older eb)"
      using False eb c by (subst match_atom_walk.simps) auto
    then show ?thesis using Cons.IH [OF eb(4)] Cons.prems(2) False adm by simp
  qed
qed

lemma match_atom_find:
  assumes "package_inv st pk xs"
    and "has_flag (atom_range a) ATOM_VERSION_L \<or> has_flag (atom_range a) ATOM_VERSION_G"
    and "well_formed (atom_version a)"
  shows "PyPackage_match_atom st pk [Arg_Atom a] = Some
    (case find (admitted (st_ebuilds st) (atom_version a) (atom_range a)) xs of
       None \<Rightarrow> (st, Py_None)
     | Some x \<Rightarrow> (with_world (py_xincref x) st, Py_Obj x))"
proof -
  have "\<forall>x \<in> set xs. atom_version_compare (ebuild_ver (st_ebuilds st) x) (atom_version a) \<noteq> None"
    using assms(1,3) components_order.defined by (fastforce simp: package_inv_def ebuild_ver_def)
  then show ?thesis
    using assms(1,2) match_atom_walk_find [of "st_ebuilds st" _ xs "atom_range a" "atom_version a"]
    by (auto simp: package_inv_def PyPackage_match_atom_def split: option.split)
qed


definition atom_of :: "string \<Rightarrow> U32 \<Rightarrow> Atom" where
  "atom_of v rng = PyAtom_new\<lparr>atom_key := Some ''a/b'', atom_version := parse_version v, atom_range := rng\<rparr>"

lemma atom_of_simps [simp]: "atom_version (atom_of v rng) = parse_version v"
    "atom_range (atom_of v rng) = rng" "atom_key (atom_of v rng) = Some ''a/b''"
  by (simp_all add: atom_of_def)

lemma demo_compare:
  "\<exists>c. atom_version_compare (parse_version ''1.2'') (parse_version ''1.1'') = Some c \<and> c > 0"
  "\<exists>c. atom_version_compare (parse_version ''1.0'') (parse_version ''1.1'') = Some c \<and> c < 0"
  "\<exists>c. atom_version_compare (parse_version ''1.2'') (parse_version ''1.0'') = Some c \<and> c > 0"
  "atom_version_compare (parse_version ''1.0'') (parse_version ''1.0'') = Some 0"
  using compare_component_chain [OF demo_chain(3,2)] compare_component_chain [OF demo_chain(1,2)]
    compare_component_chain [OF demo_chain(3,1)] compare_component_chain [OF demo_chain(1,1)]
  by (auto simp: linorder_not_less order.order_iff_strict)


text \<open>C40. For a range that admits equal versions only (\<open>=\<close> or \<open>~\<close>) the walk gives up at the first
  ebuild that is newer than the atom, so an ebuild of exactly that version is not found unless no
  newer ebuild stands in front of it, although \<open>atom_matches\<close> accepts it: the short circuit, meant
  for ebuilds that are too old, tests the wrong sign.\<close>

theorem match_atom_misses_exact:
  assumes inv: "package_inv st pk (x # xs)"
    and rng: "\<not> has_flag (atom_range a) ATOM_VERSION_L" "\<not> has_flag (atom_range a) ATOM_VERSION_G"
      "has_flag (atom_range a) ATOM_VERSION_E"
    and newer: "atom_version_compare (ebuild_ver (st_ebuilds st) x) (atom_version a) = Some c" "c > 0"
    and y: "y \<in> set xs" "st_ebuilds st y = Some eb" "eb_package_key eb = atom_key a" "atom_key a \<noteq> None"
      "atom_version_compare (atom_version a) (eb_version eb) = Some 0"
  shows "PyPackage_match_atom st pk [Arg_Atom a] = Some (st, Py_None)
    \<and> PyAtom_matches st a [Arg_Ebuild y] = Some Py_True"
proof -
  obtain pkg where pkg: "st_packages st pk = Some pkg" "older_seg (st_ebuilds st) (pkg_ebuilds pkg) (x # xs) 0"
    using inv by (auto simp: package_inv_def)
  then have "match_atom_walk (st_ebuilds st) (atom_version a) (atom_range a) (pkg_ebuilds pkg) = Some None"
    using newer rng(1,2) by (subst match_atom_walk.simps) (auto simp: ebuild_ver_def range_admits_def)
  then have "PyPackage_match_atom st pk [Arg_Atom a] = Some (st, Py_None)"
    using pkg(1) by (simp add: PyPackage_match_atom_def)
  moreover have "PyAtom_matches st a [Arg_Ebuild y] = Some Py_True"
    using y rng(3) by (auto simp: PyAtom_matches_def atom_matches_def has_flag_def)
  ultimately show ?thesis by blast
qed

lemma match_atom_misses_exact_witness:
  "PyPackage_match_atom demo_store 5 [Arg_Atom (atom_of ''1.0'' ATOM_VERSION_E)] = Some (demo_store, Py_None)
    \<and> PyAtom_matches demo_store (atom_of ''1.0'' ATOM_VERSION_E) [Arg_Ebuild 20] = Some Py_True"
proof -
  obtain c where "atom_version_compare (parse_version ''1.2'') (parse_version ''1.0'') = Some c" "c > 0"
    using demo_compare(3) by blast
  then show ?thesis
    using match_atom_misses_exact [OF demo_package, of "atom_of ''1.0'' ATOM_VERSION_E" c 20
        "ebuild_of ''1.0'' 5 0"] demo_compare(4)
    by (simp add: ebuild_ver_def demo_store_def ebuild_of_def has_flag_def range_consts)
qed

text \<open>\<open>atom_matches\<close> and the lookup agree on which ebuilds a range admits: seen from the atom
  or from the ebuild, for the atom's own package the answer is the same, and an ebuild of another
  package never matches.\<close>

theorem atom_matches_admits:
  assumes "well_formed (atom_version a)" "well_formed (eb_version eb)"
    and "atom_key a = Some k" "eb_package_key eb = Some k2"
  shows "\<exists>r c. atom_matches a eb = Some r \<and> atom_version_compare (eb_version eb) (atom_version a) = Some c
    \<and> (r \<noteq> 0 \<longleftrightarrow> k = k2 \<and> range_admits (atom_range a) c)"
proof -
  obtain c d where c: "atom_version_compare (eb_version eb) (atom_version a) = Some c"
      "atom_version_compare (atom_version a) (eb_version eb) = Some d"
    using components_order.defined [OF assms(1,2)] components_order.defined [OF assms(2,1)] by blast
  then have "0 < c \<longleftrightarrow> d < 0" "0 < d \<longleftrightarrow> c < 0"
    using components_order.swap assms(1,2) by blast+
  then show ?thesis
    using c assms(3,4) by (auto simp: atom_matches_def range_admits_def has_flag_def)
qed

lemma atom_matches_admits_witness:
  "\<exists>r. atom_matches (atom_of ''1.1'' ATOM_VERSION_G) (ebuild_of ''1.2'' 0 0) = Some r \<and> r \<noteq> 0"
proof -
  have "range_admits ATOM_VERSION_G c" if "c > 0" for c
    using that by (simp add: range_admits_def has_flag_def range_consts)
  then show ?thesis
    using atom_matches_admits [of "atom_of ''1.1'' ATOM_VERSION_G" "ebuild_of ''1.2'' 0 0" "''a/b''" "''a/b''"]
      demo_well_formed demo_compare(1) by (auto simp: ebuild_of_def)
qed

section \<open>Iteration does not advance\<close>

text \<open>A Python loop over a package with at least two ebuilds never sees the newest one and
  never ends: the iterator is the newest ebuild itself, \<open>PyEbuild_next\<close> returns the ebuild behind
  it each time, and so any number of steps yields that same ebuild.\<close>

theorem package_iteration_stuck:
  assumes "package_inv st pk (x # y # xs)"
  shows "\<exists>st'. PyPackage_iter st pk = Some (st', Py_Obj x) \<and> iterate n st' x = Some (replicate n y)"
proof -
  obtain pkg eb where pkg: "st_packages st pk = Some pkg" "pkg_ebuilds pkg = x" "x \<noteq> 0"
      and eb: "st_ebuilds st x = Some eb" "eb_older eb = y" "y \<noteq> 0"
    using assms by (auto simp: package_inv_def)
  have "iterate n st' x = Some (replicate n y)" if "st_ebuilds st' = st_ebuilds st" for st'
    using that
  proof (induction n arbitrary: st')
    case (Suc n)
    then show ?case
      using eb by (simp add: PyEbuild_next_def with_world_def)
  qed simp
  then show ?thesis
    using pkg by (simp add: PyPackage_iter_def with_world_def)
qed

lemma package_iteration_stuck_witness:
  "\<exists>st'. PyPackage_iter demo_store 5 = Some (st', Py_Obj 10) \<and> iterate 3 st' 10 = Some [20, 20, 20]"
  using package_iteration_stuck [OF demo_package, of 3] by (simp add: numeral_eq_Suc)

end
