(* ===== verification/Use.thy ===== *)
theory Use
  imports Atom
begin

text \<open>
  Use flags of autogentoo/cportage/use.c and the nodes of dependency.c: \<open>use_get_global\<close> gives every
  use flag name one id in the table of global flags, creating a disabled flag object on first use,
  and the builders make the nodes of required-use and dependency expressions around those ids. A
  chain of nodes is a list. The lemmas show that ids are given once, stay, and are told apart, and
  that the table is the only owner of the flag objects.
\<close>

section \<open>Flags and expression nodes\<close>

datatype use_operator =
  USE_OP_DISABLE | USE_OP_ENABLE | USE_OP_LEAST_ONE | USE_OP_EXACT_ONE | USE_OP_MOST_ONE

datatype use_state = USE_STATE_DISABLED | USE_STATE_ENABLED

record UseFlag =
  use_name :: "string option"
  use_state_of :: use_state

datatype RequiredUse = RequiredUse (ru_name: "string option") (ru_global_flag: U64)
  (ru_option: use_operator) (ru_depend: "RequiredUse list")

datatype Dependency = Dependency (dep_use_operator: use_operator) (dep_use_condition: U64)
  (dep_atom: "Atom option") (dep_children: "Dependency list")

text \<open>The table of global flags, the flag objects by address, and the world.\<close>

record flag_store =
  fl_table :: LUT
  fl_objs :: "U64 \<rightharpoonup> UseFlag"
  fl_world :: world

definition PyUseFlag_new :: UseFlag where
  "PyUseFlag_new = \<lparr>use_name = None, use_state_of = USE_STATE_DISABLED\<rparr>"

definition use_flag_init :: "UseFlag \<Rightarrow> string \<Rightarrow> use_state \<Rightarrow> UseFlag" where
  "use_flag_init self name state = self\<lparr>use_name := Some name, use_state_of := state\<rparr>"

text \<open>\<open>new_flag\<close> is the address the allocator returns; the creator's own reference, with which an
  object starts, is given back in the end.\<close>

definition use_get_global :: "flag_store \<Rightarrow> U64 \<Rightarrow> string option \<Rightarrow> (flag_store \<times> U64) option" where
  "use_get_global parent new_flag useflag =
     (case useflag of
        None \<Rightarrow> Some (parent, 0)
      | Some name \<Rightarrow>
          do { (out, flag) \<leftarrow> lut_get_id (fl_table parent) name;
               if has_flag flag LUT_FLAG_NOT_FOUND
               then do {
                 (table, w) \<leftarrow> lut_insert_id (fl_table parent) (fl_world parent) name new_flag out
                                 (flag OR LUT_FLAG_PYTHON);
                 Some (parent\<lparr>fl_table := table,
                   fl_objs := (fl_objs parent)(new_flag \<mapsto>
                     use_flag_init PyUseFlag_new name USE_STATE_DISABLED),
                   fl_world := py_xdecref new_flag w\<rparr>, out) }
               else Some (parent, out) })"

definition use_build_required_use ::
    "flag_store \<Rightarrow> U64 \<Rightarrow> string option \<Rightarrow> use_operator \<Rightarrow> (flag_store \<times> RequiredUse) option" where
  "use_build_required_use parent new_flag target opt =
     do { (parent, i) \<leftarrow> use_get_global parent new_flag target;
          Some (parent, RequiredUse target i opt []) }"

definition PyDependency_new :: Dependency where
  "PyDependency_new = Dependency USE_OP_DISABLE 0 None []"

definition dependency_build_atom :: "Atom \<Rightarrow> Dependency" where
  "dependency_build_atom atom =
     Dependency (dep_use_operator PyDependency_new) (dep_use_condition PyDependency_new) (Some atom) []"

definition dependency_build_grouping :: "Dependency list \<Rightarrow> Dependency" where
  "dependency_build_grouping children =
     Dependency (dep_use_operator PyDependency_new) (dep_use_condition PyDependency_new) None children"

definition dependency_build_use ::
    "flag_store \<Rightarrow> U64 \<Rightarrow> string option \<Rightarrow> use_operator \<Rightarrow> Dependency list
      \<Rightarrow> (flag_store \<times> Dependency) option" where
  "dependency_build_use parent new_flag use_flag type children =
     do { (parent, i) \<leftarrow> (case use_flag of
            None \<Rightarrow> Some (parent, 0)
          | Some name \<Rightarrow> use_get_global parent new_flag (Some name));
          Some (parent, Dependency type i (dep_atom PyDependency_new) children) }"

text \<open>The iterator protocol of both node types is the one of a flag chain.\<close>

definition PyDependency_iter :: "Dependency list \<Rightarrow> Dependency list" where
  "PyDependency_iter self = self"

fun PyDependency_next :: "Dependency list \<Rightarrow> (Dependency \<times> Dependency list) option" where
  "PyDependency_next (out # next) = Some (out, next)"
| "PyDependency_next [] = None"

definition PyRequiredUse_iter :: "RequiredUse list \<Rightarrow> RequiredUse list" where
  "PyRequiredUse_iter self = self"

fun PyRequiredUse_next :: "RequiredUse list \<Rightarrow> (RequiredUse \<times> RequiredUse list) option" where
  "PyRequiredUse_next (out # next) = Some (out, next)"
| "PyRequiredUse_next [] = None"

section \<open>Registered flags\<close>

text \<open>The table is well formed, holds Python objects, and the object of every flag in it carries
  the name of the flag.\<close>

definition flags_inv :: "flag_store \<Rightarrow> bool" where
  "flags_inv p \<longleftrightarrow> lut_inv (fl_table p) \<and> lut_python (fl_table p)
     \<and> (\<forall>k i d. lut_map (fl_table p) k = Some (i, d) \<longrightarrow>
          (\<exists>f. fl_objs p d = Some f \<and> use_name f = Some k))"

text \<open>Registering a new name inserts it in the table.\<close>

lemma use_get_global_new:
  assumes inv: "lut_inv (fl_table p)" "lut_map (fl_table p) name = None"
  shows "use_get_global p d (Some name) =
    map_option (\<lambda>(t, w, i). (p\<lparr>fl_table := t,
        fl_objs := (fl_objs p)(d \<mapsto> use_flag_init PyUseFlag_new name USE_STATE_DISABLED),
        fl_world := py_xdecref d w\<rparr>, i))
      (lut_insert (fl_table p) (fl_world p) name d LUT_FLAG_PYTHON)"
  using lut_get_id_missing [OF inv]
  by (simp add: use_get_global_def lut_insert_def map_option_bind split_def comp_def)

lemma use_get_global_known:
  assumes "lut_inv (fl_table p)" "lut_map (fl_table p) name = Some (i, d')"
  shows "use_get_global p d (Some name) = Some (p, i)"
  using lut_get_id_found [OF assms] by (simp add: use_get_global_def)

lemma python_ready: "lut_room l \<Longrightarrow> lut_python l \<Longrightarrow> lut_ready l LUT_FLAG_PYTHON"
  by (simp add: lut_ready_def lut_python_plain caller_python)

lemma lut_python_insert:
  assumes "lut_inv l" "lut_room l" "lut_python l" "lut_map l k = None"
  shows "\<exists>l' i. lut_insert l w k d LUT_FLAG_PYTHON = Some (l', py_xincref d w, i) \<and> lut_inv l'
    \<and> lut_python l' \<and> lut_map l' = (lut_map l)(k \<mapsto> (i, d))
    \<and> mset (map node_data (lut_nodes l')) = add_mset d (mset (map node_data (lut_nodes l)))"
proof -
  let ?i = "lut_make_id (hash_str k) (word_of_nat (length (lut_chain l (hash_str k))))"
  let ?nd = "\<lparr>node_id = ?i, node_key = k, node_data = d, node_flags = LUT_FLAG_NOT_FOUND OR LUT_FLAG_PYTHON\<rparr>"
  obtain l' where l': "lut_insert l w k d LUT_FLAG_PYTHON = Some (l', plain_acquire LUT_FLAG_PYTHON d w, ?i)"
      "lut_inv l'" "mset (lut_nodes l') = add_mset ?nd (mset (lut_nodes l))"
      "lut_map l' = (lut_map l)(k \<mapsto> (?i, d))"
    using lut_insert_new [OF assms(1,2) lut_python_plain [OF assms(3)] caller_python assms(4), of w d] by blast
  have "set (lut_nodes l') = insert ?nd (set (lut_nodes l))"
    using arg_cong [OF l'(3), of set_mset] by simp
  then have "lut_python l'"
    using assms(3) by (simp add: lut_python_def has_flag_or)
  moreover have "mset (map node_data (lut_nodes l')) = add_mset d (mset (map node_data (lut_nodes l)))"
    using arg_cong [OF l'(3), of "image_mset node_data"] by simp
  ultimately show ?thesis
    using l' by (auto simp: plain_acquire_def)
qed

text \<open>The store after a name was registered for the first time.\<close>

definition flag_added :: "flag_store \<Rightarrow> LUT \<Rightarrow> U64 \<Rightarrow> string \<Rightarrow> flag_store" where
  "flag_added p l d name = p\<lparr>fl_table := l,
     fl_objs := (fl_objs p)(d \<mapsto> use_flag_init PyUseFlag_new name USE_STATE_DISABLED),
     fl_world := py_xdecref d (py_xincref d (fl_world p))\<rparr>"

lemma use_get_global_adds:
  assumes inv: "flags_inv p" and room: "lut_room (fl_table p)" and d: "fl_objs p d = None"
    and new: "lut_map (fl_table p) name = None"
  obtains l i where "lut_insert (fl_table p) (fl_world p) name d LUT_FLAG_PYTHON
      = Some (l, py_xincref d (fl_world p), i)"
    "lut_inv l" "lut_map l = (lut_map (fl_table p))(name \<mapsto> (i, d))"
    "mset (map node_data (lut_nodes l)) = add_mset d (mset (map node_data (lut_nodes (fl_table p))))"
    "use_get_global p d (Some name) = Some (flag_added p l d name, i)" "flags_inv (flag_added p l d name)"
proof -
  have table: "lut_inv (fl_table p)" "lut_python (fl_table p)"
      and objs: "\<And>k i x. lut_map (fl_table p) k = Some (i, x) \<Longrightarrow> \<exists>f. fl_objs p x = Some f \<and> use_name f = Some k"
    using inv by (auto simp: flags_inv_def)
  obtain l i where l: "lut_insert (fl_table p) (fl_world p) name d LUT_FLAG_PYTHON
        = Some (l, py_xincref d (fl_world p), i)" "lut_inv l" "lut_python l"
      "lut_map l = (lut_map (fl_table p))(name \<mapsto> (i, d))"
      "mset (map node_data (lut_nodes l)) = add_mset d (mset (map node_data (lut_nodes (fl_table p))))"
    using lut_python_insert [OF table(1) room table(2) new] by blast
  let ?p = "flag_added p l d name"
  have "\<exists>g. fl_objs ?p x = Some g \<and> use_name g = Some k" if "lut_map l k = Some (j, x)" for k j x
  proof (cases "k = name")
    case True
    then show ?thesis using that l(4) by (simp add: flag_added_def use_flag_init_def)
  next
    case False
    then have "lut_map (fl_table p) k = Some (j, x)" using that l(4) by simp
    then show ?thesis using objs [of k j x] d by (cases "x = d") (auto simp: flag_added_def)
  qed
  then have "flags_inv ?p"
    using l(2,3) by (simp add: flags_inv_def) (simp add: flag_added_def)
  moreover have "use_get_global p d (Some name) = Some (?p, i)"
    using use_get_global_new [OF table(1) new] l(1) by (simp add: flag_added_def)
  ultimately show ?thesis
    using that l by blast
qed

text \<open>C34. \<open>use_get_global\<close> gives a flag name one id for good. The id reads back an object that
  carries the name; asking again for the name gives the same id and changes nothing; every other
  known name keeps its own, different, id. A name seen for the first time gets a disabled flag
  object whose only reference is the one of the table.\<close>

theorem use_get_global_once:
  assumes inv: "flags_inv p" and room: "lut_room (fl_table p)" and d: "fl_objs p d = None"
  shows "\<exists>p' i x f. use_get_global p d (Some name) = Some (p', i) \<and> flags_inv p'
    \<and> lut_get (fl_table p') i = Some x \<and> fl_objs p' x = Some f \<and> use_name f = Some name
    \<and> (\<forall>d2. use_get_global p' d2 (Some name) = Some (p', i))
    \<and> (\<forall>n2 i2 d2. n2 \<noteq> name \<and> lut_map (fl_table p) n2 = Some (i2, d2) \<longrightarrow>
         i2 \<noteq> i \<and> lut_map (fl_table p') n2 = Some (i2, d2))
    \<and> (lut_map (fl_table p) name = None \<longrightarrow> x = d \<and> use_state_of f = USE_STATE_DISABLED
         \<and> 1 + py_balance (fl_world p') d - py_balance (fl_world p) d = int (lut_held (fl_table p') d))"
proof -
  have table: "lut_inv (fl_table p)" "lut_python (fl_table p)"
      and objs: "\<And>k i x. lut_map (fl_table p) k = Some (i, x) \<Longrightarrow> \<exists>f. fl_objs p x = Some f \<and> use_name f = Some k"
    using inv by (auto simp: flags_inv_def)
  show ?thesis
  proof (cases "lut_map (fl_table p) name")
    case None
    obtain l' i where l': "lut_insert (fl_table p) (fl_world p) name d LUT_FLAG_PYTHON
          = Some (l', py_xincref d (fl_world p), i)" "lut_inv l'"
        "lut_map l' = (lut_map (fl_table p))(name \<mapsto> (i, d))"
        "mset (map node_data (lut_nodes l')) = add_mset d (mset (map node_data (lut_nodes (fl_table p))))"
        "use_get_global p d (Some name) = Some (flag_added p l' d name, i)" "flags_inv (flag_added p l' d name)"
      by (rule use_get_global_adds [OF inv room d None])
    let ?f = "use_flag_init PyUseFlag_new name USE_STATE_DISABLED"
    let ?p = "flag_added p l' d name"
    have bound: "lut_map l' name = Some (i, d)" using l'(3) by simp
    have "lut_map (fl_table p) k \<noteq> Some (j, d)" for k j
      using objs [of k j d] d by auto
    then have "lut_held (fl_table p) d = 0"
      by (force simp: lut_held_def count_eq_zero_iff lut_map_Some [OF table(1)])
    then have held: "lut_held l' d = 1"
      using l'(4) by (simp add: lut_held_def flip: mset_map)
    have "use_get_global ?p d2 (Some name) = Some (?p, i)" for d2
      using use_get_global_known [of ?p name i d] l'(2) bound by (simp add: flag_added_def)
    moreover have "i2 \<noteq> i \<and> lut_map l' n2 = Some (i2, d2)"
      if "n2 \<noteq> name \<and> lut_map (fl_table p) n2 = Some (i2, d2)" for n2 i2 d2
    proof -
      have m: "lut_map l' n2 = Some (i2, d2)" using that l'(3) by simp
      have "n2 = name" if "i2 = i"
        using lut_ids.unique_id [OF l'(2), of n2 i d2 name d] m bound that by blast
      then show ?thesis using that m by blast
    qed
    ultimately show ?thesis
      using lut_ids.get_bound [OF l'(2) bound] held l'(5,6)
      by (intro exI [of _ ?p] exI [of _ i] exI [of _ d] exI [of _ ?f])
        (simp add: flag_added_def use_flag_init_def PyUseFlag_new_def)
  next
    case (Some q)
    then obtain i x where known: "lut_map (fl_table p) name = Some (i, x)" by (cases q) auto
    obtain f where "fl_objs p x = Some f" "use_name f = Some name"
      using objs [OF known] by blast
    moreover have "i2 \<noteq> i" if "n2 \<noteq> name \<and> lut_map (fl_table p) n2 = Some (i2, d2)" for n2 i2 d2
      using that lut_ids.unique_id [OF table(1), of n2 i d2 name x] known by blast
    ultimately show ?thesis
      using use_get_global_known [OF table(1) known] lut_ids.get_bound [OF table(1) known] inv known
      by (intro exI [of _ p] exI [of _ i] exI [of _ x] exI [of _ f]) simp
  qed
qed

definition empty_flags :: flag_store where
  "empty_flags = \<lparr>fl_table = lut_new 256, fl_objs = Map.empty, fl_world = no_world\<rparr>"

lemma empty_flags_inv: "flags_inv empty_flags"
  by (simp add: flags_inv_def empty_flags_def lut_new_inv lut_python_def lut_nodes_new lut_new_map)

lemma use_get_global_once_witness:
  "\<exists>p' i. use_get_global empty_flags 64 (Some ''ssl'') = Some (p', i)
    \<and> use_get_global p' 128 (Some ''ssl'') = Some (p', i)"
  using use_get_global_once [OF empty_flags_inv, of 64 "''ssl''"] lut_new_room [of 256]
  by (auto simp: empty_flags_def)

end
