(* ===== verification/LutSize.thy ===== *)
theory LutSize
  imports Lut
begin

text \<open>
  The size of the lookup table of autogentoo/hacksaw/lut.c. The fill level that triggers a
  reallocation is the double 0.7 times the size, truncated. The lemmas bound the rounding of that
  product, and show that the table is never more than three quarters full and never grows past
  six times the entries it holds, so that a table with few entries never runs out of room.
\<close>

section \<open>Rounding\<close>

lemma bit_length_bounds: "n \<noteq> 0 \<Longrightarrow> 2 ^ (bit_length n - 1) \<le> n \<and> n < 2 ^ bit_length n"
proof (induction n rule: bit_length.induct)
  case (1 n)
  show ?case
  proof (cases "n div 2 = 0")
    case True
    then show ?thesis using 1(2) by (auto simp: bit_length.simps)
  next
    case False
    then have ih: "n < 2 * 2 ^ bit_length (n div 2)" "2 ^ (bit_length (n div 2) - 1) \<le> n div 2"
      using 1(1) [OF 1(2)] by auto
    obtain b where b: "bit_length (n div 2) = Suc b"
      using False by (simp add: bit_length.simps [of "n div 2"])
    then have "bit_length n = Suc (Suc b)"
      using 1(2) by (simp add: bit_length.simps [of n])
    then show ?thesis
      using ih b by simp
  qed
qed

lemma bit_length_small: "n < 2 ^ b \<Longrightarrow> bit_length n \<le> b"
proof (rule ccontr)
  assume n: "n < 2 ^ b" and "\<not> bit_length n \<le> b"
  then have b: "b \<le> bit_length n - 1" "n \<noteq> 0"
    by (auto simp: bit_length.simps split: if_splits)
  then have "2 ^ b \<le> (2 :: nat) ^ (bit_length n - 1)"
    by simp
  then show False
    using bit_length_bounds [OF b(2)] n by linarith
qed

text \<open>The result of rounding is off by less than one part in \<open>2 ^ 52\<close>.\<close>

lemma round53_near:
  shows "round53 n * 2 ^ 52 \<le> n * (2 ^ 52 + 1)" and "n * 2 ^ 52 \<le> round53 n * 2 ^ 52 + n"
proof -
  have "round53 n * 2 ^ 52 \<le> n * 2 ^ 52 + n \<and> n * 2 ^ 52 \<le> round53 n * 2 ^ 52 + n"
  proof (cases "bit_length n \<le> 53")
    case False
    define k where "k = bit_length n - 53"
    have "n \<noteq> 0"
    proof
      assume "n = 0"
      then show False using False by (simp add: bit_length.simps)
    qed
    moreover have "bit_length n - 1 = k + 52" using False by (simp add: k_def)
    ultimately have unit: "2 ^ k * 2 ^ 52 \<le> n"
      using conjunct1 [OF bit_length_bounds [OF \<open>n \<noteq> 0\<close>]] by (simp only: power_add)
    have n: "n div 2 ^ k * 2 ^ k + n mod 2 ^ k = n" by (rule div_mult_mod_eq)
    have "n mod 2 ^ k < 2 ^ k" by simp
    moreover have "round53 n = n div 2 ^ k * 2 ^ k \<or> round53 n = n div 2 ^ k * 2 ^ k + 2 ^ k"
      using False by (simp add: round53_def k_def Let_def)
    ultimately have "round53 n \<le> n + 2 ^ k" "n \<le> round53 n + 2 ^ k"
      using n by linarith+
    then have "round53 n * 2 ^ 52 \<le> (n + 2 ^ k) * 2 ^ 52" "n * 2 ^ 52 \<le> (round53 n + 2 ^ k) * 2 ^ 52"
      by (simp_all only: mult_le_mono1)
    then show ?thesis
      using unit by (simp only: add_mult_distrib) linarith
  qed (simp add: round53_def)
  then show "round53 n * 2 ^ 52 \<le> n * (2 ^ 52 + 1)" "n * 2 ^ 52 \<le> round53 n * 2 ^ 52 + n"
    by simp_all
qed

text \<open>The threshold lies between two thirds and three quarters of the size.\<close>

lemma threshold_bounds:
  assumes "unat s < 2 ^ 53"
  defines "t \<equiv> unat (f64_mul_u64 LUT_THRESHOLD s)"
  shows "4 * t \<le> 3 * unat s" and "2 * unat s \<le> 3 * (t + 1)"
proof -
  define R where "R = round53 (6305039478318694 * unat s)"
  have s: "round53 (unat s) = unat s"
    using bit_length_small [OF assms(1)] by (simp add: round53_def)
  note near = round53_near [of "6305039478318694 * unat s", folded R_def]
  have T: "R div 2 ^ 53 * 2 ^ 53 \<le> R" "R < (R div 2 ^ 53 + 1) * 2 ^ 53"
    using div_mult_mod_eq [of R "2 ^ 53"] mod_less_divisor [of "2 ^ 53" R]
    by (simp_all add: add_mult_distrib del: mod_less_divisor)
  have up: "4 * (R div 2 ^ 53) \<le> 3 * unat s"
    using near(1) T(1) by simp
  have low: "2 * unat s \<le> 3 * (R div 2 ^ 53 + 1)"
    using near(2) T(2) by simp
  have "R div 2 ^ 53 < 2 ^ 64"
    using up assms(1) by simp
  then have "t = R div 2 ^ 53"
    by (simp add: t_def f64_mul_u64_def LUT_THRESHOLD_def s R_def unat_of_nat)
  then show "4 * t \<le> 3 * unat s" "2 * unat s \<le> 3 * (t + 1)"
    using up low by simp_all
qed

section \<open>Growth\<close>

lemma unat_ucast32: "unat (ucast (x :: U32) :: U64) = unat x"
  by transfer (simp add: take_bit_take_bit)

text \<open>A table that started with \<open>m\<close> buckets.\<close>

definition lut_sized :: "nat \<Rightarrow> LUT \<Rightarrow> bool" where
  "lut_sized m l \<longleftrightarrow> lut_realloc_at l = f64_mul_u64 LUT_THRESHOLD (lut_size l)
     \<and> 4 * length (lut_nodes l) \<le> 3 * unat (lut_size l)
     \<and> unat (lut_size l) \<le> max m (6 * (length (lut_nodes l) + 2))"

lemma lut_place_size:
  "lut_place l nd = Some l' \<Longrightarrow> lut_size l' = lut_size l \<and> lut_realloc_at l' = lut_realloc_at l"
  by (auto simp: lut_place_def split: bind_splits)

lemma lut_place_all_size:
  "lut_place_all l nds = Some l' \<Longrightarrow> lut_size l' = lut_size l \<and> lut_realloc_at l' = lut_realloc_at l"
  by (induction nds arbitrary: l) (auto split: bind_splits dest!: lut_place_size)

lemma lut_realloc_loop_size:
  "lut_realloc_loop l t n = Some l' \<Longrightarrow> lut_size l' = lut_size l \<and> lut_realloc_at l' = lut_realloc_at l"
  by (induction t arbitrary: l) (auto split: bind_splits if_splits dest!: lut_place_all_size)

lemma lut_grow_size:
  assumes "lut_grow l = Some l'"
  shows "if lut_realloc_at l \<le> ucast (lut_n l + 1)
    then lut_size l' = lut_size l * 4 \<and> lut_realloc_at l' = f64_mul_u64 LUT_THRESHOLD (lut_size l * 4)
    else l' = l"
  using assms
  by (auto simp: lut_grow_def lut_realloc_def Let_def split: bind_splits if_splits
      dest!: lut_realloc_loop_size)

lemma lut_insert_id_size:
  assumes "lut_insert_id l w k d i f = Some (l', w')"
  shows "if lut_realloc_at l \<le> ucast (lut_n l + 1)
    then lut_size l' = lut_size l * 4 \<and> lut_realloc_at l' = f64_mul_u64 LUT_THRESHOLD (lut_size l * 4)
    else lut_size l' = lut_size l \<and> lut_realloc_at l' = lut_realloc_at l"
proof -
  obtain g where g: "lut_grow l = Some g" "lut_size l' = lut_size g \<and> lut_realloc_at l' = lut_realloc_at g"
    using assms by (auto simp: lut_insert_id_grow Let_def split: bind_splits if_splits prod.splits)
  show ?thesis
    using lut_grow_size [OF g(1)] g(2) by (auto split: if_splits)
qed

text \<open>The entries of a table are the keys of its map.\<close>

lemma lut_count: "lut_inv l \<Longrightarrow> card (dom (lut_map l)) = length (lut_nodes l)"
proof -
  assume "lut_inv l"
  then have "distinct (map node_key (lut_nodes l))"
    by (simp add: lut_inv_def)
  moreover have "dom (lut_map l) = set (map node_key (lut_nodes l))"
    by (simp add: lut_map_def dom_map_of_conv_image_fst image_image)
  ultimately show ?thesis
    by (metis distinct_card length_map)
qed

lemma lut_room_sized:
  assumes "lut_inv l" "lut_sized m l" "m < 2 ^ 50" "card (dom (lut_map l)) < 2 ^ 16"
  shows "lut_room l"
proof -
  have "length (lut_chain l h) \<le> length (lut_nodes l)" for h
    by (simp add: lut_chain_def)
  then have "length (lut_chain l h) < 2 ^ 16" for h
    using assms(4) lut_count [OF assms(1)] by (metis le_less_trans)
  then show ?thesis
    using assms lut_count [OF assms(1)] by (simp add: lut_room_def lut_sized_def max_def split: if_splits)
qed

lemma lut_new_sized: "unat m < 2 ^ 53 \<Longrightarrow> lut_sized (unat m) (lut_new m)"
  by (simp add: lut_sized_def lut_nodes_new) (simp add: lut_new_def)

lemma lut_insert_sized:
  assumes inv: "lut_inv l" and sized: "lut_sized m l" "m < 2 ^ 50" and few: "card (dom (lut_map l)) < 2 ^ 16"
    and ins: "lut_insert l w k d f = Some (l', w', i)"
    and inv': "lut_inv l'" and map: "lut_map l' = (lut_map l)(k \<mapsto> (i, d))"
  shows "lut_sized m l'"
proof -
  obtain i' f' where id: "lut_insert_id l w k d i' f' = Some (l', w')"
    using ins by (auto simp: lut_insert_def split: bind_splits prod.splits)
  note size = lut_insert_id_size [OF id]
  let ?n = "length (lut_nodes l)"
  have fin: "finite (dom (lut_map l))"
    by (simp add: lut_map_def finite_dom_map_of)
  have "length (lut_nodes l') = (if k \<in> dom (lut_map l) then ?n else Suc ?n)"
    using lut_count [OF inv'] card_insert_if [OF fin, of k] lut_count [OF inv] by (simp add: map split: if_splits)
  then have n: "?n < 2 ^ 16" "?n \<le> length (lut_nodes l')" "length (lut_nodes l') \<le> ?n + 1"
    using few lut_count [OF inv] by (auto split: if_splits)
  have "lut_n l = word_of_nat ?n"
    using inv by (simp add: lut_inv_def)
  then have "lut_n l + 1 = word_of_nat (?n + 1)"
    by simp
  then have "unat (ucast (lut_n l + 1) :: U64) = ?n + 1"
    using n(1) by (simp add: unat_ucast32 unat_of_nat del: of_nat_Suc of_nat_add)
  then have grows: "lut_realloc_at l \<le> ucast (lut_n l + 1) \<longleftrightarrow> unat (lut_realloc_at l) \<le> ?n + 1"
    by (simp add: word_le_nat_alt)
  have at: "lut_realloc_at l = f64_mul_u64 LUT_THRESHOLD (lut_size l)" "4 * ?n \<le> 3 * unat (lut_size l)"
      "unat (lut_size l) \<le> max m (6 * (?n + 2))"
    using sized by (simp_all add: lut_sized_def)
  have small: "unat (lut_size l) < 2 ^ 50"
    using at(3) sized(2) n(1) by (simp add: max_def split: if_splits)
  have t: "4 * unat (lut_realloc_at l) \<le> 3 * unat (lut_size l)"
      "2 * unat (lut_size l) \<le> 3 * (unat (lut_realloc_at l) + 1)"
    using threshold_bounds [of "lut_size l"] small at(1) by simp_all
  have pos: "0 < unat (lut_size l)"
    using inv by (simp add: lut_inv_def lut_shape_def unat_gt_0)
  show ?thesis
  proof (cases "unat (lut_realloc_at l) \<le> ?n + 1")
    case True
    have "unat (lut_size l * 4) = unat (lut_size l) * 4"
      using small by (simp add: unat_word_ariths)
    moreover have "2 * unat (lut_size l) \<le> 3 * (?n + 2)"
      by (rule order_trans [OF t(2)]) (use True in simp)
    ultimately show ?thesis
      using size True n at(2) pos unfolding grows by (simp add: lut_sized_def)
  next
    case False
    then show ?thesis
      using size n at t(1) unfolding grows by (simp add: lut_sized_def)
  qed
qed

section \<open>The bound\<close>

text \<open>C21. An insertion keeps the table at most three quarters full and, beyond its first size, at
  most six times as large as its entries plus two, however often it grows.\<close>

theorem lut_insert_bounded:
  assumes "lut_inv l" "lut_plain l" "caller_flags f"
    and "lut_sized m l" "m < 2 ^ 50" "card (dom (lut_map l)) < 2 ^ 16"
  shows "\<exists>l' w' i. lut_insert l w k d f = Some (l', w', i)
    \<and> 4 * card (dom (lut_map l')) \<le> 3 * unat (lut_size l')
    \<and> unat (lut_size l') \<le> max m (6 * (card (dom (lut_map l')) + 2))"
proof -
  have room: "lut_room l"
    by (rule lut_room_sized [OF assms(1,4,5,6)])
  obtain l' w' i where l': "lut_insert l w k d f = Some (l', w', i)" "lut_inv l'"
      "lut_map l' = (lut_map l)(k \<mapsto> (i, d))"
    using lut_insert_map [OF assms(1) room assms(2,3)] by blast
  then show ?thesis
    using lut_insert_sized [OF assms(1,4,5,6) l'(1,2,3)] lut_count [OF l'(2)]
    by (simp add: lut_sized_def)
qed

lemma lut_insert_bounded_witness:
  "\<exists>l' w' i. lut_insert (lut_new 4) no_world ''sys-devel/gcc'' 64 LUT_FLAG_PYTHON = Some (l', w', i)
    \<and> unat (lut_size l') \<le> max 4 (6 * (card (dom (lut_map l')) + 2))"
  using lut_insert_bounded [OF lut_new4(1,3) caller_python, of 4 no_world "''sys-devel/gcc''" 64]
    lut_new_sized [of 4] by (auto simp: lut_new_map)

end
