(* ===== verification/Portage.thy ===== *)
theory Portage
  imports Package Use LutSize
begin

text \<open>
  The catalogue of autogentoo/cportage/portage.c: packages found by the id of their key, filled
  from the metadata cache by \<open>initialize_repository\<close>, together with the parts of ebuild.c that do
  not parse dependencies. The operating system is a parameter: what \<open>opendir\<close> and \<open>readdir\<close> list,
  whether \<open>stat\<close> succeeds and sees a directory, and \<open>realpath\<close>; so is the allocator, which returns
  the address of a new object. The lemmas show that registering an ebuild keeps the catalogue
  consistent and that atoms find the newest admitted ebuild through it.
\<close>

section \<open>Ebuilds\<close>

definition PATH_MAX :: nat where "PATH_MAX = 4096"

text \<open>\<open>snprintf\<close> keeps at most \<open>PATH_MAX - 1\<close> characters.\<close>

definition snprintf_path :: "string \<Rightarrow> string" where
  "snprintf_path s = take (PATH_MAX - 1) s"

text \<open>\<open>ebuild_init\<close> takes the fields of the atom it builds from the key; the return code of
  \<open>atom_init\<close> is not looked at, but an atom without a version fails the assert.\<close>

definition ebuild_take_atom :: "Ebuild \<Rightarrow> Atom \<Rightarrow> Ebuild" where
  "ebuild_take_atom self atom =
     self\<lparr>eb_package_id := atom_id atom, eb_package_lut_flags := atom_id_flag atom,
          eb_package_key := atom_key atom, eb_version := atom_version atom, eb_name := atom_name atom,
          eb_category := atom_category atom, eb_slot := atom_slot atom, eb_sub_slot := atom_sub_slot atom\<rparr>"

definition ebuild_init ::
    "(string \<Rightarrow> string option) \<Rightarrow> LUT option \<Rightarrow> Ebuild \<Rightarrow> string option \<Rightarrow> string \<Rightarrow> string \<Rightarrow> string
      \<Rightarrow> (int \<times> py_exc option \<times> Ebuild) option" where
  "ebuild_init realpath global_packages self ebuild_repo_path cache_repo_path category name_and_version =
     (let key = category @ ''/'' @ name_and_version; self = self\<lparr>eb_key := Some key\<rparr> in
      do { (r, atom) \<leftarrow> atom_init global_packages PyAtom_new key;
           let self = ebuild_take_atom self atom;
           if eb_version self = [] then None
           else do {
             (ok, self) \<leftarrow> (case ebuild_repo_path of
                 None \<Rightarrow> Some (True, self\<lparr>eb_ebuild := None\<rparr>)
               | Some path \<Rightarrow>
                   do { package_key \<leftarrow> eb_package_key self; name \<leftarrow> eb_name self;
                        v \<leftarrow> full_version (hd (eb_version self));
                        let file = realpath (snprintf_path
                              (path @ ''/'' @ package_key @ ''/'' @ name @ ''-'' @ v @ ''.ebuild''));
                        Some (file \<noteq> None, self\<lparr>eb_ebuild := file\<rparr>) });
             if \<not> ok then Some (- 1, Some FileNotFoundError, self)
             else (let cache = realpath (snprintf_path (cache_repo_path @ ''/'' @ key));
                       self = self\<lparr>eb_cache_file := cache\<rparr>
                   in if cache = None then Some (- 1, Some FileNotFoundError, self)
                      else Some (0, None, self)) } })"

section \<open>Keywords and use flags of an ebuild\<close>

datatype arch =
  ARCH_AMD64 | ARCH_X86 | ARCH_ARM | ARCH_ARM64 | ARCH_HPPA | ARCH_IA64 | ARCH_PPC | ARCH_PPC64
| ARCH_SPARC

datatype keyword = KEYWORD_BROKEN | KEYWORD_NONE | KEYWORD_UNSTABLE | KEYWORD_STABLE

definition keyword_links :: "(string \<times> arch) list" where
  "keyword_links =
     [(''amd64'', ARCH_AMD64), (''x86'', ARCH_X86), (''arm'', ARCH_ARM), (''arm64'', ARCH_ARM64),
      (''hppa'', ARCH_HPPA), (''ia64'', ARCH_IA64), (''ppc'', ARCH_PPC), (''ppc64'', ARCH_PPC64),
      (''sparc'', ARCH_SPARC)]"

text \<open>The option a token stands for and its target; a token of \<open>strtok\<close> is never empty.\<close>

definition keyword_token :: "string \<Rightarrow> keyword \<times> string" where
  "keyword_token tok =
     (if char_at tok 0 = Some CHR ''~'' then (KEYWORD_UNSTABLE, drop 1 tok)
      else if char_at tok 0 = Some CHR ''-'' then (KEYWORD_BROKEN, drop 1 tok)
      else (KEYWORD_STABLE, tok))"

definition keyword_step :: "(arch \<Rightarrow> keyword) \<Rightarrow> string \<Rightarrow> (arch \<Rightarrow> keyword)" where
  "keyword_step keywords tok =
     (let (opt, target) = keyword_token tok
      in if strcmp target ''**'' = 0 then (\<lambda>_. opt)
         else if strcmp target ''*'' = 0 then (\<lambda>_. opt)
         else case map_of keyword_links target of
                None \<Rightarrow> keywords
              | Some l \<Rightarrow> keywords(l := opt))"

definition ebuild_keyword_init :: "(arch \<Rightarrow> keyword) \<Rightarrow> string \<Rightarrow> (arch \<Rightarrow> keyword)" where
  "ebuild_keyword_init keywords line =
     foldl keyword_step keywords (strtok_all [CHR '' '', CHR 0x0A, CHR 0x09] line)"

text \<open>The dictionary from names to flag objects.\<close>

definition iuse_flag :: "string \<Rightarrow> UseFlag" where
  "iuse_flag token =
     (if char_at token 0 = Some CHR ''+''
      then PyUseFlag_new\<lparr>use_state_of := USE_STATE_ENABLED, use_name := Some (drop 1 token)\<rparr>
      else if char_at token 0 = Some CHR ''-''
      then PyUseFlag_new\<lparr>use_state_of := USE_STATE_DISABLED, use_name := Some (drop 1 token)\<rparr>
      else PyUseFlag_new\<lparr>use_name := Some token\<rparr>)"

definition iuse_step :: "(string \<rightharpoonup> UseFlag) \<Rightarrow> string \<Rightarrow> (string \<rightharpoonup> UseFlag)" where
  "iuse_step iuse token =
     (case use_name (iuse_flag token) of None \<Rightarrow> iuse | Some name \<Rightarrow> iuse(name \<mapsto> iuse_flag token))"

definition ebuild_iuse_init :: "(string \<rightharpoonup> UseFlag) \<Rightarrow> string \<Rightarrow> (string \<rightharpoonup> UseFlag)" where
  "ebuild_iuse_init iuse line = foldl iuse_step iuse (strtok_all '' '' line)"

section \<open>The catalogue\<close>

record Portage =
  global_flags :: LUT
  packages :: LUT

definition PORTAGE_INITIAL_PKG_LUT_SIZE :: U64 where "PORTAGE_INITIAL_PKG_LUT_SIZE = 512"

definition PyPortage_init :: Portage where
  "PyPortage_init = \<lparr>global_flags = lut_new 256, packages = lut_new PORTAGE_INITIAL_PKG_LUT_SIZE\<rparr>"

text \<open>The package is looked up in the global instance; NULL is an unknown id.\<close>

definition PyPortage_get_package :: "Portage \<Rightarrow> store \<Rightarrow> U64 list \<Rightarrow> (store \<times> py_result) option" where
  "PyPortage_get_package global_portage st args =
     (case args of
        [package_id] \<Rightarrow>
          do { package \<leftarrow> lut_get (packages global_portage) package_id;
               Some (if package = 0 then (st, Py_None)
                     else (with_world (py_xincref package) st, Py_Obj package)) }
      | _ \<Rightarrow> Some (st, Py_Raise TypeError))"

definition set_package_id :: "U64 \<Rightarrow> U64 \<Rightarrow> store \<Rightarrow> store" where
  "set_package_id pkg i st = st\<lparr>st_packages :=
     (st_packages st)(pkg := map_option (pkg_package_id_update (\<lambda>_. i)) (st_packages st pkg))\<rparr>"

definition PyPortage_add_package ::
    "Portage \<Rightarrow> store \<Rightarrow> py_arg list \<Rightarrow> (Portage \<times> store \<times> py_result) option" where
  "PyPortage_add_package self st args =
     (case args of
        [Arg_Package p] \<Rightarrow>
          do { pkg \<leftarrow> st_packages st p;
               key \<leftarrow> pkg_key pkg;
               (t, w, i) \<leftarrow> lut_insert (packages self) (st_world st) key p LUT_FLAG_PYTHON;
               Some (self\<lparr>packages := t\<rparr>, set_package_id p i (st\<lparr>st_world := w\<rparr>), Py_None) }
      | _ \<Rightarrow> Some (self, st, Py_Raise TypeError))"

definition PyPortage_match_atom :: "Portage \<Rightarrow> store \<Rightarrow> py_arg list \<Rightarrow> (store \<times> py_result) option" where
  "PyPortage_match_atom self st args =
     (case args of
        [Arg_Atom atom] \<Rightarrow>
          do { pkg \<leftarrow> lut_get (packages self) (atom_id atom);
               if pkg = 0 then Some (st, Py_Raise KeyError)
               else PyPackage_match_atom st pkg args }
      | _ \<Rightarrow> Some (st, Py_Raise TypeError))"

definition PyPortage_get_use_flag :: "Portage \<Rightarrow> store \<Rightarrow> U64 list \<Rightarrow> (store \<times> py_result) option" where
  "PyPortage_get_use_flag self st args =
     (case args of
        [i] \<Rightarrow>
          do { use_flag \<leftarrow> lut_get (global_flags self) i;
               Some (if use_flag = 0 then (st, Py_None)
                     else (with_world (py_xincref use_flag) st, Py_Obj use_flag)) }
      | _ \<Rightarrow> Some (st, Py_Raise TypeError))"

section \<open>Reading the metadata cache\<close>

text \<open>The package an initialised ebuild belongs to: a new one at address \<open>p\<close> when its key was not
  in the table, else the one its id reads.\<close>

definition new_package :: "Ebuild \<Rightarrow> Package option" where
  "new_package ebuild =
     do { package_key \<leftarrow> eb_package_key ebuild;
          cat_split \<leftarrow> strchr package_key CHR ''/'';
          Some (PyPackage_new\<lparr>pkg_package_id := eb_package_id ebuild, pkg_key := Some package_key,
                  pkg_category := Some (take cat_split package_key),
                  pkg_name := Some (drop (cat_split + 1) package_key), pkg_ebuilds := 0\<rparr>) }"

definition package_for ::
    "Portage \<Rightarrow> store \<Rightarrow> U64 \<Rightarrow> Ebuild \<Rightarrow> (Portage \<times> store \<times> U64) option" where
  "package_for self st p ebuild =
     (if has_flag (eb_package_lut_flags ebuild) LUT_FLAG_NOT_FOUND
      then do { pkg \<leftarrow> new_package ebuild;
                key \<leftarrow> pkg_key pkg;
                (t, w) \<leftarrow> lut_insert_id (packages self) (st_world st) key p (pkg_package_id pkg)
                            (LUT_FLAG_NOT_FOUND OR LUT_FLAG_PYTHON);
                Some (self\<lparr>packages := t\<rparr>,
                  st\<lparr>st_packages := (st_packages st)(p \<mapsto> pkg), st_world := py_xdecref p w\<rparr>, p) }
      else do { pkg \<leftarrow> lut_get (packages self) (eb_package_id ebuild);
                Some (self, st, pkg) })"

text \<open>One file of the cache. \<open>e\<close> and \<open>p\<close> are the addresses of the new objects. The result of
  \<open>add_ebuild\<close> is not looked at.\<close>

definition register_ebuild ::
    "(string \<Rightarrow> string option) \<Rightarrow> string option \<Rightarrow> string \<Rightarrow> Portage \<Rightarrow> store \<Rightarrow> U64 \<Rightarrow> U64 \<Rightarrow> string \<Rightarrow> string
      \<Rightarrow> (Portage \<times> store \<times> py_exc option) option" where
  "register_ebuild realpath ebuild_path cache_path self st e p category name_and_value =
     do { (r, _, ebuild) \<leftarrow> ebuild_init realpath (Some (packages self)) PyEbuild_new ebuild_path
            cache_path category name_and_value;
          if r \<noteq> 0 then Some (self, with_world (py_xdecref e) st, Some RuntimeError)
          else do {
            let st = st\<lparr>st_ebuilds := (st_ebuilds st)(e \<mapsto> ebuild)\<rparr>;
            (self, st, pkg) \<leftarrow> package_for self st p ebuild;
            if pkg = 0 then Some (self, st, Some SystemError)
            else do { (st, _) \<leftarrow> PyPackage_add_ebuild st pkg [Arg_Ebuild e];
                      Some (self, with_world (py_xdecref e) st, None) } } }"

section \<open>The last keyword decides\<close>

definition keyword_names :: "arch \<Rightarrow> string \<Rightarrow> bool" where
  "keyword_names a tok \<longleftrightarrow> snd (keyword_token tok) \<in> {''*'', ''**''}
     \<or> map_of keyword_links (snd (keyword_token tok)) = Some a"

lemma keyword_step_at:
  "keyword_step kw tok a = (if keyword_names a tok then fst (keyword_token tok) else kw a)"
  by (auto simp: keyword_step_def keyword_names_def keyword_links_def split_def split: option.split)

text \<open>After a KEYWORDS line the keyword of an architecture is the one of the last token that
  names it, by its own name, by \<open>*\<close> or by \<open>**\<close>, with its \<open>~\<close> or \<open>-\<close>; without such a token it
  stays as it was, and tokens of unknown architectures change nothing.\<close>

theorem keyword_last_wins:
  "ebuild_keyword_init kw line a =
     (case find (keyword_names a) (rev (strtok_all [CHR '' '', CHR 0x0A, CHR 0x09] line)) of
        None \<Rightarrow> kw a | Some tok \<Rightarrow> fst (keyword_token tok))"
proof -
  have "foldl keyword_step kw toks a =
      (case find (keyword_names a) (rev toks) of None \<Rightarrow> kw a | Some tok \<Rightarrow> fst (keyword_token tok))" for toks
    by (induction toks rule: rev_induct) (auto simp: keyword_step_at)
  then show ?thesis by (simp add: ebuild_keyword_init_def)
qed

text \<open>After an IUSE line the flag of a name is the one of the last token with that name behind
  its sign: enabled after \<open>+\<close>, disabled after \<open>-\<close> or without a sign; other names keep theirs.\<close>

theorem iuse_last_wins:
  "ebuild_iuse_init iuse line n =
     (case find (\<lambda>tok. use_name (iuse_flag tok) = Some n) (rev (strtok_all '' '' line)) of
        None \<Rightarrow> iuse n | Some tok \<Rightarrow> Some (iuse_flag tok))"
proof -
  have "foldl iuse_step iuse toks n =
      (case find (\<lambda>tok. use_name (iuse_flag tok) = Some n) (rev toks) of
         None \<Rightarrow> iuse n | Some tok \<Rightarrow> Some (iuse_flag tok))" for toks
    by (induction toks rule: rev_induct) (auto simp: iuse_step_def split: option.split)
  then show ?thesis by (simp add: ebuild_iuse_init_def)
qed

section \<open>The catalogue stays consistent\<close>

text \<open>The chain of a package whose key is \<open>k\<close> and id is \<open>i\<close>.\<close>

definition holds_package :: "store \<Rightarrow> string \<Rightarrow> U64 \<Rightarrow> U64 \<Rightarrow> U64 list \<Rightarrow> bool" where
  "holds_package st k i pk xs \<longleftrightarrow> package_inv st pk xs
     \<and> (\<exists>pkg. st_packages st pk = Some pkg \<and> pkg_key pkg = Some k \<and> pkg_package_id pkg = i)
     \<and> (\<forall>x \<in> set xs. \<exists>eb. st_ebuilds st x = Some eb \<and> eb_package_key eb = Some k)"

definition catalog_inv :: "Portage \<Rightarrow> store \<Rightarrow> bool" where
  "catalog_inv self st \<longleftrightarrow> lut_inv (packages self) \<and> lut_python (packages self)
     \<and> (\<forall>k i pk. lut_map (packages self) k = Some (i, pk) \<longrightarrow> (\<exists>xs. holds_package st k i pk xs))"

lemma older_seg_cong: "\<forall>x \<in> set xs. m' x = m x \<Longrightarrow> older_seg m' p xs q \<longleftrightarrow> older_seg m p xs q"
  by (induction xs arbitrary: p) auto

lemma newest_cong: "\<forall>x \<in> set xs. m' x = m x \<Longrightarrow> newest m' xs \<longleftrightarrow> newest m xs"
  by (induction xs) (auto simp: newest_first_def ebuild_ver_def)

lemma holds_package_frame:
  assumes "holds_package st k i pk xs" "st_packages st' pk = st_packages st pk"
    and "\<forall>x \<in> set xs. st_ebuilds st' x = st_ebuilds st x"
  shows "holds_package st' k i pk xs"
proof -
  have "newest (st_ebuilds st') xs \<longleftrightarrow> newest (st_ebuilds st) xs"
    by (rule newest_cong [OF assms(3)])
  then show ?thesis
    using assms older_seg_cong [OF assms(3)] by (simp add: holds_package_def package_inv_def)
qed

lemma holds_package_member:
  "holds_package st k i pk xs \<Longrightarrow> x \<in> set xs
    \<Longrightarrow> \<exists>eb. st_ebuilds st x = Some eb \<and> eb_package eb = pk \<and> pk \<noteq> 0"
  by (auto simp: holds_package_def package_inv_def)

lemma ebuild_init_components:
  assumes "CHR ''/'' \<notin> set category" "bounded cs r" "lut_size l \<noteq> 0" "\<forall>f. realpath f \<noteq> None"
  shows "\<exists>eb. ebuild_init realpath (Some l) PyEbuild_new ep cp category (name @ ''-'' @ version_text cs r)
      = Some (0, None, eb) \<and> eb_package_key eb = Some (category @ ''/'' @ name)
    \<and> Some (eb_package_id eb, eb_package_lut_flags eb) = lut_get_id l (category @ ''/'' @ name)
    \<and> well_formed (eb_version eb) \<and> eb_package eb = 0 \<and> eb_version eb = parse_version (version_text cs r)"
proof -
  let ?v = "components_version (version_text cs r) cs (int (rev_of r))"
  obtain a where a: "atom_init (Some l) PyAtom_new (category @ ''/'' @ name @ ''-'' @ version_text cs r)
        = Some (0, a)" "atom_name a = Some name" "atom_key a = Some (category @ ''/'' @ name)"
      "atom_version a = ?v" "Some (atom_id a, atom_id_flag a) = lut_get_id l (category @ ''/'' @ name)"
    using atom_init_components [of category cs r l PyAtom_new name] assms(1-3) by (auto simp: bounded_def)
  have parse: "parse_version (version_text cs r) = ?v"
    using assms(2) parse_components by (simp add: bounded_def)
  have "well_formed ?v"
    using parsed_chain [OF assms(2)] assms(2) parse_components [of cs r]
    by (auto simp: well_formed_def bounded_def)
  moreover have "?v \<noteq> []" "full_version (hd ?v) = Some (version_text cs r)"
    by (simp_all add: components_version_def)
  ultimately show ?thesis
    using a assms(4) parse by (cases ep) (auto simp: ebuild_init_def ebuild_take_atom_def Let_def PyEbuild_new_def)
qed

text \<open>The catalogue as a map from the keys of the packages to their ebuilds, newest first.\<close>

definition catalog :: "Portage \<Rightarrow> store \<Rightarrow> (string \<rightharpoonup> U64 list) \<Rightarrow> bool" where
  "catalog self st C \<longleftrightarrow> lut_inv (packages self) \<and> lut_python (packages self)
     \<and> dom C = dom (lut_map (packages self))
     \<and> (\<forall>k i pk. lut_map (packages self) k = Some (i, pk) \<longrightarrow> holds_package st k i pk (the (C k)))"

lemma catalog_lut [dest]: "catalog self st C \<Longrightarrow> lut_inv (packages self) \<and> lut_python (packages self)"
  by (simp add: catalog_def)

lemma catalog_holds: "catalog self st C \<Longrightarrow> lut_map (packages self) k = Some (i, pk)
    \<Longrightarrow> holds_package st k i pk (the (C k))"
  by (simp add: catalog_def)

lemma catalog_None: "catalog self st C \<Longrightarrow> lut_map (packages self) k = None \<longleftrightarrow> C k = None"
  unfolding catalog_def by (metis domIff)

lemma catalog_inv_iff: "catalog_inv self st \<longleftrightarrow> (\<exists>C. catalog self st C)"
proof
  assume inv: "catalog_inv self st"
  define C where "C k = map_option (\<lambda>(i, pk). SOME xs. holds_package st k i pk xs) (lut_map (packages self) k)" for k
  have "holds_package st k i pk (the (C k))" if "lut_map (packages self) k = Some (i, pk)" for k i pk
    using inv that someI_ex [of "holds_package st k i pk"] by (auto simp: catalog_inv_def C_def)
  moreover have "dom C = dom (lut_map (packages self))"
    by (auto simp: C_def)
  ultimately show "\<exists>C. catalog self st C"
    using inv unfolding catalog_def catalog_inv_def by blast
qed (unfold catalog_inv_def catalog_def, blast)

definition shelf :: "(string \<rightharpoonup> U64 list) \<Rightarrow> string \<Rightarrow> U64 list" where
  "shelf C key = (case C key of None \<Rightarrow> [] | Some xs \<Rightarrow> xs)"

text \<open>How the table of packages grows: the limits that keep room in it are kept.\<close>

definition keeps_size :: "LUT \<Rightarrow> LUT \<Rightarrow> bool" where
  "keeps_size l l' \<longleftrightarrow> (\<forall>m. m < 2 ^ 50 \<and> card (dom (lut_map l)) < 2 ^ 16 \<and> lut_sized m l \<longrightarrow> lut_sized m l')"

lemma keeps_size_refl [simp]: "keeps_size l l"
  by (simp add: keeps_size_def)

text \<open>Finding or creating the package of an ebuild: afterwards the key is bound to it, and no other
  key has changed.\<close>

lemma package_for_key:
  assumes cat: "catalog self st C" and room: "lut_room (packages self)"
    and p: "p \<noteq> 0" "st_packages st p = None"
    and key: "key = category @ ''/'' @ name" "CHR ''/'' \<notin> set category" "eb_package_key eb = Some key"
    and ids: "Some (eb_package_id eb, eb_package_lut_flags eb) = lut_get_id (packages self) key"
  shows "\<exists>self' st' pk. package_for self st p eb = Some (self', st', pk)
    \<and> catalog self' st' (C(key \<mapsto> shelf C key))
    \<and> lut_map (packages self') = (lut_map (packages self))(key \<mapsto> (eb_package_id eb, pk))
    \<and> lut_map (packages self) key \<in> {None, Some (eb_package_id eb, pk)}
    \<and> keeps_size (packages self) (packages self')
    \<and> st_ebuilds st' = st_ebuilds st \<and> dom (st_packages st') \<subseteq> insert p (dom (st_packages st))"
proof -
  let ?l = "packages self"
  have table: "lut_inv ?l" "lut_python ?l" using catalog_lut [OF cat] by simp_all
  show ?thesis
  proof (cases "lut_map ?l key")
    case (Some q)
    then obtain i pk where known: "lut_map ?l key = Some (i, pk)" by (cases q) auto
    then have "eb_package_id eb = i" "eb_package_lut_flags eb = LUT_FLAG_EXISTS"
      using ids lut_get_id_found [OF table(1) known] by simp_all
    moreover have "C(key \<mapsto> shelf C key) = C"
      using catalog_None [OF cat, of key] known by (auto simp: shelf_def)
    ultimately show ?thesis
      using cat known lut_get_Some(1) [OF table(1) known]
      by (auto simp: package_for_def fun_upd_idem)
  next
    case None
    let ?i = "eb_package_id eb"
    have flags: "eb_package_lut_flags eb = LUT_FLAG_NOT_FOUND"
      using ids lut_get_id_missing [OF table(1) None] by simp
    obtain l' j where l': "lut_insert ?l (st_world st) key p LUT_FLAG_PYTHON
          = Some (l', py_xincref p (st_world st), j)" "lut_inv l'" "lut_python l'"
        "lut_map l' = (lut_map ?l)(key \<mapsto> (j, p))"
      using lut_python_insert [OF table(1) room table(2) None] by blast
    then have ins: "lut_insert_id ?l (st_world st) key p ?i (LUT_FLAG_NOT_FOUND OR LUT_FLAG_PYTHON)
          = Some (l', py_xincref p (st_world st))" and j: "j = ?i"
      using ids flags by (auto simp: lut_insert_def split: bind_splits prod.splits)
    have sized: "keeps_size ?l l'"
      unfolding keeps_size_def using lut_insert_sized [OF table(1) _ _ _ l'(1,2,4)] by blast
    obtain pkg where pkg: "new_package eb = Some pkg" "pkg_key pkg = Some key" "pkg_package_id pkg = ?i"
        "pkg_ebuilds pkg = 0"
      using key strchr_append [OF key(2), of name] by (auto simp: new_package_def)
    let ?st = "st\<lparr>st_packages := (st_packages st)(p \<mapsto> pkg), st_world := py_xdecref p (py_xincref p (st_world st))\<rparr>"
    have new: "holds_package ?st key ?i p (shelf C key)"
      using pkg p(1) catalog_None [OF cat, of key] None
      by (simp add: holds_package_def package_inv_def newest_first_def shelf_def)
    have old: "holds_package ?st k i pk (the (C k))" if known: "lut_map ?l k = Some (i, pk)" for k i pk
    proof -
      have xs: "holds_package st k i pk (the (C k))" by (rule catalog_holds [OF cat known])
      then have "pk \<noteq> p" using p(2) by (auto simp: holds_package_def)
      then show ?thesis using holds_package_frame [OF xs, of ?st] by auto
    qed
    have "catalog (self\<lparr>packages := l'\<rparr>) ?st (C(key \<mapsto> shelf C key))"
      using l'(2,3,4) j new old cat by (auto simp: catalog_def)
    moreover have "package_for self st p eb = Some (self\<lparr>packages := l'\<rparr>, ?st, p)"
      using flags pkg ins by (simp add: package_for_def)
    ultimately show ?thesis
      using None l'(4) j sized by (intro exI [of _ "self\<lparr>packages := l'\<rparr>"] exI [of _ ?st] exI [of _ p]) auto
  qed
qed

text \<open>The effect of reading one cache file on the catalogue.\<close>

abbreviation insert_ebuild :: "store \<Rightarrow> U64 \<Rightarrow> U64 list \<Rightarrow> U64 list" where
  "insert_ebuild st \<equiv> insert_newest atom_version_compare (ebuild_ver (st_ebuilds st))"

lemma register_ebuild_effect:
  fixes category name :: string
  assumes cat: "catalog self st C" and room: "lut_room (packages self)"
    and new: "e \<noteq> 0" "st_ebuilds st e = None" "p \<noteq> 0" "st_packages st p = None"
    and key: "CHR ''/'' \<notin> set category" "bounded cs r" and files: "\<forall>f. realpath f \<noteq> None"
  defines "k \<equiv> category @ ''/'' @ name"
  shows "\<exists>self' st' i pk. register_ebuild realpath ep cp self st e p category
        (name @ ''-'' @ version_text cs r) = Some (self', st', None)
    \<and> catalog self' st' (C(k \<mapsto> insert_ebuild st' e (shelf C k)))
    \<and> lut_map (packages self') = (lut_map (packages self))(k \<mapsto> (i, pk))
    \<and> lut_map (packages self) k \<in> {None, Some (i, pk)}
    \<and> Some i = map_option fst (lut_get_id (packages self) k)
    \<and> keeps_size (packages self) (packages self')
    \<and> dom (st_ebuilds st') = insert e (dom (st_ebuilds st))
    \<and> dom (st_packages st') \<subseteq> insert p (dom (st_packages st))
    \<and> ebuild_ver (st_ebuilds st') = (ebuild_ver (st_ebuilds st))(e := parse_version (version_text cs r))"
proof -
  have size: "lut_size (packages self) \<noteq> 0"
    using catalog_lut [OF cat] by (simp add: lut_inv_def lut_shape_def)
  obtain eb where eb: "ebuild_init realpath (Some (packages self)) PyEbuild_new ep cp category
        (name @ ''-'' @ version_text cs r) = Some (0, None, eb)" "eb_package_key eb = Some k"
      "Some (eb_package_id eb, eb_package_lut_flags eb) = lut_get_id (packages self) k"
      "well_formed (eb_version eb)" "eb_package eb = 0" "eb_version eb = parse_version (version_text cs r)"
    using ebuild_init_components [OF key size files] unfolding k_def by blast
  let ?st = "st\<lparr>st_ebuilds := (st_ebuilds st)(e \<mapsto> eb)\<rparr>"
  have fresh: "e \<notin> set xs" if "holds_package st k i pk xs" for k i pk xs
    using that new(2) by (auto simp: holds_package_def)
  have "holds_package ?st k i pk (the (C k))" if "lut_map (packages self) k = Some (i, pk)" for k i pk
  proof (rule holds_package_frame [OF catalog_holds [OF cat that]])
    show "\<forall>x \<in> set (the (C k)). st_ebuilds ?st x = st_ebuilds st x"
      using fresh [OF catalog_holds [OF cat that]] by auto
  qed simp
  then have "catalog self ?st C"
    using cat by (simp add: catalog_def)
  then obtain self' st1 pk where p: "package_for self ?st p eb = Some (self', st1, pk)"
      "catalog self' st1 (C(k \<mapsto> shelf C k))"
      "lut_map (packages self') = (lut_map (packages self))(k \<mapsto> (eb_package_id eb, pk))"
      "lut_map (packages self) k \<in> {None, Some (eb_package_id eb, pk)}"
      "keeps_size (packages self) (packages self')"
      "st_ebuilds st1 = st_ebuilds ?st" "dom (st_packages st1) \<subseteq> insert p (dom (st_packages st))"
    using package_for_key [OF _ room new(3) _ _ key(1) eb(2,3), of ?st C name] new(4) unfolding k_def by auto
  have held: "holds_package st1 k (eb_package_id eb) pk (shelf C k)"
    using catalog_holds [OF p(2), of k "eb_package_id eb" pk] p(3) by simp
  have e1: "st_ebuilds st1 e = Some eb" and inv1: "package_inv st1 pk (shelf C k)"
    using held p(6) by (simp_all add: holds_package_def)
  obtain st2 where st2: "PyPackage_add_ebuild st1 pk [Arg_Ebuild e] = Some (st2, Py_None)"
      "package_inv st2 pk (insert_ebuild st1 e (shelf C k))"
      "same_except (insert e (set (shelf C k))) (st_ebuilds st1) (st_ebuilds st2)"
      "same_except {pk} (st_packages st1) (st_packages st2)"
      "\<forall>x eb. st_ebuilds st1 x = Some eb \<longrightarrow> (\<exists>eb'. st_ebuilds st2 x = Some eb'
         \<and> eb_package_key eb' = eb_package_key eb \<and> eb_version eb' = eb_version eb)"
      "\<forall>pkg. st_packages st1 pk = Some pkg \<longrightarrow> (\<exists>pkg'. st_packages st2 pk = Some pkg'
         \<and> pkg_key pkg' = pkg_key pkg \<and> pkg_package_id pkg' = pkg_package_id pkg)"
    using add_ebuild_effect [OF inv1 new(1) e1 eb(5,4)] by blast
  have dom2: "dom (st_ebuilds st2) = insert e (dom (st_ebuilds st))"
  proof -
    let ?X = "insert e (set (shelf C k))"
    have sub: "?X \<subseteq> dom (st_ebuilds st1)"
      using held e1 by (auto simp: holds_package_def)
    moreover have "dom (st_ebuilds st1) \<subseteq> dom (st_ebuilds st2)"
      using st2(5) by blast
    ultimately have "dom (st_ebuilds st2) = dom (st_ebuilds st1)"
      using same_except_dom [OF st2(3)] by blast
    then show ?thesis using p(6) by simp
  qed
  have ver: "ebuild_ver (st_ebuilds st2) = ebuild_ver (st_ebuilds st1)"
  proof (rule ebuild_ver_eq)
    show "dom (st_ebuilds st2) = dom (st_ebuilds st1)" using dom2 p(6) by simp
    show "\<forall>x eb. st_ebuilds st1 x = Some eb
        \<longrightarrow> (\<exists>eb'. st_ebuilds st2 x = Some eb' \<and> eb_version eb' = eb_version eb)"
      using st2(5) by blast
  qed
  let ?xs = "insert_ebuild st2 e (shelf C k)"
  have new_holds: "holds_package st2 k (eb_package_id eb) pk ?xs"
    using held st2(2,5,6) e1 eb(2) unfolding holds_package_def set_insert_newest ver
    by (metis insert_iff)
  have others: "holds_package st2 j i pk2 ys"
    if held2: "holds_package st1 j i pk2 ys" and "lut_map (packages self') j = Some (i, pk2)" "j \<noteq> k" for j i pk2 ys
  proof (rule holds_package_frame [OF held2])
    have "pk2 \<noteq> pk"
      using that held by (auto simp: holds_package_def)
    then show "st_packages st2 pk2 = st_packages st1 pk2"
      using st2(4) by (simp add: same_except_def)
    have "x \<notin> insert e (set (shelf C k))" if in_ys: "x \<in> set ys" for x
    proof -
      obtain eb' where eb': "st_ebuilds st1 x = Some eb'" "eb_package eb' = pk2" "pk2 \<noteq> 0"
        using holds_package_member [OF held2 in_ys] by blast
      moreover have "x \<notin> set (shelf C k)"
        using holds_package_member [OF held, of x] eb'(1,2) \<open>pk2 \<noteq> pk\<close> by auto
      ultimately show ?thesis
        using \<open>pk2 \<noteq> pk\<close> e1 eb(5) by auto
    qed
    then show "\<forall>x \<in> set ys. st_ebuilds st2 x = st_ebuilds st1 x"
      using st2(3) by (auto simp: same_except_def)
  qed
  have "holds_package st2 j i q (the ((C(k \<mapsto> ?xs)) j))" if m: "lut_map (packages self') j = Some (i, q)" for j i q
  proof (cases "j = k")
    case True
    then show ?thesis using m p(3) new_holds by simp
  next
    case False
    then show ?thesis using others [OF catalog_holds [OF p(2) m] m False] by simp
  qed
  then have "catalog self' st2 (C(k \<mapsto> ?xs))"
    using p(2) unfolding catalog_def by simp
  moreover have "pk \<noteq> 0"
    using held by (auto simp: holds_package_def package_inv_def)
  moreover have "dom (st_packages st2) = dom (st_packages st1)"
  proof -
    obtain pkg where pkg: "st_packages st1 pk = Some pkg"
      using held by (auto simp: holds_package_def)
    moreover obtain pkg' where "st_packages st2 pk = Some pkg'"
      using st2(6) pkg by blast
    ultimately show ?thesis
      using same_except_dom [OF st2(4)] by blast
  qed
  moreover have "ebuild_ver (st_ebuilds st1) = (ebuild_ver (st_ebuilds st))(e := parse_version (version_text cs r))"
    using p(6) eb(6) by (auto simp: ebuild_ver_def)
  moreover have "holds_package (with_world f st2) k i q ys \<longleftrightarrow> holds_package st2 k i q ys" for f k i q ys
    by (simp add: holds_package_def package_inv_def with_world_def)
  ultimately show ?thesis
    using eb(1) eb(3) [symmetric] p(1,3,4,5,7) st2(1) dom2 ver
    by (intro exI [of _ self'] exI [of _ "with_world (py_xdecref e) st2"] exI [of _ "eb_package_id eb"]
        exI [of _ pk]) (simp add: register_ebuild_def catalog_def with_world_def)
qed

lemma register_ebuild_catalog:
  assumes inv: "catalog_inv self st" and room: "lut_room (packages self)"
    and new: "e \<noteq> 0" "st_ebuilds st e = None" "p \<noteq> 0" "st_packages st p = None"
    and key: "CHR ''/'' \<notin> set category" "bounded cs r" and files: "\<forall>f. realpath f \<noteq> None"
  shows "\<exists>self' st' i pk xs. register_ebuild realpath ep cp self st e p category
        (name @ ''-'' @ version_text cs r) = Some (self', st', None)
    \<and> catalog_inv self' st'
    \<and> lut_map (packages self') = (lut_map (packages self))(category @ ''/'' @ name \<mapsto> (i, pk))
    \<and> lut_map (packages self) (category @ ''/'' @ name) \<in> {None, Some (i, pk)}
    \<and> holds_package st' (category @ ''/'' @ name) i pk xs \<and> e \<in> set xs
    \<and> Some i = map_option fst (lut_get_id (packages self) (category @ ''/'' @ name))"
proof -
  let ?k = "category @ ''/'' @ name"
  obtain C where cat: "catalog self st C" using inv unfolding catalog_inv_iff by blast
  obtain self' st' i pk where r: "register_ebuild realpath ep cp self st e p category
        (name @ ''-'' @ version_text cs r) = Some (self', st', None)"
      "catalog self' st' (C(?k \<mapsto> insert_ebuild st' e (shelf C ?k)))"
      "lut_map (packages self') = (lut_map (packages self))(?k \<mapsto> (i, pk))"
      "lut_map (packages self) ?k \<in> {None, Some (i, pk)}"
      "Some i = map_option fst (lut_get_id (packages self) ?k)"
    using register_ebuild_effect [OF cat room new key files] by blast
  have "holds_package st' ?k i pk (insert_ebuild st' e (shelf C ?k))"
    using catalog_holds [OF r(2), of ?k i pk] r(3) by simp
  then show ?thesis
    using r unfolding catalog_inv_iff by (metis set_insert_newest insertI1)
qed

lemma register_ebuild_new:
  assumes "catalog_inv self st" "lut_room (packages self)"
    and "e \<noteq> 0" "st_ebuilds st e = None" "p \<noteq> 0" "st_packages st p = None"
    and "CHR ''/'' \<notin> set category" "bounded cs r" "\<forall>f. realpath f \<noteq> None"
    and "lut_map (packages self) (category @ ''/'' @ name) = None"
  shows "\<exists>self' st' i pk xs. register_ebuild realpath ep cp self st e p category
        (name @ ''-'' @ version_text cs r) = Some (self', st', None)
    \<and> catalog_inv self' st'
    \<and> lut_map (packages self') = (lut_map (packages self))(category @ ''/'' @ name \<mapsto> (i, pk))
    \<and> holds_package st' (category @ ''/'' @ name) i pk xs \<and> e \<in> set xs
    \<and> lut_get_id (packages self) (category @ ''/'' @ name) = Some (i, LUT_FLAG_NOT_FOUND)"
proof -
  let ?key = "category @ ''/'' @ name"
  have inv: "lut_inv (packages self)" using assms(1) by (simp add: catalog_inv_def)
  obtain j where j: "lut_get_id (packages self) ?key = Some (j, LUT_FLAG_NOT_FOUND)"
    using lut_get_id_missing [OF inv assms(10)] by simp
  obtain self' st' i pk xs where "register_ebuild realpath ep cp self st e p category
        (name @ ''-'' @ version_text cs r) = Some (self', st', None)"
      "catalog_inv self' st'" "lut_map (packages self') = (lut_map (packages self))(?key \<mapsto> (i, pk))"
      "holds_package st' ?key i pk xs" "e \<in> set xs" "Some i = map_option fst (lut_get_id (packages self) ?key)"
    using register_ebuild_catalog [OF assms(1-9)] by blast
  then show ?thesis
    using j by auto
qed

text \<open>Reading one well-named file of the cache succeeds and keeps the catalogue consistent:
  the package of the file's key exists afterwards, found under the id in the table, and the new
  ebuild is in its chain, which stays newest first; no other key of the table changes.\<close>

theorem register_ebuild_keeps_catalog:
  assumes inv: "catalog_inv self st" and room: "lut_room (packages self)"
    and new: "e \<noteq> 0" "st_ebuilds st e = None" "p \<noteq> 0" "st_packages st p = None"
    and key: "CHR ''/'' \<notin> set category" "bounded cs r" and files: "\<forall>f. realpath f \<noteq> None"
  shows "\<exists>self' st' i pk xs. register_ebuild realpath ep cp self st e p category
        (name @ ''-'' @ version_text cs r) = Some (self', st', None)
    \<and> catalog_inv self' st'
    \<and> lut_map (packages self') = (lut_map (packages self))(category @ ''/'' @ name \<mapsto> (i, pk))
    \<and> lut_map (packages self) (category @ ''/'' @ name) \<in> {None, Some (i, pk)}
    \<and> holds_package st' (category @ ''/'' @ name) i pk xs \<and> e \<in> set xs"
  using register_ebuild_catalog [OF assms] by blast

definition empty_store :: store where
  "empty_store = \<lparr>st_ebuilds = Map.empty, st_packages = Map.empty, st_world = no_world\<rparr>"

definition small_portage :: Portage where
  "small_portage = \<lparr>global_flags = lut_new 4, packages = lut_new 4\<rparr>"

lemma small_catalog: "catalog_inv small_portage empty_store" "lut_room (packages small_portage)"
  using lut_new4 by (simp_all add: catalog_inv_def small_portage_def lut_new_map lut_python_def lut_nodes_new)

lemma register_ebuild_keeps_catalog_witness:
  "\<exists>self' st'. register_ebuild Some None ''/cache'' small_portage empty_store 16 32 ''sys-devel'' ''gcc-9.3-r1''
      = Some (self', st', None) \<and> catalog_inv self' st'"
proof -
  have "''gcc-9.3-r1'' = ''gcc'' @ ''-'' @ version_text [num 9, num 3] (Some 1)"
    by (simp add: version_text_eval)
  then show ?thesis
    using register_ebuild_keeps_catalog [OF small_catalog, of 16 32 "''sys-devel''" "[num 9, num 3]" "Some 1" Some
        None "''/cache''" "''gcc''"]
    by (auto simp: bounded_def rev_of_def empty_store_def)
qed

section \<open>Finding ebuilds through the catalogue\<close>

text \<open>An atom whose id is the one of a key in the catalogue finds, for a range that admits
  older or newer versions, the newest ebuild of that package that the range admits; and
  \<open>get_package\<close> returns the package object under the same id.\<close>

theorem portage_match_atom:
  assumes inv: "catalog_inv self st" and k: "lut_map (packages self) k = Some (i, pk)"
    and a: "atom_id a = i" "well_formed (atom_version a)"
      "has_flag (atom_range a) ATOM_VERSION_L \<or> has_flag (atom_range a) ATOM_VERSION_G"
  shows "\<exists>xs. holds_package st k i pk xs
    \<and> PyPortage_match_atom self st [Arg_Atom a] = Some
      (case find (admitted (st_ebuilds st) (atom_version a) (atom_range a)) xs of
         None \<Rightarrow> (st, Py_None) | Some x \<Rightarrow> (with_world (py_xincref x) st, Py_Obj x))
    \<and> PyPortage_get_package self st [i] = Some (with_world (py_xincref pk) st, Py_Obj pk)"
proof -
  obtain xs where xs: "holds_package st k i pk xs"
    using inv k unfolding catalog_inv_def by blast
  then have pk: "package_inv st pk xs" "pk \<noteq> 0"
    by (auto simp: holds_package_def package_inv_def)
  have "lut_get (packages self) i = Some pk"
    using inv k by (intro lut_ids.get_bound [where k = k]) (simp_all add: catalog_inv_def)
  then show ?thesis
    using xs pk match_atom_find [OF pk(1) a(3,2)] a(1)
    by (auto simp: PyPortage_match_atom_def PyPortage_get_package_def)
qed

definition one_package :: "Portage \<times> store" where
  "one_package =
     (let l = fst (the (lut_insert (lut_new 4) no_world ''a/b'' 5 LUT_FLAG_PYTHON))
      in (\<lparr>global_flags = lut_new 4, packages = l\<rparr>,
          demo_store\<lparr>st_packages := [5 \<mapsto> PyPackage_new\<lparr>pkg_key := Some ''a/b'', pkg_ebuilds := 10,
             pkg_package_id := fst (the (lut_map l ''a/b''))\<rparr>]\<rparr>))"

lemma portage_match_atom_witness:
  "\<exists>i st'. lut_map (packages (fst one_package)) ''a/b'' = Some (i, 5)
    \<and> PyPortage_get_package (fst one_package) (snd one_package) [i] = Some (st', Py_Obj 5)"
proof -
  obtain l i where l: "lut_insert (lut_new 4) no_world ''a/b'' 5 LUT_FLAG_PYTHON = Some (l, py_xincref 5 no_world, i)"
      "lut_inv l" "lut_python l" "lut_map l = [''a/b'' \<mapsto> (i, 5)]"
    using lut_python_insert [OF lut_new4(1,2), of "''a/b''" no_world 5]
    by (auto simp: lut_new_map lut_python_def lut_nodes_new)
  have p: "packages (fst one_package) = l" "st_ebuilds (snd one_package) = st_ebuilds demo_store"
      "st_packages (snd one_package) = [5 \<mapsto> PyPackage_new\<lparr>pkg_key := Some ''a/b'', pkg_ebuilds := 10,
          pkg_package_id := i\<rparr>]"
    by (simp_all add: one_package_def l Let_def)
  have "holds_package (snd one_package) ''a/b'' i 5 [10, 20]"
    using demo_well_formed demo_not_newer(3)
    by (simp add: holds_package_def package_inv_def p demo_store_def ebuild_of_def PyPackage_new_def
        newest_first_def ebuild_ver_def)
  then have "catalog_inv (fst one_package) (snd one_package)"
    using l by (auto simp: catalog_inv_def p split: if_splits)
  then show ?thesis
    using portage_match_atom [of "fst one_package" "snd one_package" "''a/b''" i 5
        "atom_of ''1.1'' ATOM_VERSION_L\<lparr>atom_id := i\<rparr>"] demo_well_formed
    by (auto simp: p l has_flag_def range_consts)
qed

text \<open>The id of an atom decides alone. An atom for a package that is not loaded yet gets an
  id that may later be given to another package whose key has the same hash; the lookup then
  returns an ebuild of that other package.\<close>

theorem portage_match_wrong_package:
  assumes inv: "catalog_inv self st" and room: "lut_room (packages self)"
    and new: "e \<noteq> 0" "st_ebuilds st e = None" "p \<noteq> 0" "st_packages st p = None"
    and key: "CHR ''/'' \<notin> set category" "bounded cs r" and files: "\<forall>f. realpath f \<noteq> None"
    and absent: "lut_map (packages self) (category @ ''/'' @ name) = None" "lut_map (packages self) k2 = None"
    and same_hash: "hash_str k2 = hash_str (category @ ''/'' @ name)"
    and a: "lut_get_id (packages self) k2 = Some (atom_id a, LUT_FLAG_NOT_FOUND)"
      "atom_version a = []" "atom_range a = ATOM_VERSION_ALL"
  shows "\<exists>self' st' x st2 eb. register_ebuild realpath ep cp self st e p category
        (name @ ''-'' @ version_text cs r) = Some (self', st', None)
    \<and> PyPortage_match_atom self' st' [Arg_Atom a] = Some (st2, Py_Obj x)
    \<and> st_ebuilds st' x = Some eb \<and> eb_package_key eb = Some (category @ ''/'' @ name)"
proof -
  let ?key = "category @ ''/'' @ name"
  obtain self' st' i pk xs where reg: "register_ebuild realpath ep cp self st e p category
        (name @ ''-'' @ version_text cs r) = Some (self', st', None)" "catalog_inv self' st'"
      "lut_map (packages self') = (lut_map (packages self))(?key \<mapsto> (i, pk))"
      "holds_package st' ?key i pk xs" "e \<in> set xs"
    and i: "lut_get_id (packages self) ?key = Some (i, LUT_FLAG_NOT_FOUND)"
    using register_ebuild_new [OF inv room new key files absent(1)] by blast
  have inv_l: "lut_inv (packages self)" using inv by (simp add: catalog_inv_def)
  have "atom_id a = i"
    using i a(1) lut_get_id_missing [OF inv_l absent(1)] lut_get_id_missing [OF inv_l absent(2)] same_hash
    by simp
  then have get: "lut_get (packages self') (atom_id a) = Some pk"
    using reg(2,3) by (intro lut_ids.get_bound [where k = ?key]) (simp_all add: catalog_inv_def)
  obtain pkg where pkg: "st_packages st' pk = Some pkg" "older_seg (st_ebuilds st') (pkg_ebuilds pkg) xs 0" "pk \<noteq> 0"
    using reg(4) by (auto simp: holds_package_def package_inv_def)
  obtain x ys where xs: "xs = x # ys" using reg(5) by (cases xs) auto
  then obtain eb where eb: "st_ebuilds st' x = Some eb" "eb_package_key eb = Some ?key" "well_formed (eb_version eb)"
    using reg(4) by (fastforce simp: holds_package_def package_inv_def)
  have "eb_version eb \<noteq> []"
    using eb(3) by (auto simp: well_formed_def component_chain_def)
  then have "atom_version_compare (eb_version eb) [] = Some 1"
    by (cases "eb_version eb") (simp_all add: atom_version_compare_def)
  then have "match_atom_walk (st_ebuilds st') (atom_version a) (atom_range a) (pkg_ebuilds pkg) = Some (Some x)"
    using pkg(2) xs eb(1) a(2,3)
    by (subst match_atom_walk.simps) (simp add: range_admits_def has_flag_def range_consts)
  then have "PyPortage_match_atom self' st' [Arg_Atom a] = Some (with_world (py_xincref x) st', Py_Obj x)"
    using get pkg(1,3) by (simp add: PyPortage_match_atom_def PyPackage_match_atom_def)
  then show ?thesis
    using reg(1) eb(1,2) by blast
qed

lemma portage_match_wrong_package_witness:
  "\<exists>a self' st' x st2 eb. lut_get_id (packages small_portage) ''a/cmzq'' = Some (atom_id a, LUT_FLAG_NOT_FOUND)
    \<and> register_ebuild Some None ''/cache'' small_portage empty_store 16 32 ''a'' ''ijls-1.0'' = Some (self', st', None)
    \<and> PyPortage_match_atom self' st' [Arg_Atom a] = Some (st2, Py_Obj x)
    \<and> st_ebuilds st' x = Some eb \<and> eb_package_key eb = Some ''a/ijls''"
proof -
  have name: "''ijls-1.0'' = ''ijls'' @ ''-'' @ version_text [num 1, num 0] None"
    by (simp add: version_text_eval)
  have none: "lut_map (packages small_portage) k = None" for k
    by (simp add: small_portage_def lut_new_map)
  obtain i where i: "lut_get_id (packages small_portage) ''a/cmzq'' = Some (i, LUT_FLAG_NOT_FOUND)"
    using lut_get_id_missing [of "packages small_portage"] small_catalog none by (auto simp: catalog_inv_def)
  let ?a = "PyAtom_new\<lparr>atom_id := i, atom_range := ATOM_VERSION_ALL\<rparr>"
  have "hash_str ''a/cmzq'' = hash_str (''a'' @ ''/'' @ ''ijls'')"
    using collision by simp
  then have "\<exists>self' st' x st2 eb. register_ebuild Some None ''/cache'' small_portage empty_store 16 32 ''a''
        (''ijls'' @ ''-'' @ version_text [num 1, num 0] None) = Some (self', st', None)
      \<and> PyPortage_match_atom self' st' [Arg_Atom ?a] = Some (st2, Py_Obj x)
      \<and> st_ebuilds st' x = Some eb \<and> eb_package_key eb = Some (''a'' @ ''/'' @ ''ijls'')"
    using none i
    by (intro portage_match_wrong_package [OF small_catalog, where ?k2.0 = "''a/cmzq''"])
      (simp_all add: empty_store_def bounded_def rev_of_def PyAtom_new_def)
  then show ?thesis
    unfolding name [symmetric] using i by (intro exI [of _ ?a]) simp
qed

end
