(* ===== verification/Repository.thy ===== *)
theory Repository
  imports Portage
begin

text \<open>
  Reading a whole metadata cache: \<open>initialize_repository\<close> of autogentoo/cportage/portage.c, which
  walks over the category directories of the cache and registers every file in them. The
  operating system is a parameter: the names \<open>opendir\<close> and \<open>readdir\<close> list, whether \<open>stat\<close>
  succeeds and sees a directory, and \<open>realpath\<close>. The allocator is one too: the ebuild and the
  package of the n-th file get the n-th pair of addresses. The lemmas show that a well-formed
  cache is read completely and that afterwards every file's ebuild is found under its key.
\<close>

section \<open>The walk over the cache\<close>

record os =
  os_opendir :: "string \<Rightarrow> string list option"
  os_stat :: "string \<Rightarrow> bool option"
  os_realpath :: "string \<Rightarrow> string option"

text \<open>The state of the walk: the catalogue, the objects, the counter of the code and the number of
  files for which objects have been allocated.\<close>

record scan =
  sc_portage :: Portage
  sc_store :: store
  sc_i :: U32
  sc_next :: nat

text \<open>The inner loop, over the files of a category.\<close>

fun read_files ::
    "os \<Rightarrow> (nat \<Rightarrow> U64 \<times> U64) \<Rightarrow> string option \<Rightarrow> string \<Rightarrow> string \<Rightarrow> string list \<Rightarrow> scan
      \<Rightarrow> (scan \<times> py_exc option) option" where
  "read_files os addr ebuild_path cache_path category [] s = Some (s, None)"
| "read_files os addr ebuild_path cache_path category (name_and_value # rest) s =
     (if char_at name_and_value 0 = Some CHR ''.'' \<or> strcmp name_and_value ''Manifest.gz'' = 0
      then read_files os addr ebuild_path cache_path category rest s
      else do {
        (self, st, exc) \<leftarrow> register_ebuild (os_realpath os) ebuild_path cache_path (sc_portage s)
           (sc_store s) (fst (addr (sc_next s))) (snd (addr (sc_next s))) category name_and_value;
        let s = s\<lparr>sc_portage := self, sc_store := st, sc_next := sc_next s + 1\<rparr>;
        case exc of
          Some x \<Rightarrow> Some (s, Some x)
        | None \<Rightarrow> read_files os addr ebuild_path cache_path category rest (s\<lparr>sc_i := sc_i s + 1\<rparr>) })"

text \<open>The outer loop, over the entries of the cache directory. A path longer than its buffer is
  undefined behaviour of \<open>sprintf\<close>.\<close>

fun read_categories ::
    "os \<Rightarrow> (nat \<Rightarrow> U64 \<times> U64) \<Rightarrow> string option \<Rightarrow> string \<Rightarrow> string list \<Rightarrow> scan
      \<Rightarrow> (scan \<times> py_exc option) option" where
  "read_categories os addr ebuild_path cache_path [] s = Some (s, None)"
| "read_categories os addr ebuild_path cache_path (d_name # rest) s =
     (let path1 = cache_path @ ''/'' @ d_name in
      if PATH_MAX \<le> length path1 then None
      else case os_stat os path1 of
        None \<Rightarrow> Some (s, Some RuntimeError)
      | Some is_dir \<Rightarrow>
          if char_at d_name 0 = Some CHR ''.'' \<or> \<not> is_dir
          then read_categories os addr ebuild_path cache_path rest s
          else (case os_opendir os path1 of
              None \<Rightarrow> Some (s, Some RuntimeError)
            | Some files \<Rightarrow>
                do { (s, exc) \<leftarrow> read_files os addr ebuild_path cache_path d_name files s;
                     case exc of
                       Some x \<Rightarrow> Some (s, Some x)
                     | None \<Rightarrow> read_categories os addr ebuild_path cache_path rest s }))"

text \<open>An argument is None for Python's None; a cache path that is no string is passed on as NULL.\<close>

definition PyPortage_initialize_repository ::
    "os \<Rightarrow> (nat \<Rightarrow> U64 \<times> U64) \<Rightarrow> Portage \<Rightarrow> store \<Rightarrow> string option list
      \<Rightarrow> (Portage \<times> store \<times> py_result) option" where
  "PyPortage_initialize_repository os addr self st args =
     (case args of
        [ebuild_path, cache_path] \<Rightarrow>
          do { cache_path \<leftarrow> cache_path;
               case os_opendir os cache_path of
                 None \<Rightarrow> Some (self, st, Py_Raise RuntimeError)
               | Some entries \<Rightarrow>
                   do { (s, exc) \<leftarrow> read_categories os addr ebuild_path cache_path entries
                          \<lparr>sc_portage = self, sc_store = st, sc_i = 0, sc_next = 0\<rparr>;
                        Some (sc_portage s, sc_store s, case exc of
                            Some x \<Rightarrow> Py_Raise x | None \<Rightarrow> Py_Int (uint (sc_i s))) } }
      | _ \<Rightarrow> Some (self, st, Py_Raise TypeError))"

section \<open>What a cache holds\<close>

text \<open>A file of the cache stands for a name and a version.\<close>

type_synonym entry = "string \<times> string \<times> component list \<times> nat option"

fun entry_key :: "entry \<Rightarrow> string" where
  "entry_key (category, name, cs, r) = category @ ''/'' @ name"

fun entry_file :: "entry \<Rightarrow> string" where
  "entry_file (category, name, cs, r) = name @ ''-'' @ version_text cs r"

fun entry_version :: "entry \<Rightarrow> AtomVersion list" where
  "entry_version (category, name, cs, r) = parse_version (version_text cs r)"

fun entry_ok :: "string \<Rightarrow> entry \<Rightarrow> bool" where
  "entry_ok c (category, name, cs, r) \<longleftrightarrow> category = c \<and> CHR ''/'' \<notin> set category \<and> bounded cs r"

definition visible :: "string \<Rightarrow> bool" where
  "visible f \<longleftrightarrow> char_at f 0 \<noteq> Some CHR ''.'' \<and> f \<noteq> ''Manifest.gz''"

text \<open>The directory of a category shows the entries, and the cache shows categories with their
  entries.\<close>

definition shows_files :: "os \<Rightarrow> string \<Rightarrow> string \<Rightarrow> entry list \<Rightarrow> bool" where
  "shows_files os cache_path c es \<longleftrightarrow> (\<forall>en \<in> set es. entry_ok c en)
     \<and> (\<exists>files. os_opendir os (cache_path @ ''/'' @ c) = Some files \<and> filter visible files = map entry_file es)"

definition is_category :: "os \<Rightarrow> string \<Rightarrow> string \<Rightarrow> bool" where
  "is_category os cache_path d \<longleftrightarrow> char_at d 0 \<noteq> Some CHR ''.''
     \<and> os_stat os (cache_path @ ''/'' @ d) = Some True"

definition shows_cache :: "os \<Rightarrow> string \<Rightarrow> string list \<Rightarrow> (string \<times> entry list) list \<Rightarrow> bool" where
  "shows_cache os cache_path ds cats \<longleftrightarrow>
     (\<forall>d \<in> set ds. length (cache_path @ ''/'' @ d) < PATH_MAX \<and> os_stat os (cache_path @ ''/'' @ d) \<noteq> None)
     \<and> filter (is_category os cache_path) ds = map fst cats
     \<and> (\<forall>(c, es) \<in> set cats. shows_files os cache_path c es)"

section \<open>Filing the entries\<close>

text \<open>The walk may go on for \<open>n\<close> files: the catalogue is consistent, its table has room, and the
  addresses to come are unused.\<close>

definition ready :: "(nat \<Rightarrow> U64 \<times> U64) \<Rightarrow> nat \<Rightarrow> nat \<Rightarrow> scan \<Rightarrow> (string \<rightharpoonup> U64 list) \<Rightarrow> bool" where
  "ready addr m n s C \<longleftrightarrow> catalog (sc_portage s) (sc_store s) C
     \<and> lut_sized m (packages (sc_portage s)) \<and> m < 2 ^ 50 \<and> card (dom C) + n \<le> 2 ^ 16
     \<and> inj_on (\<lambda>j. fst (addr j)) {sc_next s..<sc_next s + n}
     \<and> inj_on (\<lambda>j. snd (addr j)) {sc_next s..<sc_next s + n}
     \<and> (\<forall>j \<in> {sc_next s..<sc_next s + n}. fst (addr j) \<notin> insert 0 (dom (st_ebuilds (sc_store s)))
          \<and> snd (addr j) \<notin> insert 0 (dom (st_packages (sc_store s))))"

text \<open>What has been added between two states of the walk: the keys of the entries, and on the
  shelf of every key the ebuilds of its entries.\<close>

fun new_ebuilds :: "(nat \<Rightarrow> U64 \<times> U64) \<Rightarrow> nat \<Rightarrow> entry list \<Rightarrow> string \<Rightarrow> U64 set" where
  "new_ebuilds addr n [] k = {}"
| "new_ebuilds addr n (en # es) k =
     (if entry_key en = k then {fst (addr n)} else {}) \<union> new_ebuilds addr (Suc n) es k"

definition filed :: "(nat \<Rightarrow> U64 \<times> U64) \<Rightarrow> scan \<Rightarrow> (string \<rightharpoonup> U64 list) \<Rightarrow> entry list
    \<Rightarrow> scan \<Rightarrow> (string \<rightharpoonup> U64 list) \<Rightarrow> bool" where
  "filed addr s C es s' C' \<longleftrightarrow> sc_next s' = sc_next s + length es
     \<and> sc_i s' = sc_i s + word_of_nat (length es)
     \<and> dom C' = dom C \<union> entry_key ` set es
     \<and> (\<forall>k. set (shelf C' k) = set (shelf C k) \<union> new_ebuilds addr (sc_next s) es k)
     \<and> (\<forall>j < length es. ebuild_ver (st_ebuilds (sc_store s')) (fst (addr (sc_next s + j))) = entry_version (es ! j))
     \<and> (\<forall>x \<in> dom (st_ebuilds (sc_store s)). ebuild_ver (st_ebuilds (sc_store s')) x = ebuild_ver (st_ebuilds (sc_store s)) x)
     \<and> dom (st_ebuilds (sc_store s')) = dom (st_ebuilds (sc_store s)) \<union> (\<lambda>j. fst (addr (sc_next s + j))) ` {..<length es}"

lemma new_ebuilds_append:
  "new_ebuilds addr n (xs @ ys) k = new_ebuilds addr n xs k \<union> new_ebuilds addr (n + length xs) ys k"
  by (induction xs arbitrary: n) (auto simp: Un_assoc)

lemma new_ebuilds_nth:
  "j < length es \<Longrightarrow> fst (addr (n + j)) \<in> new_ebuilds addr n es (entry_key (es ! j))"
proof (induction es arbitrary: n j)
  case (Cons en es)
  show ?case
  proof (cases j)
    case (Suc i)
    then show ?thesis using Cons.IH [of i "Suc n"] Cons.prems by simp
  qed simp
qed simp

lemma shelf_update: "shelf (C(k \<mapsto> xs)) j = (if j = k then xs else shelf C j)"
  by (simp add: shelf_def)

lemma filed_refl: "filed addr s C [] s C"
  by (simp add: filed_def)

lemma filed_trans:
  assumes a: "filed addr s C xs s1 C1" and b: "filed addr s1 C1 ys s2 C2"
  shows "filed addr s C (xs @ ys) s2 C2"
proof -
  let ?n = "sc_next s" and ?v = "\<lambda>s. ebuild_ver (st_ebuilds (sc_store s))"
  have n: "sc_next s1 = ?n + length xs" using a by (simp add: filed_def)
  have keep: "?v s2 x = ?v s1 x" if "x \<in> dom (st_ebuilds (sc_store s1))" for x
    using b that by (simp add: filed_def)
  have "?v s2 (fst (addr (?n + j))) = entry_version ((xs @ ys) ! j)" if j: "j < length (xs @ ys)" for j
  proof (cases "j < length xs")
    case True
    then have "fst (addr (?n + j)) \<in> dom (st_ebuilds (sc_store s1))"
      using a by (simp add: filed_def)
    then show ?thesis
      using keep True a by (simp add: filed_def nth_append)
  next
    case False
    then obtain i where i: "j = length xs + i" "i < length ys"
      using j le_Suc_ex [of "length xs" j] by auto
    then have "?v s2 (fst (addr (sc_next s1 + i))) = entry_version (ys ! i)"
      using b by (simp add: filed_def)
    then show ?thesis
      using i n by (simp add: add.assoc)
  qed
  moreover have "?v s2 x = ?v s x" if "x \<in> dom (st_ebuilds (sc_store s))" for x
    using keep [of x] a that by (simp add: filed_def)
  moreover have "(\<lambda>j. fst (addr (?n + j))) ` {..<length (xs @ ys)}
      = (\<lambda>j. fst (addr (?n + j))) ` {..<length xs} \<union> (\<lambda>j. fst (addr (?n + length xs + j))) ` {..<length ys}"
  proof -
    have "{..<length (xs @ ys)} = {..<length xs} \<union> (+) (length xs) ` {..<length ys}"
      using ivl_disj_un_two(3) [of 0 "length xs" "length xs + length ys"]
      by (simp add: lessThan_atLeast0 add.commute)
    then show ?thesis
      by (simp add: image_Un image_image add.assoc)
  qed
  ultimately show ?thesis
    using a b unfolding filed_def by (simp add: new_ebuilds_append Un_assoc image_Un)
qed

text \<open>One file.\<close>

lemma read_file:
  assumes ready: "ready addr m (Suc n) s C" and en: "entry_ok c en" and files: "\<forall>f. os_realpath os f \<noteq> None"
  shows "\<exists>self' st' C'. register_ebuild (os_realpath os) ep cp (sc_portage s) (sc_store s)
        (fst (addr (sc_next s))) (snd (addr (sc_next s))) c (entry_file en) = Some (self', st', None)
    \<and> (let s' = s\<lparr>sc_portage := self', sc_store := st', sc_next := sc_next s + 1, sc_i := sc_i s + 1\<rparr>
       in ready addr m n s' C' \<and> filed addr s C [en] s' C')"
proof -
  obtain name cs r where e: "en = (c, name, cs, r)" "CHR ''/'' \<notin> set c" "bounded cs r"
    using en by (cases en) auto
  let ?k = "c @ ''/'' @ name" and ?e = "fst (addr (sc_next s))" and ?p = "snd (addr (sc_next s))"
  have cat: "catalog (sc_portage s) (sc_store s) C"
    and sized: "lut_sized m (packages (sc_portage s))" "m < 2 ^ 50" "card (dom C) + Suc n \<le> 2 ^ 16"
    and inj: "inj_on (\<lambda>j. fst (addr j)) {sc_next s..<sc_next s + Suc n}"
      "inj_on (\<lambda>j. snd (addr j)) {sc_next s..<sc_next s + Suc n}"
    and unused: "\<And>j. j \<in> {sc_next s..<sc_next s + Suc n} \<Longrightarrow> fst (addr j) \<notin> insert 0 (dom (st_ebuilds (sc_store s)))
        \<and> snd (addr j) \<notin> insert 0 (dom (st_packages (sc_store s)))"
    using ready unfolding ready_def by blast+
  have dom: "dom (lut_map (packages (sc_portage s))) = dom C"
    using cat by (simp add: catalog_def)
  have room: "lut_room (packages (sc_portage s))"
    using lut_room_sized [OF conjunct1 [OF catalog_lut [OF cat]] sized(1,2)] sized(3) dom by simp
  have new: "?e \<noteq> 0" "st_ebuilds (sc_store s) ?e = None" "?p \<noteq> 0" "st_packages (sc_store s) ?p = None"
    using unused [of "sc_next s"] by auto
  obtain self' st' i pk where r: "register_ebuild (os_realpath os) ep cp (sc_portage s) (sc_store s)
        ?e ?p c (entry_file en) = Some (self', st', None)"
      "catalog self' st' (C(?k \<mapsto> insert_ebuild st' ?e (shelf C ?k)))"
      "keeps_size (packages (sc_portage s)) (packages self')"
      "dom (st_ebuilds st') = insert ?e (dom (st_ebuilds (sc_store s)))"
      "dom (st_packages st') \<subseteq> insert ?p (dom (st_packages (sc_store s)))"
      "ebuild_ver (st_ebuilds st') = (ebuild_ver (st_ebuilds (sc_store s)))(?e := parse_version (version_text cs r))"
    using register_ebuild_effect [OF cat room new e(2,3) files] unfolding e(1) entry_file.simps by blast
  let ?s = "s\<lparr>sc_portage := self', sc_store := st', sc_next := sc_next s + 1, sc_i := sc_i s + 1\<rparr>"
  let ?C = "C(?k \<mapsto> insert_ebuild st' ?e (shelf C ?k))"
  have fin: "finite (dom C)"
    unfolding dom [symmetric] by (simp add: lut_map_def finite_dom_map_of)
  have "card (dom ?C) + n \<le> 2 ^ 16"
    using sized(3) by (simp add: card_insert_if [OF fin])
  moreover have "lut_sized m (packages self')"
    using r(3) sized dom unfolding keeps_size_def by simp
  moreover have "fst (addr j) \<notin> insert 0 (dom (st_ebuilds st')) \<and> snd (addr j) \<notin> insert 0 (dom (st_packages st'))"
    if "j \<in> {Suc (sc_next s)..<Suc (sc_next s) + n}" for j
  proof -
    have "fst (addr j) \<noteq> ?e" "snd (addr j) \<noteq> ?p"
      using that inj [THEN inj_onD, of j "sc_next s"] by auto
    then show ?thesis
      using unused [of j] that r(4,5) by auto
  qed
  moreover have "{Suc (sc_next s)..<Suc (sc_next s) + n} \<subseteq> {sc_next s..<sc_next s + Suc n}"
    by auto
  ultimately have "ready addr m n ?s ?C"
    using r(2) sized(2) inj [THEN inj_on_subset] unfolding ready_def by simp
  moreover have "filed addr s C [en] ?s ?C"
  proof -
    have "?e \<notin> dom (st_ebuilds (sc_store s))"
      using new(2) by (simp add: domIff)
    then have "\<forall>x \<in> dom (st_ebuilds (sc_store s)). ebuild_ver (st_ebuilds st') x = ebuild_ver (st_ebuilds (sc_store s)) x"
      unfolding r(6) by (metis fun_upd_other)
    moreover have "ebuild_ver (st_ebuilds st') ?e = entry_version en"
      by (simp add: r(6) e(1))
    moreover have "set (shelf ?C k) = set (shelf C k) \<union> new_ebuilds addr (sc_next s) [en] k" for k
      by (simp add: shelf_update set_insert_newest e(1) del: fun_upd_apply)
    ultimately show ?thesis
      unfolding filed_def using r(4) e(1) by (simp add: lessThan_Suc)
  qed
  ultimately show ?thesis
    using r(1) by (intro exI [of _ self'] exI [of _ st'] exI [of _ ?C]) (simp add: Let_def)
qed

lemma read_files_all:
  assumes "filter visible ds = map entry_file es" "\<forall>en \<in> set es. entry_ok c en"
    and "ready addr m (length es + n) s C" and files: "\<forall>f. os_realpath os f \<noteq> None"
  shows "\<exists>s' C'. read_files os addr ep cp c ds s = Some (s', None) \<and> ready addr m n s' C'
    \<and> filed addr s C es s' C'"
  using assms(1-3)
proof (induction ds arbitrary: es s C)
  case Nil
  then show ?case using filed_refl by auto
next
  case (Cons d ds)
  show ?case
  proof (cases "visible d")
    case False
    then have "read_files os addr ep cp c (d # ds) s = read_files os addr ep cp c ds s"
      by (auto simp: visible_def)
    then show ?thesis
      using Cons.IH [of es s C] Cons.prems False by simp
  next
    case True
    obtain en es' where es: "es = en # es'" "d = entry_file en" "filter visible ds = map entry_file es'"
      using Cons.prems(1) True by (cases es) auto
    obtain self' st' C1 where r: "register_ebuild (os_realpath os) ep cp (sc_portage s) (sc_store s)
          (fst (addr (sc_next s))) (snd (addr (sc_next s))) c d = Some (self', st', None)"
        "ready addr m (length es' + n)
          (s\<lparr>sc_portage := self', sc_store := st', sc_next := sc_next s + 1, sc_i := sc_i s + 1\<rparr>) C1"
        "filed addr s C [en]
          (s\<lparr>sc_portage := self', sc_store := st', sc_next := sc_next s + 1, sc_i := sc_i s + 1\<rparr>) C1"
      using read_file [of addr m "length es' + n" s C c en os ep cp] Cons.prems(2,3) files
      unfolding es(1,2) Let_def by auto
    let ?s = "s\<lparr>sc_portage := self', sc_store := st', sc_next := sc_next s + 1, sc_i := sc_i s + 1\<rparr>"
    have "read_files os addr ep cp c (d # ds) s = read_files os addr ep cp c ds ?s"
      using True r(1) by (simp add: visible_def)
    moreover obtain s2 C2 where "read_files os addr ep cp c ds ?s = Some (s2, None)" "ready addr m n s2 C2"
        "filed addr ?s C1 es' s2 C2"
      using Cons.IH [OF es(3) _ r(2)] Cons.prems(2) es(1) by auto
    ultimately show ?thesis
      using filed_trans [OF r(3), of es' s2 C2] es(1) by auto
  qed
qed

lemma read_categories_all:
  assumes "shows_cache os cp ds cats" "ready addr m (length (concat (map snd cats)) + n) s C"
    and files: "\<forall>f. os_realpath os f \<noteq> None"
  shows "\<exists>s' C'. read_categories os addr ep cp ds s = Some (s', None) \<and> ready addr m n s' C'
    \<and> filed addr s C (concat (map snd cats)) s' C'"
  using assms(1,2)
proof (induction ds arbitrary: cats s C)
  case Nil
  then show ?case using filed_refl by (auto simp: shows_cache_def)
next
  case (Cons d ds)
  let ?path = "cp @ ''/'' @ d"
  have path: "length ?path < PATH_MAX" "os_stat os ?path \<noteq> None"
    using Cons.prems(1) by (auto simp: shows_cache_def)
  show ?case
  proof (cases "is_category os cp d")
    case False
    then have "read_categories os addr ep cp (d # ds) s = read_categories os addr ep cp ds s"
      using path by (auto simp: is_category_def Let_def)
    moreover have "shows_cache os cp ds cats"
      using Cons.prems(1) False by (auto simp: shows_cache_def)
    ultimately show ?thesis
      using Cons.IH [of cats s C] Cons.prems(2) by simp
  next
    case True
    obtain es cats' where cats: "cats = (d, es) # cats'" "shows_cache os cp ds cats'" "shows_files os cp d es"
      using Cons.prems(1) True by (cases cats) (auto simp: shows_cache_def)
    obtain ff where ff: "os_opendir os ?path = Some ff" "filter visible ff = map entry_file es"
        "\<forall>en \<in> set es. entry_ok d en"
      using cats(3) by (auto simp: shows_files_def)
    have "ready addr m (length es + (length (concat (map snd cats')) + n)) s C"
      using Cons.prems(2) unfolding cats(1) by (simp add: add.assoc)
    then obtain s1 C1 where r: "read_files os addr ep cp d ff s = Some (s1, None)"
        "ready addr m (length (concat (map snd cats')) + n) s1 C1" "filed addr s C es s1 C1"
      using read_files_all [OF ff(2,3) _ files] by blast
    obtain s2 C2 where r2: "read_categories os addr ep cp ds s1 = Some (s2, None)" "ready addr m n s2 C2"
        "filed addr s1 C1 (concat (map snd cats')) s2 C2"
      using Cons.IH [OF cats(2) r(2)] by blast
    have "read_categories os addr ep cp (d # ds) s = Some (s2, None)"
      using True path ff(1) r(1) r2(1) by (simp add: is_category_def Let_def)
    then show ?thesis
      using r2(2) filed_trans [OF r(3) r2(3)] cats(1) by auto
  qed
qed

text \<open>The method on a well-formed cache, and what it leaves.\<close>

lemma initialize_repository_filed:
  assumes cat: "catalog self st C" and size: "lut_sized m (packages self)" "m < 2 ^ 50"
    and few: "card (dom C) + length (concat (map snd cats)) \<le> 2 ^ 16"
    and addr: "inj_on (\<lambda>j. fst (addr j)) {..<length (concat (map snd cats))}"
      "inj_on (\<lambda>j. snd (addr j)) {..<length (concat (map snd cats))}"
      "\<forall>j < length (concat (map snd cats)). fst (addr j) \<notin> insert 0 (dom (st_ebuilds st)) \<and> snd (addr j) \<notin> insert 0 (dom (st_packages st))"
    and cache: "os_opendir os cp = Some ds" "shows_cache os cp ds cats" "\<forall>f. os_realpath os f \<noteq> None"
  defines "es \<equiv> concat (map snd cats)"
  shows "\<exists>self' st' C'. PyPortage_initialize_repository os addr self st [ep, Some cp]
      = Some (self', st', Py_Int (int (length es)))
    \<and> catalog self' st' C' \<and> dom C' = dom C \<union> entry_key ` set es
    \<and> (\<forall>k. set (shelf C' k) = set (shelf C k) \<union> new_ebuilds addr 0 es k)
    \<and> (\<forall>j < length es. ebuild_ver (st_ebuilds st') (fst (addr j)) = entry_version (es ! j))"
proof -
  let ?s = "\<lparr>sc_portage = self, sc_store = st, sc_i = 0, sc_next = 0\<rparr>"
  have "ready addr m (length (concat (map snd cats)) + 0) ?s C"
    using cat size few addr by (simp add: ready_def atLeast0LessThan)
  then obtain s' C' where s': "read_categories os addr ep cp ds ?s = Some (s', None)" "ready addr m 0 s' C'"
      "filed addr ?s C es s' C'"
    using read_categories_all [OF cache(2) _ cache(3)] unfolding es_def by blast
  have "uint (sc_i s') = int (length es)"
    using s'(3) few by (simp add: filed_def es_def uint_nat unat_of_nat)
  then have "PyPortage_initialize_repository os addr self st [ep, Some cp]
      = Some (sc_portage s', sc_store s', Py_Int (int (length es)))"
    using s'(1) cache(1) by (simp add: PyPortage_initialize_repository_def)
  then show ?thesis
    using s'(2,3) by (auto simp: ready_def filed_def)
qed

section \<open>From the cache to the answer\<close>

text \<open>The components and the revision of an entry, and whether a range relative to others admits them.\<close>

fun entry_components :: "entry \<Rightarrow> component list \<times> nat" where
  "entry_components (category, name, cs, r) = (cs, rev_of r)"

definition range_includes :: "U32 \<Rightarrow> component list \<times> nat \<Rightarrow> component list \<times> nat \<Rightarrow> bool" where
  "range_includes rng v w \<longleftrightarrow> v = w \<and> has_flag rng ATOM_VERSION_E \<or> w < v \<and> has_flag rng ATOM_VERSION_G
     \<or> v < w \<and> has_flag rng ATOM_VERSION_L"

lemma entry_chain: "entry_ok c en \<Longrightarrow> component_chain (entry_version en) (fst (entry_components en)) (snd (entry_components en))"
  using parsed_chain by (cases en) (auto simp: parse_components bounded_def)

lemma admitted_components:
  assumes "component_chain (ebuild_ver m x) cs r" "component_chain v ms q"
  shows "admitted m v rng x \<longleftrightarrow> range_includes rng (cs, r) (ms, q)"
  using compare_component_chain [OF assms]
  by (auto simp: admitted_def range_admits_def range_includes_def not_less_iff_gr_or_eq)

lemma find_newest:
  assumes "newest_first cmp ver xs" "find P xs = Some x" "y \<in> set xs" "P y"
  shows "P x \<and> x \<in> set xs \<and> (y = x \<or> not_newer cmp (ver y) (ver x))"
  using assms by (induction xs) (auto simp: newest_first_def split: if_splits)

text \<open>The best answer to a query: the address of an entry of the key that the range admits and
  that no other such entry exceeds, or none when the range admits no entry of the key.\<close>

definition best_entry :: "(nat \<Rightarrow> U64 \<times> U64) \<Rightarrow> entry list \<Rightarrow> (entry \<Rightarrow> bool) \<Rightarrow> py_result \<Rightarrow> bool" where
  "best_entry addr es wanted res \<longleftrightarrow>
     (case res of
        Py_None \<Rightarrow> \<forall>en \<in> set es. \<not> wanted en
      | Py_Obj x \<Rightarrow> \<exists>j < length es. x = fst (addr j) \<and> wanted (es ! j)
          \<and> (\<forall>en \<in> set es. wanted en \<longrightarrow> entry_components en \<le> entry_components (es ! j))
      | _ \<Rightarrow> False)"

lemma new_ebuilds_iff:
  "x \<in> new_ebuilds addr n es k \<longleftrightarrow> (\<exists>j < length es. x = fst (addr (n + j)) \<and> entry_key (es ! j) = k)"
proof (induction es arbitrary: n)
  case (Cons en es)
  have "(\<exists>j < length (en # es). x = fst (addr (n + j)) \<and> entry_key ((en # es) ! j) = k)
    \<longleftrightarrow> x = fst (addr n) \<and> entry_key en = k
      \<or> (\<exists>j < length es. x = fst (addr (Suc n + j)) \<and> entry_key (es ! j) = k)"
    by (auto simp: Ex_less_Suc2)
  then show ?case using Cons.IH [of "Suc n"] by auto
qed simp

lemma shelf_best:
  assumes holds: "holds_package st k i pk xs" and set: "set xs = new_ebuilds addr 0 es k"
    and ver: "\<forall>j < length es. ebuild_ver (st_ebuilds st) (fst (addr j)) = entry_version (es ! j)"
    and ok: "\<forall>en \<in> set es. \<exists>c. entry_ok c en" and v: "component_chain v cs r"
  shows "best_entry addr es (\<lambda>en. entry_key en = k \<and> range_includes rng (entry_components en) (cs, r))
    (case find (admitted (st_ebuilds st) v rng) xs of None \<Rightarrow> Py_None | Some x \<Rightarrow> Py_Obj x)"
proof -
  let ?m = "st_ebuilds st"
  have chain: "component_chain (ebuild_ver ?m (fst (addr j))) (fst (entry_components (es ! j))) (snd (entry_components (es ! j)))"
    if "j < length es" for j
    using ver ok that entry_chain nth_mem [OF that] by metis
  have adm: "admitted ?m v rng (fst (addr j)) \<longleftrightarrow> range_includes rng (entry_components (es ! j)) (cs, r)"
    if "j < length es" for j
    using admitted_components [OF chain [OF that] v] by simp
  have index: "\<exists>j < length es. en = es ! j \<and> fst (addr j) \<in> set xs" if "en \<in> set es" "entry_key en = k" for en
    using that unfolding set new_ebuilds_iff by (metis add_0 in_set_conv_nth)
  show ?thesis
  proof (cases "find (admitted ?m v rng) xs")
    case None
    then have "\<not> range_includes rng (entry_components en) (cs, r)" if "en \<in> set es" "entry_key en = k" for en
      using index [OF that] adm by (auto simp: find_None_iff)
    then show ?thesis using None by (auto simp: best_entry_def)
  next
    case (Some x)
    have newest: "newest ?m xs"
      using holds by (simp add: holds_package_def package_inv_def)
    have x: "admitted ?m v rng x" "x \<in> set xs"
      using Some by (auto simp: find_Some_iff)
    then obtain j where j: "j < length es" "x = fst (addr j)" "entry_key (es ! j) = k"
      unfolding set new_ebuilds_iff by auto
    have "entry_components en \<le> entry_components (es ! j)"
      if en: "en \<in> set es" "entry_key en = k" "range_includes rng (entry_components en) (cs, r)" for en
    proof -
      obtain l where l: "l < length es" "en = es ! l" "fst (addr l) \<in> set xs"
        using index [OF en(1,2)] by blast
      have "fst (addr l) = x \<or> not_newer_than ?m (ebuild_ver ?m (fst (addr l))) x"
        using find_newest [OF newest Some l(3)] adm [OF l(1)] en(3) l(2) by blast
      then show ?thesis
        using not_newer_chain [OF chain [OF l(1)] chain [OF j(1)]] not_newer_chain [OF chain [OF l(1)] chain [OF l(1)]]
          chain [OF j(1)] chain [OF l(1)] l(2) j(2)
        by auto
    qed
    then show ?thesis
      using Some j x(1) adm [OF j(1)] by (auto simp: best_entry_def)
  qed
qed

lemma catalog_new: "catalog PyPortage_init empty_store Map.empty"
  by (simp add: catalog_def PyPortage_init_def lut_new_inv lut_new_map lut_python_def lut_nodes_new
      PORTAGE_INITIAL_PKG_LUT_SIZE_def)

lemma shows_cache_ok:
  "shows_cache os cp ds cats \<Longrightarrow> en \<in> set (concat (map snd cats)) \<Longrightarrow> \<exists>c. entry_ok c en"
  by (fastforce simp: shows_cache_def shows_files_def)

text \<open>An allocator that returns \<open>n\<close> different objects of each kind.\<close>

definition good_addresses :: "(nat \<Rightarrow> U64 \<times> U64) \<Rightarrow> nat \<Rightarrow> bool" where
  "good_addresses addr n \<longleftrightarrow> inj_on (\<lambda>j. fst (addr j)) {..<n} \<and> inj_on (\<lambda>j. snd (addr j)) {..<n}
     \<and> (\<forall>j < n. fst (addr j) \<noteq> 0 \<and> snd (addr j) \<noteq> 0)"

lemma initialize_new:
  assumes cache: "os_opendir os cp = Some ds" "shows_cache os cp ds cats" "\<forall>f. os_realpath os f \<noteq> None"
    and addr: "good_addresses addr (length (concat (map snd cats)))"
    and few: "length (concat (map snd cats)) \<le> 2 ^ 16"
  defines "es \<equiv> concat (map snd cats)"
  shows "\<exists>self st C. PyPortage_initialize_repository os addr PyPortage_init empty_store [ep, Some cp]
      = Some (self, st, Py_Int (int (length es)))
    \<and> catalog self st C \<and> dom C = entry_key ` set es
    \<and> (\<forall>k. set (shelf C k) = new_ebuilds addr 0 es k)
    \<and> (\<forall>j < length es. ebuild_ver (st_ebuilds st) (fst (addr j)) = entry_version (es ! j))"
proof -
  have "lut_sized 512 (packages PyPortage_init)"
    using lut_new_sized [of 512] by (simp add: PyPortage_init_def PORTAGE_INITIAL_PKG_LUT_SIZE_def)
  then show ?thesis
    using initialize_repository_filed [OF catalog_new _ _ _ _ _ _ cache, of 512 addr ep] addr few
    unfolding es_def good_addresses_def by (simp add: empty_store_def shelf_def)
qed

text \<open>A cache with one category and two versions of a package.\<close>

definition demo_os :: os where
  "demo_os = \<lparr>os_opendir = [''/c'' \<mapsto> [''.'', ''a'', ''repo''], ''/c/a'' \<mapsto> [''b-1.0_p1'', ''.x'', ''Manifest.gz'', ''b-1.2'']],
     os_stat = (\<lambda>p. Some (p \<noteq> ''/c/repo'')), os_realpath = Some\<rparr>"

definition demo_addr :: "nat \<Rightarrow> U64 \<times> U64" where
  "demo_addr j = (if j = 0 then (16, 32) else (48, 64))"

definition demo_cats :: "(string \<times> entry list) list" where
  "demo_cats = [(''a'', [(''a'', ''b'', [num 1, num 0, (ATOM_PREFIX_P, 1)], None), (''a'', ''b'', [num 1, num 2], None)])]"

lemma demo_cache:
  "os_opendir demo_os ''/c'' = Some [''.'', ''a'', ''repo'']"
  "shows_cache demo_os ''/c'' [''.'', ''a'', ''repo''] demo_cats"
  "\<forall>f. os_realpath demo_os f \<noteq> None"
  "good_addresses demo_addr (length (concat (map snd demo_cats)))"
  "length (concat (map snd demo_cats)) \<le> 2 ^ 16"
  by (simp_all add: demo_os_def shows_cache_def demo_cats_def is_category_def shows_files_def visible_def
      char_at_def PATH_MAX_def version_text_eval bounded_def rev_of_def
      good_addresses_def demo_addr_def lessThan_Suc inj_on_def less_Suc_eq)





end
