(* ===== verification/Metadata.thy ===== *)
theory Metadata
  imports Portage
begin

text \<open>
  Reading the cache file of an ebuild: \<open>ebuild_metadata_init\<close> of autogentoo/cportage/ebuild.c. A
  file is the bytes still to be read and the end-of-file flag of its stream. The parsers of
  dependency and required-use expressions are parameters that may change an environment and return
  a chain, empty for NULL; MetadataText puts those of depend.y and requireduse.y in their place. The lemmas show
  that a file made of \<open>KEY=value\<close> lines is read line by line, and what an error leaves behind.
\<close>

section \<open>Streams\<close>

type_synonym stream = "string \<times> bool"

text \<open>\<open>getdelim\<close> returns the bytes up to and with the delimiter, or what is left at the end of the
  file, or -1 (None) when nothing is left.\<close>

definition getdelim :: "char \<Rightarrow> stream \<Rightarrow> string option \<times> stream" where
  "getdelim delim fp =
     (if fst fp = [] then (None, [], True)
      else case dropWhile (\<lambda>c. c \<noteq> delim) (fst fp) of
        [] \<Rightarrow> (Some (fst fp), [], True)
      | d # rest \<Rightarrow> (Some (takeWhile (\<lambda>c. c \<noteq> delim) (fst fp) @ [d]), rest, snd fp))"

text \<open>The bytes read, as a C string whose last byte is overwritten with the terminator.\<close>

definition chop :: "string \<Rightarrow> string" where
  "chop s = takeWhile (\<lambda>c. c \<noteq> CHR 0x00) (butlast s)"

section \<open>The fields filled from the file\<close>

record EbuildMeta =
  md_depend :: "Dependency list"
  md_bdepend :: "Dependency list"
  md_rdepend :: "Dependency list"
  md_pdepend :: "Dependency list"
  md_iuse :: "string \<rightharpoonup> UseFlag"
  md_keywords :: "arch \<Rightarrow> keyword"
  md_required_use :: "RequiredUse list"

datatype depend_field = Depend | RDepend | PDepend | BDepend

definition depend_setup :: "(string \<times> depend_field) list" where
  "depend_setup = [(''DEPEND'', Depend), (''RDEPEND'', RDepend), (''PDEPEND'', PDepend), (''BDEPEND'', BDepend)]"

fun depend_get :: "depend_field \<Rightarrow> EbuildMeta \<Rightarrow> Dependency list" where
  "depend_get Depend = md_depend"
| "depend_get RDepend = md_rdepend"
| "depend_get PDepend = md_pdepend"
| "depend_get BDepend = md_bdepend"

fun depend_set :: "depend_field \<Rightarrow> Dependency list \<Rightarrow> EbuildMeta \<Rightarrow> EbuildMeta" where
  "depend_set Depend d md = md\<lparr>md_depend := d\<rparr>"
| "depend_set RDepend d md = md\<lparr>md_rdepend := d\<rparr>"
| "depend_set PDepend d md = md\<lparr>md_pdepend := d\<rparr>"
| "depend_set BDepend d md = md\<lparr>md_bdepend := d\<rparr>"

record 'env parsers =
  depend_parse :: "'env \<Rightarrow> string \<Rightarrow> 'env \<times> Dependency list"
  required_use_parse :: "'env \<Rightarrow> string \<Rightarrow> 'env \<times> RequiredUse list"

record 'env meta_state =
  ms_env :: 'env
  ms_ebuild :: Ebuild
  ms_meta :: EbuildMeta
  ms_error :: int

section \<open>The loop over the file\<close>

text \<open>The inner loop over \<open>depend_setup\<close>; the result tells whether the line is done. Its \<open>break\<close>
  after an error leaves only this loop.\<close>

definition metadata_depend :: "'env parsers \<Rightarrow> string \<Rightarrow> string \<Rightarrow> 'env meta_state \<Rightarrow> bool \<times> 'env meta_state" where
  "metadata_depend p name val s =
     (case map_of depend_setup name of
        None \<Rightarrow> (False, s)
      | Some target \<Rightarrow>
          if depend_get target (ms_meta s) \<noteq> [] then (False, s\<lparr>ms_error := 1\<rparr>)
          else (let (env, d) = depend_parse p (ms_env s) val;
                    s = s\<lparr>ms_env := env, ms_meta := depend_set target d (ms_meta s)\<rparr>
                in if d = [] then (False, s\<lparr>ms_error := 2\<rparr>) else (True, s)))"

text \<open>One line. The flag of the result tells whether the loop goes on; \<open>SLOT\<close> without a token
  duplicates the NULL pointer.\<close>

definition metadata_line :: "'env parsers \<Rightarrow> string \<Rightarrow> string \<Rightarrow> 'env meta_state \<Rightarrow> (bool \<times> 'env meta_state) option" where
  "metadata_line p name val s =
     (let (is_dep, s) = metadata_depend p name val s in
      if is_dep then Some (True, s)
      else if strcmp name ''SLOT'' = 0
      then (case strtok_all ''/'' val of
          [] \<Rightarrow> None
        | tok # toks \<Rightarrow>
            let eb = (ms_ebuild s)\<lparr>eb_slot := Some tok\<rparr>
            in Some (True, s\<lparr>ms_ebuild :=
                 (case toks of [] \<Rightarrow> eb | sub # _ \<Rightarrow> eb\<lparr>eb_sub_slot := Some sub\<rparr>)\<rparr>))
      else if strcmp name ''REQUIRED_USE'' = 0
      then (let (env, r) = required_use_parse p (ms_env s) val;
                s = s\<lparr>ms_env := env, ms_meta := (ms_meta s)\<lparr>md_required_use := r\<rparr>\<rparr>
            in if r = [] then Some (False, s\<lparr>ms_error := 3\<rparr>) else Some (True, s))
      else if strcmp name ''KEYWORDS'' = 0
      then Some (True, s\<lparr>ms_meta := (ms_meta s)
             \<lparr>md_keywords := ebuild_keyword_init (md_keywords (ms_meta s)) val\<rparr>\<rparr>)
      else if strcmp name ''IUSE'' = 0
      then Some (True, s\<lparr>ms_meta := (ms_meta s)\<lparr>md_iuse := ebuild_iuse_init (md_iuse (ms_meta s)) val\<rparr>\<rparr>)
      else Some (True, s))"

lemma getdelim_shorter: "getdelim d fp = (Some s, fp') \<Longrightarrow> length (fst fp') < length (fst fp)"
proof -
  assume g: "getdelim d fp = (Some s, fp')"
  have "length (dropWhile (\<lambda>c. c \<noteq> d) (fst fp)) \<le> length (fst fp)"
    by (rule length_dropWhile_le)
  then show ?thesis
    using g by (auto simp: getdelim_def split: if_splits list.splits)
qed

function metadata_loop :: "'env parsers \<Rightarrow> stream \<Rightarrow> 'env meta_state \<Rightarrow> 'env meta_state option" where
  "metadata_loop p fp s =
     (if snd fp then Some s
      else case getdelim CHR ''='' fp of
        (None, fp) \<Rightarrow> Some s
      | (Some name, fp) \<Rightarrow>
          (case getdelim CHR 0x0A fp of
             (None, fp) \<Rightarrow> Some s
           | (Some val, fp) \<Rightarrow>
               (case metadata_line p (chop name) (chop val) s of
                  None \<Rightarrow> None
                | Some (go_on, s) \<Rightarrow> if go_on then metadata_loop p fp s else Some s)))"
  by pat_completeness auto
termination
  by (relation "measure (\<lambda>(p, fp, s). length (fst fp))")
    (auto dest!: getdelim_shorter [OF sym] simp del: fst_conv dest: less_trans)

declare metadata_loop.simps [simp del]

text \<open>The file is what \<open>fopen\<close> finds under a name; closing it may fail.\<close>

definition ebuild_metadata_init ::
    "(string \<Rightarrow> string option) \<Rightarrow> bool \<Rightarrow> 'env parsers \<Rightarrow> 'env meta_state
      \<Rightarrow> (int \<times> py_exc option \<times> 'env meta_state) option" where
  "ebuild_metadata_init fopen fclose_ok p s =
     do { cache_file \<leftarrow> eb_cache_file (ms_ebuild s);
          case fopen cache_file of
            None \<Rightarrow> Some (- 1, Some FileNotFoundError, s)
          | Some content \<Rightarrow>
              do { s \<leftarrow> metadata_loop p (content, False)
                     (s\<lparr>ms_meta := (ms_meta s)\<lparr>md_keywords := (\<lambda>_. KEYWORD_NONE)\<rparr>, ms_error := 0\<rparr>);
                   let s = (if ms_error s = 0
                            then s\<lparr>ms_ebuild := (ms_ebuild s)\<lparr>eb_metadata_init := True\<rparr>\<rparr> else s);
                   Some (if fclose_ok then ms_error s else 4, None, s) } }"

definition PyEbuild_metadata_init ::
    "(string \<Rightarrow> string option) \<Rightarrow> bool \<Rightarrow> 'env parsers \<Rightarrow> 'env meta_state \<Rightarrow> nat
      \<Rightarrow> (py_result \<times> 'env meta_state) option" where
  "PyEbuild_metadata_init fopen fclose_ok p s nargs =
     (if nargs \<noteq> 0 then Some (Py_Raise TypeError, s)
      else do { (r, _, s) \<leftarrow> ebuild_metadata_init fopen fclose_ok p s;
                Some (if r \<noteq> 0 then Py_Raise RuntimeError else Py_None, s) })"

section \<open>Files of lines\<close>

definition meta_text :: "string \<times> string \<Rightarrow> string" where
  "meta_text kv = fst kv @ ''='' @ snd kv"

definition meta_file :: "(string \<times> string) list \<Rightarrow> string" where
  "meta_file kvs = concat (map (\<lambda>kv. meta_text kv @ [CHR 0x0A]) kvs)"

definition clean_line :: "string \<times> string \<Rightarrow> bool" where
  "clean_line kv \<longleftrightarrow> CHR ''='' \<notin> set (fst kv) \<and> CHR 0x0A \<notin> set (snd kv)
     \<and> CHR 0x00 \<notin> set (fst kv) \<and> CHR 0x00 \<notin> set (snd kv)"

text \<open>The reading of a list of keys and values.\<close>

fun metadata_lines :: "'env parsers \<Rightarrow> (string \<times> string) list \<Rightarrow> 'env meta_state \<Rightarrow> 'env meta_state option" where
  "metadata_lines p [] s = Some s"
| "metadata_lines p (kv # kvs) s =
     (case metadata_line p (fst kv) (snd kv) s of
        None \<Rightarrow> None
      | Some (go_on, s) \<Rightarrow> if go_on then metadata_lines p kvs s else Some s)"

lemma getdelim_found: "d \<notin> set k \<Longrightarrow> getdelim d (k @ d # rest, eof) = (Some (k @ [d]), rest, eof)"
proof -
  assume "d \<notin> set k"
  then have "\<forall>c \<in> set k. c \<noteq> d" by auto
  then have "dropWhile (\<lambda>c. c \<noteq> d) (k @ d # rest) = d # rest" "takeWhile (\<lambda>c. c \<noteq> d) (k @ d # rest) = k"
    by (simp_all add: dropWhile_append2 takeWhile_append2)
  then show ?thesis by (simp add: getdelim_def)
qed

lemma getdelim_rest: "d \<notin> set k \<Longrightarrow> k \<noteq> [] \<Longrightarrow> getdelim d (k, eof) = (Some k, [], True)"
proof -
  assume "d \<notin> set k" "k \<noteq> []"
  then have "dropWhile (\<lambda>c. c \<noteq> d) k = []" by (auto simp: dropWhile_eq_Nil_conv)
  then show ?thesis using \<open>k \<noteq> []\<close> by (simp add: getdelim_def del: dropWhile_eq_Nil_conv)
qed

lemma chop_clean: "CHR 0x00 \<notin> set k \<Longrightarrow> chop (k @ [d]) = k" "CHR 0x00 \<notin> set k \<Longrightarrow> chop k = butlast k"
  by (auto simp: chop_def takeWhile_eq_all_conv dest: in_set_butlastD)

lemma metadata_loop_line:
  assumes "clean_line kv"
  shows "metadata_loop p (meta_text kv @ CHR 0x0A # rest, False) s =
    (case metadata_line p (fst kv) (snd kv) s of
       None \<Rightarrow> None
     | Some (go_on, s) \<Rightarrow> if go_on then metadata_loop p (rest, False) s else Some s)"
  using assms getdelim_found [of "CHR ''=''" "fst kv" "snd kv @ CHR 0x0A # rest" False]
    getdelim_found [of "CHR 0x0A" "snd kv" rest False]
  by (subst metadata_loop.simps) (simp add: meta_text_def clean_line_def chop_clean(1))

lemma metadata_loop_file:
  assumes "\<forall>kv \<in> set kvs. clean_line kv" "\<And>s. metadata_loop p (rest, False) s = metadata_lines p final s"
  shows "metadata_loop p (meta_file kvs @ rest, False) s = metadata_lines p (kvs @ final) s"
  using assms(1)
proof (induction kvs arbitrary: s)
  case Nil
  then show ?case by (simp add: meta_file_def assms(2))
next
  case (Cons kv kvs)
  have "meta_file (kv # kvs) @ rest = meta_text kv @ CHR 0x0A # (meta_file kvs @ rest)"
    by (simp add: meta_file_def)
  then show ?case
    using metadata_loop_line [of kv p "meta_file kvs @ rest" s] Cons
    by (auto split: option.split)
qed

lemma metadata_loop_end: "metadata_loop p ([], False) s = Some s"
  by (subst metadata_loop.simps) (simp add: getdelim_def)

lemma metadata_loop_lines:
  assumes "\<forall>kv \<in> set kvs. clean_line kv"
  shows "metadata_loop p (meta_file kvs, False) s = metadata_lines p kvs s"
  using metadata_loop_file [OF assms, where rest = "[]" and p = p and final = "[]" and s = s]
  by (simp add: metadata_loop_end)

text \<open>Without a newline at its end the last line loses its last byte.\<close>

lemma metadata_loop_last:
  assumes "clean_line (k, v)" "v \<noteq> []"
  shows "metadata_loop p (k @ ''='' @ v, False) s = metadata_lines p [(k, butlast v)] s"
proof -
  have stop: "metadata_loop p ([], True) s = Some s" for s
    by (subst metadata_loop.simps) simp
  show ?thesis
    using assms getdelim_found [of "CHR ''=''" k v False] getdelim_rest [of "CHR 0x0A" v False]
    by (subst metadata_loop.simps) (simp add: clean_line_def chop_clean stop split: option.split)
qed

lemma metadata_loop_cut:
  assumes "\<forall>kv \<in> set kvs. clean_line kv" "clean_line (k, v)" "v \<noteq> []"
  shows "metadata_loop p (meta_file kvs @ k @ ''='' @ v, False) s = metadata_lines p (kvs @ [(k, butlast v)]) s"
  by (rule metadata_loop_file [OF assms(1) metadata_loop_last [OF assms(2,3)]])

section \<open>Errors\<close>

text \<open>A field given once is filled or has failed, and an error is never taken back.\<close>

definition settled :: "depend_field \<Rightarrow> 'env meta_state \<Rightarrow> bool" where
  "settled t s \<longleftrightarrow> ms_error s \<noteq> 0 \<or> depend_get t (ms_meta s) \<noteq> []"

lemma depend_get_set: "depend_get t (depend_set u d md) = (if t = u then d else depend_get t md)"
  by (cases t; cases u) simp_all

lemma depend_get_other [simp]:
  "depend_get t (md\<lparr>md_iuse := i\<rparr>) = depend_get t md" "depend_get t (md\<lparr>md_keywords := kw\<rparr>) = depend_get t md"
  "depend_get t (md\<lparr>md_required_use := r\<rparr>) = depend_get t md"
  by (cases t; simp)+

lemma metadata_depend_settled:
  assumes "metadata_depend p name val s = (b, s')"
  shows "ms_error s \<noteq> 0 \<Longrightarrow> ms_error s' \<noteq> 0" "settled t s \<Longrightarrow> settled t s'"
    "map_of depend_setup name = Some t \<Longrightarrow> settled t s' \<and> (depend_get t (ms_meta s) \<noteq> [] \<longrightarrow> ms_error s' \<noteq> 0)"
    "eb_metadata_init (ms_ebuild s') = eb_metadata_init (ms_ebuild s)"
  using assms
  by (auto simp: metadata_depend_def settled_def depend_get_set Let_def split: option.splits if_splits prod.splits)

lemma metadata_line_settled:
  assumes "metadata_line p name val s = Some (b, s')"
  shows "ms_error s \<noteq> 0 \<Longrightarrow> ms_error s' \<noteq> 0" "settled t s \<Longrightarrow> settled t s'" "\<not> b \<Longrightarrow> ms_error s' \<noteq> 0"
    "map_of depend_setup name = Some t \<Longrightarrow> settled t s' \<and> (depend_get t (ms_meta s) \<noteq> [] \<longrightarrow> ms_error s' \<noteq> 0)"
    "eb_metadata_init (ms_ebuild s') = eb_metadata_init (ms_ebuild s)"
proof -
  obtain d s1 where d: "metadata_depend p name val s = (d, s1)" by fastforce
  note one = metadata_depend_settled [OF d]
  have s': "(ms_error s' = ms_error s1 \<or> ms_error s' = 3) \<and> (\<not> b \<longrightarrow> ms_error s' = 3)
      \<and> (\<forall>t. depend_get t (ms_meta s') = depend_get t (ms_meta s1))
      \<and> eb_metadata_init (ms_ebuild s') = eb_metadata_init (ms_ebuild s1)"
    using assms by (auto simp: metadata_line_def d Let_def split: if_splits list.splits prod.splits)
  show "ms_error s \<noteq> 0 \<Longrightarrow> ms_error s' \<noteq> 0" using one(1) s' by auto
  show "settled t s \<Longrightarrow> settled t s'" using one(2) [of t] s' by (auto simp: settled_def)
  show "\<not> b \<Longrightarrow> ms_error s' \<noteq> 0" using s' by auto
  show "map_of depend_setup name = Some t \<Longrightarrow> settled t s' \<and> (depend_get t (ms_meta s) \<noteq> [] \<longrightarrow> ms_error s' \<noteq> 0)"
    using one(3) [of t] s' by (auto simp: settled_def)
  show "eb_metadata_init (ms_ebuild s') = eb_metadata_init (ms_ebuild s)" using one(4) s' by simp
qed

section \<open>Lines in any order\<close>

definition metadata_start :: "'env meta_state \<Rightarrow> 'env meta_state" where
  "metadata_start s = s\<lparr>ms_meta := (ms_meta s)\<lparr>md_keywords := (\<lambda>_. KEYWORD_NONE)\<rparr>, ms_error := 0\<rparr>"

definition metadata_finish :: "'env meta_state \<Rightarrow> 'env meta_state" where
  "metadata_finish s = (if ms_error s = 0
     then s\<lparr>ms_ebuild := (ms_ebuild s)\<lparr>eb_metadata_init := True\<rparr>\<rparr> else s)"

lemma metadata_init_loop:
  assumes "eb_cache_file (ms_ebuild s) = Some f" "fopen f = Some content"
  shows "ebuild_metadata_init fopen True p s = map_option (\<lambda>s. (ms_error s, None, metadata_finish s))
    (metadata_loop p (content, False) (metadata_start s))"
  using assms by (cases "metadata_loop p (content, False) (metadata_start s)")
    (simp_all add: ebuild_metadata_init_def metadata_start_def metadata_finish_def Let_def)

text \<open>Parsers that leave the environment alone, and a line they accept.\<close>

definition pure_parsers :: "(string \<Rightarrow> Dependency list) \<Rightarrow> (string \<Rightarrow> RequiredUse list) \<Rightarrow> 'env parsers \<Rightarrow> bool" where
  "pure_parsers d r p \<longleftrightarrow> (\<forall>env v. depend_parse p env v = (env, d v) \<and> required_use_parse p env v = (env, r v))"

definition accepted_line :: "(string \<Rightarrow> Dependency list) \<Rightarrow> (string \<Rightarrow> RequiredUse list) \<Rightarrow> string \<times> string \<Rightarrow> bool" where
  "accepted_line d r kv \<longleftrightarrow> (map_of depend_setup (fst kv) \<noteq> None \<longrightarrow> d (snd kv) \<noteq> [])
     \<and> (fst kv = ''REQUIRED_USE'' \<longrightarrow> r (snd kv) \<noteq> [])
     \<and> (fst kv = ''SLOT'' \<longrightarrow> strtok_all ''/'' (snd kv) \<noteq> [])"

text \<open>What a file with these lines leaves in the fields.\<close>

definition line_or :: "(string \<times> string) list \<Rightarrow> string \<Rightarrow> 'a \<Rightarrow> (string \<Rightarrow> 'a) \<Rightarrow> 'a" where
  "line_or kvs k old f = (case map_of kvs k of None \<Rightarrow> old | Some v \<Rightarrow> f v)"

definition fields_read :: "(string \<Rightarrow> Dependency list) \<Rightarrow> (string \<Rightarrow> RequiredUse list) \<Rightarrow> (string \<times> string) list
    \<Rightarrow> 'env meta_state \<Rightarrow> 'env meta_state \<Rightarrow> bool" where
  "fields_read d r kvs s s' \<longleftrightarrow>
     (\<forall>k t. map_of depend_setup k = Some t
        \<longrightarrow> depend_get t (ms_meta s') = line_or kvs k (depend_get t (ms_meta s)) d)
     \<and> md_required_use (ms_meta s') = line_or kvs ''REQUIRED_USE'' (md_required_use (ms_meta s)) r
     \<and> md_keywords (ms_meta s') = line_or kvs ''KEYWORDS'' (md_keywords (ms_meta s))
          (ebuild_keyword_init (md_keywords (ms_meta s)))
     \<and> md_iuse (ms_meta s') = line_or kvs ''IUSE'' (md_iuse (ms_meta s)) (ebuild_iuse_init (md_iuse (ms_meta s)))
     \<and> eb_slot (ms_ebuild s') = line_or kvs ''SLOT'' (eb_slot (ms_ebuild s)) (\<lambda>v. Some (hd (strtok_all ''/'' v)))"

lemma depend_names:
  "map_of depend_setup k = Some t \<Longrightarrow> k \<notin> {''SLOT'', ''REQUIRED_USE'', ''KEYWORDS'', ''IUSE''}"
  "map_of depend_setup k = Some t \<Longrightarrow> map_of depend_setup k' = Some t' \<Longrightarrow> t = t' \<longleftrightarrow> k = k'"
  by (auto simp: depend_setup_def split: if_splits)

lemma metadata_line_reads:
  assumes p: "pure_parsers d r p" and ok: "accepted_line d r kv"
    and new: "\<And>t. map_of depend_setup (fst kv) = Some t \<Longrightarrow> depend_get t (ms_meta s) = []"
  shows "\<exists>s'. metadata_line p (fst kv) (snd kv) s = Some (True, s') \<and> ms_error s' = ms_error s
    \<and> fields_read d r [kv] s s'"
proof (cases "map_of depend_setup (fst kv)")
  case (Some t)
  let ?s = "s\<lparr>ms_meta := depend_set t (d (snd kv)) (ms_meta s)\<rparr>"
  have "metadata_line p (fst kv) (snd kv) s = Some (True, ?s)"
    using Some p ok new [OF Some]
    by (simp add: metadata_line_def metadata_depend_def pure_parsers_def accepted_line_def Let_def)
  moreover have "md_required_use (depend_set t x m) = md_required_use m" "md_keywords (depend_set t x m) = md_keywords m"
      "md_iuse (depend_set t x m) = md_iuse m" for x m
    by (cases t; simp)+
  moreover have "\<forall>k u. map_of depend_setup k = Some u \<longrightarrow>
      depend_get u (ms_meta ?s) = line_or [kv] k (depend_get u (ms_meta s)) d"
    using depend_names(2) [OF Some] by (auto simp: depend_get_set line_or_def)
  ultimately show ?thesis
    using depend_names(1) [OF Some] by (auto simp: fields_read_def line_or_def)
next
  case None
  have dep: "metadata_depend p (fst kv) (snd kv) s = (False, s)"
    using None by (simp add: metadata_depend_def)
  have "\<exists>s'. metadata_line p (fst kv) (snd kv) s = Some (True, s') \<and> ms_error s' = ms_error s
      \<and> (\<forall>t. depend_get t (ms_meta s') = depend_get t (ms_meta s))
      \<and> md_required_use (ms_meta s') = line_or [kv] ''REQUIRED_USE'' (md_required_use (ms_meta s)) r
      \<and> md_keywords (ms_meta s') = line_or [kv] ''KEYWORDS'' (md_keywords (ms_meta s))
          (ebuild_keyword_init (md_keywords (ms_meta s)))
      \<and> md_iuse (ms_meta s') = line_or [kv] ''IUSE'' (md_iuse (ms_meta s)) (ebuild_iuse_init (md_iuse (ms_meta s)))
      \<and> eb_slot (ms_ebuild s') = line_or [kv] ''SLOT'' (eb_slot (ms_ebuild s)) (\<lambda>v. Some (hd (strtok_all ''/'' v)))"
    using p ok unfolding metadata_line_def dep pure_parsers_def accepted_line_def
    by (cases "strtok_all ''/'' (snd kv)") (auto simp: Let_def line_or_def split: list.splits)
  then show ?thesis
    using None by (fastforce simp: fields_read_def line_or_def)
qed

lemma line_or_none: "k \<notin> fst ` set kvs \<Longrightarrow> line_or kvs k old f = old"
  by (simp add: line_or_def map_of_eq_None_iff [THEN iffD2])

lemma line_or_cons: "line_or (kv # kvs) k old f = (if fst kv = k then f (snd kv) else line_or kvs k old f)"
  by (auto simp: line_or_def)

lemma line_or_nil: "line_or [] k old f = old"
  by (simp add: line_or_def)

lemma line_or_single: "line_or [kv] k old f = (if fst kv = k then f (snd kv) else old)"
  by (auto simp: line_or_def)

lemma fields_read_cons:
  assumes a: "fields_read d r [kv] s s1" and b: "fields_read d r kvs s1 s2" and new: "fst kv \<notin> fst ` set kvs"
  shows "fields_read d r (kv # kvs) s s2"
  using a b new unfolding fields_read_def line_or_cons
  by (auto simp: line_or_none line_or_nil split: if_splits)

lemma metadata_lines_read:
  assumes "pure_parsers d r p" "\<forall>kv \<in> set kvs. accepted_line d r kv" "distinct (map fst kvs)"
    and "\<And>k t. k \<in> fst ` set kvs \<Longrightarrow> map_of depend_setup k = Some t \<Longrightarrow> depend_get t (ms_meta s) = []"
  shows "\<exists>s'. metadata_lines p kvs s = Some s' \<and> ms_error s' = ms_error s \<and> fields_read d r kvs s s'"
  using assms(2-4)
proof (induction kvs arbitrary: s)
  case Nil
  then show ?case by (simp add: fields_read_def line_or_def)
next
  case (Cons kv kvs)
  obtain s1 where s1: "metadata_line p (fst kv) (snd kv) s = Some (True, s1)" "ms_error s1 = ms_error s"
      "fields_read d r [kv] s s1"
    using metadata_line_reads [OF assms(1), of kv s] Cons.prems by auto
  have new: "fst kv \<notin> fst ` set kvs"
    using Cons.prems(2) by auto
  have "depend_get t (ms_meta s1) = []" if "k \<in> fst ` set kvs" "map_of depend_setup k = Some t" for k t
  proof -
    have "fst kv \<noteq> k" using new that(1) by auto
    then show ?thesis
      using s1(3) that Cons.prems(3) [of k t] by (auto simp: fields_read_def line_or_single)
  qed
  then obtain s2 where "metadata_lines p kvs s1 = Some s2" "ms_error s2 = ms_error s1" "fields_read d r kvs s1 s2"
    using Cons.IH [of s1] Cons.prems by auto
  then show ?case
    using s1 fields_read_cons [OF s1(3) _ new, of s2] by auto
qed

text \<open>An ebuild whose cache file has not been read, and parsers that accept every expression that is
  not empty.\<close>

definition demo_meta :: "unit meta_state" where
  "demo_meta = \<lparr>ms_env = (), ms_ebuild = PyEbuild_new\<lparr>eb_cache_file := Some ''/c/a/b-1.0''\<rparr>,
     ms_meta = \<lparr>md_depend = [], md_bdepend = [], md_rdepend = [], md_pdepend = [], md_iuse = Map.empty,
       md_keywords = (\<lambda>_. KEYWORD_NONE), md_required_use = []\<rparr>, ms_error = 0\<rparr>"

definition demo_parsers :: "unit parsers" where
  "demo_parsers = \<lparr>depend_parse = (\<lambda>env v. (env, if v = [] then [] else [PyDependency_new])),
     required_use_parse = (\<lambda>env v. (env, if v = [] then [] else [RequiredUse (Some v) 0 USE_OP_ENABLE []]))\<rparr>"

lemma demo_meta_facts:
  "eb_cache_file (ms_ebuild demo_meta) = Some ''/c/a/b-1.0''"
  "pure_parsers (\<lambda>v. if v = [] then [] else [PyDependency_new])
     (\<lambda>v. if v = [] then [] else [RequiredUse (Some v) 0 USE_OP_ENABLE []]) demo_parsers"
  by (simp_all add: demo_meta_def demo_parsers_def pure_parsers_def PyEbuild_new_def)

lemma demo_meta_new: "depend_get t (ms_meta demo_meta) = []"
  by (cases t) (simp_all add: demo_meta_def)

definition demo_lines :: "(string \<times> string) list" where
  "demo_lines = [(''KEYWORDS'', ''amd64 ~x86''), (''SLOT'', ''3/32''), (''DEPEND'', ''a/b'')]"

text \<open>A cache file of \<open>KEY=value\<close> lines with different keys, whose expressions the parsers
  accept, is read completely and in any order of the lines: the call returns 0, marks the metadata
  as present, and every field has the value of its line, or the old one when it has none; keywords
  start out as \<open>KEYWORD_NONE\<close>.\<close>

theorem metadata_init_reads:
  assumes cache: "eb_cache_file (ms_ebuild s) = Some f" "fopen f = Some (meta_file kvs)"
    and lines: "\<forall>kv \<in> set kvs. clean_line kv" "\<forall>kv \<in> set kvs. accepted_line d r kv" "distinct (map fst kvs)"
    and p: "pure_parsers d r p" and new: "\<And>t. depend_get t (ms_meta s) = []"
  shows "\<exists>s'. ebuild_metadata_init fopen True p s = Some (0, None, s')
    \<and> eb_metadata_init (ms_ebuild s') \<and> fields_read d r kvs (metadata_start s) s'"
proof -
  have "depend_get t (ms_meta (metadata_start s)) = []" for t
    using new by (simp add: metadata_start_def)
  then obtain s' where s': "metadata_lines p kvs (metadata_start s) = Some s'" "ms_error s' = 0"
      "fields_read d r kvs (metadata_start s) s'"
    using metadata_lines_read [OF p lines(2,3), of "metadata_start s"] by (auto simp: metadata_start_def)
  then show ?thesis
    unfolding metadata_init_loop [where fopen = fopen, OF cache] metadata_loop_lines [OF lines(1)]
    by (simp add: metadata_finish_def fields_read_def)
qed

lemma metadata_init_reads_witness:
  "\<exists>s'. ebuild_metadata_init (\<lambda>_. Some (meta_file demo_lines)) True demo_parsers demo_meta = Some (0, None, s')
    \<and> eb_slot (ms_ebuild s') = Some ''3'' \<and> md_depend (ms_meta s') = [PyDependency_new]"
proof -
  let ?d = "\<lambda>v. if v = [] then [] else [PyDependency_new]"
  let ?r = "\<lambda>v. if v = [] then [] else [RequiredUse (Some v) 0 USE_OP_ENABLE []]"
  have tok: "strtok_all ''/'' ''3/32'' = [''3'', ''32'']"
    by (simp add: strtok_all.simps)
  have lines: "\<forall>kv \<in> set demo_lines. clean_line kv" "\<forall>kv \<in> set demo_lines. accepted_line ?d ?r kv"
      "distinct (map fst demo_lines)"
    by (simp_all add: demo_lines_def clean_line_def accepted_line_def tok)
  obtain s' where s': "ebuild_metadata_init (\<lambda>_. Some (meta_file demo_lines)) True demo_parsers demo_meta = Some (0, None, s')"
      "fields_read ?d ?r demo_lines (metadata_start demo_meta) s'"
    using metadata_init_reads [OF demo_meta_facts(1) _ lines demo_meta_facts(2) demo_meta_new,
        of "\<lambda>_. Some (meta_file demo_lines)"] by auto
  have "map_of depend_setup ''DEPEND'' = Some Depend"
    by (simp add: depend_setup_def)
  then have "depend_get Depend (ms_meta s') = line_or demo_lines ''DEPEND'' (depend_get Depend (ms_meta (metadata_start demo_meta))) ?d"
    using s'(2) unfolding fields_read_def by blast
  moreover have "eb_slot (ms_ebuild s') = Some ''3''"
    using s'(2) tok by (simp add: fields_read_def line_or_def demo_lines_def)
  ultimately show ?thesis
    using s'(1) by (simp add: line_or_def demo_lines_def)
qed

text \<open>A cache file whose last line has no newline loses the last byte of that line: it is read
  as if the value were one byte shorter.\<close>

theorem metadata_init_cuts:
  assumes cache: "eb_cache_file (ms_ebuild s) = Some f" "fopen f = Some (meta_file kvs @ k @ ''='' @ v)"
    and lines: "\<forall>kv \<in> set kvs. clean_line kv" "clean_line (k, v)" "v \<noteq> []"
  shows "ebuild_metadata_init fopen True p s =
    ebuild_metadata_init (\<lambda>_. Some (meta_file (kvs @ [(k, butlast v)]))) True p s"
proof -
  have "clean_line (k, butlast v)"
    using lines(2) by (auto simp: clean_line_def dest: in_set_butlastD)
  then have clean: "\<forall>kv \<in> set (kvs @ [(k, butlast v)]). clean_line kv"
    using lines(1) by simp
  show ?thesis
    unfolding metadata_init_loop [where fopen = fopen, OF cache] metadata_init_loop [where fopen = "\<lambda>_. Some (meta_file (kvs @ [(k, butlast v)]))", OF cache(1) refl]
      metadata_loop_lines [OF clean] metadata_loop_cut [OF lines] ..
qed

lemma metadata_init_cuts_witness:
  "ebuild_metadata_init (\<lambda>_. Some ''SLOT=10'') True demo_parsers demo_meta
     = ebuild_metadata_init (\<lambda>_. Some (meta_file [(''SLOT'', ''1'')])) True demo_parsers demo_meta"
  using metadata_init_cuts [OF demo_meta_facts(1), of "\<lambda>_. Some ''SLOT=10''" "[]" "''SLOT''" "''10''" demo_parsers]
  by (simp add: clean_line_def) (simp add: meta_file_def)

lemma metadata_lines_keep:
  assumes "metadata_lines p kvs s = Some s'"
  shows "ms_error s \<noteq> 0 \<Longrightarrow> ms_error s' \<noteq> 0" "settled t s \<Longrightarrow> settled t s'"
    "eb_metadata_init (ms_ebuild s') = eb_metadata_init (ms_ebuild s)"
proof -
  have "(ms_error s \<noteq> 0 \<longrightarrow> ms_error s' \<noteq> 0) \<and> (settled t s \<longrightarrow> settled t s')
      \<and> eb_metadata_init (ms_ebuild s') = eb_metadata_init (ms_ebuild s)"
    using assms
  proof (induction kvs arbitrary: s)
    case (Cons kv kvs)
    obtain b s1 where line: "metadata_line p (fst kv) (snd kv) s = Some (b, s1)"
      using Cons.prems by (auto split: option.splits prod.splits)
    then have "if b then metadata_lines p kvs s1 = Some s' else s' = s1"
      using Cons.prems by auto
    then show ?case
      using Cons.IH [of s1] metadata_line_settled [OF line] by (auto split: if_splits)
  qed simp
  then show "ms_error s \<noteq> 0 \<Longrightarrow> ms_error s' \<noteq> 0" "settled t s \<Longrightarrow> settled t s'"
    "eb_metadata_init (ms_ebuild s') = eb_metadata_init (ms_ebuild s)"
    by auto
qed

text \<open>A dependency field given twice is an error.\<close>

lemma metadata_lines_after:
  assumes "metadata_lines p (kvs @ rest) s = Some s'"
  shows "\<exists>s1. metadata_lines p kvs s = Some s1 \<and> (metadata_lines p rest s1 = Some s' \<or> s' = s1 \<and> ms_error s1 \<noteq> 0)"
  using assms
proof (induction kvs arbitrary: s)
  case (Cons kv kvs)
  obtain b s1 where line: "metadata_line p (fst kv) (snd kv) s = Some (b, s1)"
    using Cons.prems by (auto split: option.splits prod.splits)
  show ?case
  proof (cases b)
    case True
    then show ?thesis using Cons.IH [of s1] Cons.prems line by auto
  next
    case False
    then show ?thesis using Cons.prems line metadata_line_settled(3) [OF line] by auto
  qed
qed simp

lemma metadata_lines_total:
  assumes "\<forall>kv \<in> set kvs. fst kv = ''SLOT'' \<longrightarrow> strtok_all ''/'' (snd kv) \<noteq> []"
  shows "\<exists>s'. metadata_lines p kvs s = Some s'"
  using assms
proof (induction kvs arbitrary: s)
  case (Cons kv kvs)
  have "metadata_line p (fst kv) (snd kv) s \<noteq> None"
    using Cons.prems
    by (cases "strtok_all ''/'' (snd kv)") (auto simp: metadata_line_def Let_def split: prod.splits if_splits)
  then show ?case
    using Cons by (auto split: option.split prod.split)
qed simp

lemma metadata_lines_twice:
  assumes run: "metadata_lines p (a @ (k, v1) # b @ (k, v2) # c) s = Some s'"
    and t: "map_of depend_setup k = Some t"
  shows "ms_error s' \<noteq> 0"
proof -
  obtain s1 where s1: "metadata_lines p ((k, v1) # b @ (k, v2) # c) s1 = Some s' \<or> s' = s1 \<and> ms_error s1 \<noteq> 0"
    using metadata_lines_after [OF run] by blast
  show ?thesis
  proof (cases "metadata_lines p ((k, v1) # b @ (k, v2) # c) s1 = Some s'")
    case True
    then obtain g s2 where line: "metadata_line p k v1 s1 = Some (g, s2)"
      by (auto split: option.splits prod.splits)
    have settled: "settled t s2"
      using metadata_line_settled(4) [OF line t] by blast
    show ?thesis
    proof (cases g)
      case False
      then show ?thesis using True line metadata_line_settled(3) [OF line] by auto
    next
      case g: True
      then obtain s3 where s3: "metadata_lines p b s2 = Some s3"
          "metadata_lines p ((k, v2) # c) s3 = Some s' \<or> s' = s3 \<and> ms_error s3 \<noteq> 0"
        using metadata_lines_after [of p b "(k, v2) # c" s2 s'] True line by auto
      have "settled t s3" by (rule metadata_lines_keep(2) [OF s3(1) settled])
      show ?thesis
      proof (cases "metadata_lines p ((k, v2) # c) s3 = Some s'")
        case True
        then obtain h s4 where second: "metadata_line p k v2 s3 = Some (h, s4)"
          by (auto split: option.splits prod.splits)
        have "ms_error s4 \<noteq> 0"
          using metadata_line_settled(1,4) [OF second] \<open>settled t s3\<close> t by (auto simp: settled_def)
        then show ?thesis
          using True second metadata_lines_keep(1) [of p c s4 s'] by (auto split: if_splits)
      qed (use s3(2) in auto)
    qed
  qed (use s1 in auto)
qed

text \<open>A cache file that gives a dependency field twice makes \<open>Ebuild.initialize_metadata\<close> raise a
  RuntimeError and leaves the metadata marked as before, whatever the parsers return and wherever
  the two lines stand.\<close>

theorem metadata_twice_fails:
  assumes cache: "eb_cache_file (ms_ebuild s) = Some f" "fopen f = Some (meta_file (a @ (k, v1) # b @ (k, v2) # c))"
    and lines: "\<forall>kv \<in> set (a @ (k, v1) # b @ (k, v2) # c). clean_line kv"
      "\<forall>kv \<in> set (a @ (k, v1) # b @ (k, v2) # c). fst kv = ''SLOT'' \<longrightarrow> strtok_all ''/'' (snd kv) \<noteq> []"
    and t: "map_of depend_setup k \<noteq> None"
  shows "\<exists>s'. PyEbuild_metadata_init fopen True p s 0 = Some (Py_Raise RuntimeError, s')
    \<and> eb_metadata_init (ms_ebuild s') = eb_metadata_init (ms_ebuild s)"
proof -
  let ?kvs = "a @ (k, v1) # b @ (k, v2) # c"
  obtain s' where s': "metadata_lines p ?kvs (metadata_start s) = Some s'"
    using metadata_lines_total [OF lines(2)] by blast
  moreover have "ms_error s' \<noteq> 0"
    using metadata_lines_twice [OF s'] t by auto
  moreover have "eb_metadata_init (ms_ebuild s') = eb_metadata_init (ms_ebuild s)"
    using metadata_lines_keep(3) [OF s'] by (simp add: metadata_start_def)
  ultimately show ?thesis
    by (simp add: PyEbuild_metadata_init_def metadata_init_loop [where fopen = fopen, OF cache] metadata_loop_lines [OF lines(1)]
        metadata_finish_def)
qed

lemma metadata_twice_fails_witness:
  "\<exists>s'. PyEbuild_metadata_init (\<lambda>_. Some (meta_file [(''DEPEND'', ''a/b''), (''DEPEND'', ''a/c'')]))
      True demo_parsers demo_meta 0 = Some (Py_Raise RuntimeError, s')"
proof -
  have "\<exists>s'. PyEbuild_metadata_init (\<lambda>_. Some (meta_file ([] @ (''DEPEND'', ''a/b'') # [] @ (''DEPEND'', ''a/c'') # [])))
      True demo_parsers demo_meta 0 = Some (Py_Raise RuntimeError, s')
      \<and> eb_metadata_init (ms_ebuild s') = eb_metadata_init (ms_ebuild demo_meta)"
    by (rule metadata_twice_fails [OF demo_meta_facts(1), where a = "[]" and b = "[]" and c = "[]"
        and k = "''DEPEND''" and ?v1.0 = "''a/b''" and ?v2.0 = "''a/c''"])
      (simp_all add: clean_line_def depend_setup_def)
  then show ?thesis by auto
qed

end
