(* ===== verification/FlagStore.thy ===== *)
theory FlagStore
  imports Use LutSize
begin

text \<open>
  Registering many use flags one after the other, as the actions of the two grammars do: a store is
  ready for n names when the table of global flags has room for them and the allocator has unused
  addresses for their objects. Each name then gets its id and no other id changes.
\<close>

definition flag_id :: "flag_store \<Rightarrow> string \<Rightarrow> U64 option" where
  "flag_id p name = map_option fst (lut_map (fl_table p) name)"

definition ids_kept :: "flag_store \<Rightarrow> flag_store \<Rightarrow> bool" where
  "ids_kept p p' \<longleftrightarrow> (\<forall>name i. flag_id p name = Some i \<longrightarrow> flag_id p' name = Some i)"

text \<open>The id of a condition: 0 without a flag.\<close>

definition target_id :: "flag_store \<Rightarrow> string option \<Rightarrow> U64" where
  "target_id p t = (case t of None \<Rightarrow> 0 | Some name \<Rightarrow> the (flag_id p name))"

text \<open>The flags of a list of conditions are in the table.\<close>

definition registered :: "flag_store \<Rightarrow> string option list \<Rightarrow> bool" where
  "registered p ts \<longleftrightarrow> (\<forall>name. Some name \<in> set ts \<longrightarrow> flag_id p name \<noteq> None)"

lemma registered_simps [simp]:
  "registered p []" "registered p (ts @ us) \<longleftrightarrow> registered p ts \<and> registered p us"
  "registered p (t # ts) \<longleftrightarrow> (\<forall>name. t = Some name \<longrightarrow> flag_id p name \<noteq> None) \<and> registered p ts"
  by (auto simp: registered_def)

lemma registered_kept: "ids_kept p p' \<Longrightarrow> registered p ts \<Longrightarrow> registered p' ts"
  by (fastforce simp: registered_def ids_kept_def)

definition flags_ready :: "(nat \<Rightarrow> U64) \<Rightarrow> nat \<Rightarrow> nat \<Rightarrow> flag_store \<Rightarrow> nat \<Rightarrow> bool" where
  "flags_ready addr m n p k \<longleftrightarrow> flags_inv p \<and> lut_sized m (fl_table p) \<and> m < 2 ^ 50
     \<and> card (dom (lut_map (fl_table p))) + n \<le> 2 ^ 16
     \<and> inj_on addr {k..<k + n} \<and> (\<forall>j \<in> {k..<k + n}. fl_objs p (addr j) = None)"

lemma ids_kept_refl [simp]: "ids_kept p p"
  by (simp add: ids_kept_def)

lemma ids_kept_trans: "ids_kept p q \<Longrightarrow> ids_kept q r \<Longrightarrow> ids_kept p r"
  by (simp add: ids_kept_def)

lemma target_id_kept: "ids_kept p p' \<Longrightarrow> \<forall>name. t = Some name \<longrightarrow> flag_id p name \<noteq> None \<Longrightarrow> target_id p' t = target_id p t"
  by (auto simp: ids_kept_def target_id_def split: option.splits)

lemma flags_ready_less:
  assumes "flags_ready addr m n p k" "i + n' \<le> n"
  shows "flags_ready addr m n' p (k + i)"
proof -
  have "{k + i..<k + i + n'} \<subseteq> {k..<k + n}"
    using assms(2) by auto
  then show ?thesis
    using assms inj_on_subset unfolding flags_ready_def by fastforce
qed

lemma use_get_global_ready:
  assumes ready: "flags_ready addr m (Suc n) p k"
  shows "\<exists>p' i. use_get_global p (addr k) (Some name) = Some (p', i) \<and> flag_id p' name = Some i
    \<and> ids_kept p p' \<and> flags_ready addr m n p' (Suc k)"
proof -
  have inv: "flags_inv p" and sized: "lut_sized m (fl_table p)" "m < 2 ^ 50"
      "card (dom (lut_map (fl_table p))) + Suc n \<le> 2 ^ 16"
    and inj: "inj_on addr {k..<k + Suc n}" and unused: "\<And>j. j \<in> {k..<k + Suc n} \<Longrightarrow> fl_objs p (addr j) = None"
    using ready unfolding flags_ready_def by blast+
  have few: "card (dom (lut_map (fl_table p))) < 2 ^ 16"
    using sized(3) by simp
  have table: "lut_inv (fl_table p)"
    using inv by (simp add: flags_inv_def)
  have room: "lut_room (fl_table p)"
    by (rule lut_room_sized [OF table sized(1,2) few])
  show ?thesis
  proof (cases "lut_map (fl_table p) name")
    case None
    obtain l i where l: "lut_insert (fl_table p) (fl_world p) name (addr k) LUT_FLAG_PYTHON
          = Some (l, py_xincref (addr k) (fl_world p), i)" "lut_inv l"
        "lut_map l = (lut_map (fl_table p))(name \<mapsto> (i, addr k))"
        "use_get_global p (addr k) (Some name) = Some (flag_added p l (addr k) name, i)"
        "flags_inv (flag_added p l (addr k) name)"
      by (rule use_get_global_adds [OF inv room _ None, of "addr k"]) (use unused [of k] in auto)
    have "finite (dom (lut_map (fl_table p)))"
      by (simp add: lut_map_def finite_dom_map_of)
    then have "card (dom (lut_map l)) + n \<le> 2 ^ 16"
      using sized(3) None by (simp add: l(3) card_insert_if domIff)
    moreover have "fl_objs (flag_added p l (addr k) name) (addr j) = None" if "j \<in> {Suc k..<Suc k + n}" for j
    proof -
      have "addr j \<noteq> addr k"
        using inj that by (auto dest: inj_onD [of addr _ j k])
      then show ?thesis
        using unused [of j] that by (simp add: flag_added_def)
    qed
    moreover have "inj_on addr {Suc k..<Suc k + n}"
      by (rule inj_on_subset [OF inj]) auto
    ultimately have "flags_ready addr m n (flag_added p l (addr k) name) (Suc k)"
      using l(5) lut_insert_sized [OF table sized(1,2) few l(1-3)] sized(2)
      unfolding flags_ready_def by (simp add: flag_added_def)
    then show ?thesis
      using l(3,4) None by (simp add: flag_id_def ids_kept_def flag_added_def)
  next
    case (Some q)
    then obtain i x where known: "lut_map (fl_table p) name = Some (i, x)" by (cases q) auto
    have "flags_ready addr m n p (Suc k)"
      using flags_ready_less [OF ready, of 1 n] by simp
    then show ?thesis
      using use_get_global_known [OF table known, of "addr k"] known by (simp add: flag_id_def)
  qed
qed

lemma use_get_global_target:
  assumes ready: "flags_ready addr m (Suc n) p k"
  obtains p' where "use_get_global p (addr k) t = Some (p', target_id p' t)"
    "\<forall>name. t = Some name \<longrightarrow> flag_id p' name \<noteq> None" "ids_kept p p'" "flags_ready addr m n p' (Suc k)"
proof (cases t)
  case None
  have "flags_ready addr m n p (Suc k)"
    using flags_ready_less [OF ready, of 1 n] by simp
  then show ?thesis
    using that [of p] None by (simp add: use_get_global_def target_id_def)
next
  case (Some name)
  then show ?thesis
    using use_get_global_ready [OF ready, of name] that by (auto simp: target_id_def)
qed

text \<open>The store of a fresh catalogue is ready for as many flags as there are unused addresses.\<close>

lemma empty_flags_ready:
  assumes "inj_on addr {k..<k + n}" "n \<le> 2 ^ 16"
  shows "flags_ready addr 256 n empty_flags k"
  using assms empty_flags_inv lut_new_sized [of 256]
  by (simp add: flags_ready_def) (simp add: empty_flags_def lut_new_map)

text \<open>Addresses 64 bytes apart.\<close>

definition spaced :: "nat \<Rightarrow> U64" where
  "spaced j = word_of_nat (64 * j + 64)"

lemma spaced_inj: "k + n \<le> 2 ^ 16 \<Longrightarrow> inj_on spaced {k..<k + n}"
proof (rule inj_onI)
  fix i j
  assume "k + n \<le> 2 ^ 16" "i \<in> {k..<k + n}" "j \<in> {k..<k + n}" "spaced i = spaced j"
  then have "unat (word_of_nat (64 * i + 64) :: U64) = unat (word_of_nat (64 * j + 64) :: U64)" "i < 2 ^ 16" "j < 2 ^ 16"
    by (simp_all add: spaced_def)
  then show "i = j"
    by (simp add: unat_of_nat del: of_nat_add of_nat_mult)
qed

lemma fresh_flags_ready: "n \<le> 2 ^ 16 \<Longrightarrow> flags_ready spaced 256 n empty_flags 0"
  using empty_flags_ready [of spaced 0 n] spaced_inj [of 0 n] by simp

end
