(* ===== verification/Grammar.thy ===== *)
theory Grammar
  imports FlagStore
begin

text \<open>
  The grammar of dependencies in autogentoo/cportage/depend.y. The grammar is an inductive relation
  between the tokens of a program and the expression its actions build. Of the lexer this theory has
  the actions on the text of a token; its patterns and rules are in DependLexer. The parser
  generator promises a parser of the grammar; the lemmas show that the grammar gives every
  sequence of tokens at most one expression, which a recursive-descent parser finds, and that
  every expression is read back from its tokens.
\<close>

section \<open>Tokens\<close>

text \<open>\<open>Tok\<close> stands for the tokens of one character.\<close>

datatype token =
  Tok char | REPOSITORY string | ATOM Atom | ATOM_FLAGS "AtomFlag list"
| SLOT "string option" "string option" atom_slot | USESELECT "string option" use_operator

text \<open>The action of a slot: the text starts with a colon; its length is lowered by a final star or
  equals sign. The sub-slot starts behind the slash, or behind the mark when there is no slash.\<close>

definition slot_action :: "string \<Rightarrow> token" where
  "slot_action yytext =
     (let opts = (if last yytext = CHR ''='' then ATOM_SLOT_REBUILD else ATOM_SLOT_IGNORE);
          len = (if last yytext = CHR ''*'' \<or> last yytext = CHR ''='' then length yytext - 1 else length yytext);
          name_splt = (case strchr (drop 1 yytext) CHR ''/'' of Some i \<Rightarrow> i + 1 | None \<Rightarrow> len)
      in if len \<le> 1 \<or> char_at yytext 1 = Some (CHR 0x00) then SLOT None None opts
         else SLOT (Some (take (name_splt - 1) (drop 1 yytext)))
           (if name_splt < length yytext then Some (drop (name_splt + 1) yytext) else None) opts)"

text \<open>The action of the flags of an atom, in brackets.\<close>

definition atomflag_action :: "string \<Rightarrow> AtomFlag" where
  "atomflag_action tok =
     (let (opt, name) =
        (if hd tok = CHR ''!'' \<and> last tok = CHR ''?'' then (ATOM_USE_DISABLE_IF_OFF, tl (butlast tok))
         else if hd tok = CHR ''!'' \<and> last tok = CHR ''='' then (ATOM_USE_OPPOSITE, tl (butlast tok))
         else if last tok = CHR ''?'' then (ATOM_USE_ENABLE_IF_ON, butlast tok)
         else if last tok = CHR ''='' then (ATOM_USE_EQUAL, butlast tok)
         else if hd tok = CHR ''-'' then (ATOM_USE_DISABLE, tl tok)
         else (ATOM_USE_ENABLE, tok))
      in (atomflag_build name)\<lparr>flag_option := opt\<rparr>)"

definition atomflags_action :: "string \<Rightarrow> token" where
  "atomflags_action yytext = ATOM_FLAGS (map atomflag_action (strtok_all '' ,]'' (drop 1 yytext)))"

text \<open>The action of \<open>flag?\<close>: the length is the one of the text before the exclamation mark is skipped.\<close>

definition use_select_action :: "string \<Rightarrow> token" where
  "use_select_action yytext =
     (let len = length yytext;
          (opt, rest) = (if hd yytext = CHR ''!'' then (USE_OP_DISABLE, tl yytext) else (USE_OP_ENABLE, yytext))
      in USESELECT (Some (take (len - 1) rest)) opt)"

text \<open>A condition on a disabled flag keeps the question mark in the name of the flag.\<close>

lemma use_select_names:
  assumes "n \<noteq> []" "hd n \<noteq> CHR ''!''"
  shows "use_select_action (n @ ''?'') = USESELECT (Some n) USE_OP_ENABLE"
    and "use_select_action (''!'' @ n @ ''?'') = USESELECT (Some (n @ ''?'')) USE_OP_DISABLE"
  using assms by (cases n; simp add: use_select_action_def)+

lemma slot_sub_keeps_mark:
  "slot_action '':3/32='' = SLOT (Some ''3'') (Some ''32='') ATOM_SLOT_REBUILD"
  "slot_action '':3='' = SLOT (Some ''3'') (Some []) ATOM_SLOT_REBUILD"
  "slot_action '':3'' = SLOT (Some ''3'') None ATOM_SLOT_IGNORE"
  by (simp_all add: slot_action_def char_at_def)

section \<open>The grammar\<close>

datatype expr = E_Atom Atom | E_Use "string option" use_operator "expr list" | E_Group "expr list"

inductive g_atom_version :: "token list \<Rightarrow> Atom \<Rightarrow> bool" where
  "g_atom_version [Tok CHR ''>'', Tok CHR ''='', ATOM a] (a\<lparr>atom_range := ATOM_VERSION_GE\<rparr>)"
| "g_atom_version [Tok CHR ''<'', Tok CHR ''='', ATOM a] (a\<lparr>atom_range := ATOM_VERSION_LE\<rparr>)"
| "g_atom_version [Tok CHR ''='', ATOM a] (a\<lparr>atom_range := ATOM_VERSION_E\<rparr>)"
| "g_atom_version [Tok CHR ''>'', ATOM a] (a\<lparr>atom_range := ATOM_VERSION_G\<rparr>)"
| "g_atom_version [Tok CHR ''~'', ATOM a] (a\<lparr>atom_range := ATOM_VERSION_REV\<rparr>)"
| "g_atom_version [Tok CHR ''<'', ATOM a] (a\<lparr>atom_range := ATOM_VERSION_L\<rparr>)"
| "g_atom_version [ATOM a] (a\<lparr>atom_range := ATOM_VERSION_ALL\<rparr>)"

inductive g_atom_block :: "token list \<Rightarrow> Atom \<Rightarrow> bool" where
  "g_atom_version ts a \<Longrightarrow> g_atom_block (Tok CHR ''!'' # Tok CHR ''!'' # ts) (a\<lparr>atom_blocks := ATOM_BLOCK_HARD\<rparr>)"
| "g_atom_version ts a \<Longrightarrow> g_atom_block (Tok CHR ''!'' # ts) (a\<lparr>atom_blocks := ATOM_BLOCK_SOFT\<rparr>)"
| "g_atom_version ts a \<Longrightarrow> g_atom_block ts (a\<lparr>atom_blocks := ATOM_BLOCK_NONE\<rparr>)"

inductive g_atom_slot :: "token list \<Rightarrow> Atom \<Rightarrow> bool" where
  "g_atom_block ts a \<Longrightarrow>
    g_atom_slot (ts @ [SLOT n m opts]) (a\<lparr>atom_slot := n, atom_sub_slot := m, atom_slot_opts := opts\<rparr>)"
| "g_atom_block ts a \<Longrightarrow>
    g_atom_slot ts (a\<lparr>atom_slot := None, atom_sub_slot := None, atom_slot_opts := ATOM_SLOT_IGNORE\<rparr>)"

inductive g_atom_repo :: "token list \<Rightarrow> Atom \<Rightarrow> bool" where
  "g_atom_slot ts a \<Longrightarrow> g_atom_repo (ts @ [REPOSITORY r]) (a\<lparr>atom_repository := Some r\<rparr>)"
| "g_atom_slot ts a \<Longrightarrow> g_atom_repo ts (a\<lparr>atom_repository := None\<rparr>)"

inductive g_atom :: "token list \<Rightarrow> Atom \<Rightarrow> bool" where
  "g_atom_repo ts a \<Longrightarrow> g_atom (ts @ [ATOM_FLAGS fs]) (a\<lparr>atom_useflags := fs\<rparr>)"
| "g_atom_repo ts a \<Longrightarrow> g_atom ts (a\<lparr>atom_useflags := []\<rparr>)"

inductive g_expr :: "token list \<Rightarrow> expr list \<Rightarrow> bool" and g_single :: "token list \<Rightarrow> expr \<Rightarrow> bool" where
  "g_single ts e \<Longrightarrow> g_expr ts [e]"
| "g_single ts e \<Longrightarrow> g_expr us es \<Longrightarrow> g_expr (ts @ us) (e # es)"
| "g_atom ts a \<Longrightarrow> g_single ts (E_Atom a)"
| "g_expr ts es \<Longrightarrow> g_single (USESELECT t opt # Tok CHR ''('' # ts @ [Tok CHR '')'']) (E_Use t opt es)"
| "g_expr ts es \<Longrightarrow> g_single (Tok CHR ''('' # ts @ [Tok CHR '')'']) (E_Group es)"

inductive g_program :: "token list \<Rightarrow> expr list \<Rightarrow> bool" where
  "g_expr ts es \<Longrightarrow> g_program ts es"
| "g_program [] []"

lemmas g_atom_intros = g_atom_version.intros g_atom_block.intros g_atom_slot.intros g_atom_repo.intros g_atom.intros

section \<open>A parser of the grammar\<close>

fun p_version :: "token list \<Rightarrow> (Atom \<times> token list) option" where
  "p_version (ATOM a # r) = Some (a\<lparr>atom_range := ATOM_VERSION_ALL\<rparr>, r)"
| "p_version (Tok c # ATOM a # r) =
     (if c = CHR ''='' then Some (a\<lparr>atom_range := ATOM_VERSION_E\<rparr>, r)
      else if c = CHR ''>'' then Some (a\<lparr>atom_range := ATOM_VERSION_G\<rparr>, r)
      else if c = CHR ''~'' then Some (a\<lparr>atom_range := ATOM_VERSION_REV\<rparr>, r)
      else if c = CHR ''<'' then Some (a\<lparr>atom_range := ATOM_VERSION_L\<rparr>, r) else None)"
| "p_version (Tok c # Tok d # ATOM a # r) =
     (if c = CHR ''>'' \<and> d = CHR ''='' then Some (a\<lparr>atom_range := ATOM_VERSION_GE\<rparr>, r)
      else if c = CHR ''<'' \<and> d = CHR ''='' then Some (a\<lparr>atom_range := ATOM_VERSION_LE\<rparr>, r) else None)"
| "p_version _ = None"

definition p_block :: "token list \<Rightarrow> (Atom \<times> token list) option" where
  "p_block ts =
     (case ts of
        Tok c # r \<Rightarrow>
          if c = CHR ''!''
          then (case r of
              Tok d # r2 \<Rightarrow>
                if d = CHR ''!'' then map_option (apfst (atom_blocks_update (\<lambda>_. ATOM_BLOCK_HARD))) (p_version r2)
                else map_option (apfst (atom_blocks_update (\<lambda>_. ATOM_BLOCK_SOFT))) (p_version r)
            | _ \<Rightarrow> map_option (apfst (atom_blocks_update (\<lambda>_. ATOM_BLOCK_SOFT))) (p_version r))
          else map_option (apfst (atom_blocks_update (\<lambda>_. ATOM_BLOCK_NONE))) (p_version ts)
      | _ \<Rightarrow> map_option (apfst (atom_blocks_update (\<lambda>_. ATOM_BLOCK_NONE))) (p_version ts))"

fun slot_suffix :: "Atom \<times> token list \<Rightarrow> Atom \<times> token list" where
  "slot_suffix (a, SLOT n m opts # r) = (a\<lparr>atom_slot := n, atom_sub_slot := m, atom_slot_opts := opts\<rparr>, r)"
| "slot_suffix (a, r) = (a\<lparr>atom_slot := None, atom_sub_slot := None, atom_slot_opts := ATOM_SLOT_IGNORE\<rparr>, r)"

fun repo_suffix :: "Atom \<times> token list \<Rightarrow> Atom \<times> token list" where
  "repo_suffix (a, REPOSITORY x # r) = (a\<lparr>atom_repository := Some x\<rparr>, r)"
| "repo_suffix (a, r) = (a\<lparr>atom_repository := None\<rparr>, r)"

fun flags_suffix :: "Atom \<times> token list \<Rightarrow> Atom \<times> token list" where
  "flags_suffix (a, ATOM_FLAGS fs # r) = (a\<lparr>atom_useflags := fs\<rparr>, r)"
| "flags_suffix (a, r) = (a\<lparr>atom_useflags := []\<rparr>, r)"

definition p_atom :: "token list \<Rightarrow> (Atom \<times> token list) option" where
  "p_atom ts = map_option (flags_suffix \<circ> repo_suffix \<circ> slot_suffix) (p_block ts)"

text \<open>The number bounds the depth of the calls; twice the number of tokens is enough.\<close>

fun p_expr :: "nat \<Rightarrow> token list \<Rightarrow> (expr list \<times> token list) option"
  and p_single :: "nat \<Rightarrow> token list \<Rightarrow> (expr \<times> token list) option" where
  "p_expr 0 ts = None"
| "p_expr (Suc n) ts =
     do { (e, r) \<leftarrow> p_single n ts;
          if r = [] \<or> hd r = Tok CHR '')'' then Some ([e], r)
          else do { (es, r) \<leftarrow> p_expr n r; Some (e # es, r) } }"
| "p_single 0 ts = None"
| "p_single (Suc n) ts =
     (case ts of
        USESELECT t opt # Tok c # r \<Rightarrow>
          if c \<noteq> CHR ''('' then None
          else do { (es, r) \<leftarrow> p_expr n r;
                    if r \<noteq> [] \<and> hd r = Tok CHR '')'' then Some (E_Use t opt es, tl r) else None }
      | Tok c # r \<Rightarrow>
          if c = CHR ''(''
          then do { (es, r) \<leftarrow> p_expr n r;
                    if r \<noteq> [] \<and> hd r = Tok CHR '')'' then Some (E_Group es, tl r) else None }
          else map_option (apfst E_Atom) (p_atom ts)
      | _ \<Rightarrow> map_option (apfst E_Atom) (p_atom ts))"

definition parse_depend :: "token list \<Rightarrow> expr list option" where
  "parse_depend ts =
     (if ts = [] then Some []
      else case p_expr (2 * length ts) ts of Some (es, []) \<Rightarrow> Some es | _ \<Rightarrow> None)"

section \<open>The parser follows the grammar\<close>

lemma p_version_sound: "p_version ts = Some (a, r) \<Longrightarrow> \<exists>us. ts = us @ r \<and> g_atom_version us a"
proof (induction ts rule: p_version.induct)
  case (1 a' r')
  then show ?case using g_atom_version.intros(7) [of a'] by (intro exI [of _ "[ATOM a']"]) auto
next
  case (2 c a' r')
  then show ?case
    using g_atom_version.intros(3-6) [of a'] by (intro exI [of _ "[Tok c, ATOM a']"]) (auto split: if_splits)
next
  case (3 c d a' r')
  then show ?case
    using g_atom_version.intros(1,2) [of a'] by (intro exI [of _ "[Tok c, Tok d, ATOM a']"]) (auto split: if_splits)
qed simp_all

lemma p_version_complete: "g_atom_version us a \<Longrightarrow> p_version (us @ r) = Some (a, r)"
  by (induction rule: g_atom_version.induct) simp_all

lemma version_start: "g_atom_version us a \<Longrightarrow> us \<noteq> [] \<and> hd us \<noteq> Tok CHR ''!''"
  by (induction rule: g_atom_version.induct) simp_all

lemma p_block_simps:
  "p_block (Tok CHR ''!'' # Tok CHR ''!'' # r) = map_option (apfst (atom_blocks_update (\<lambda>_. ATOM_BLOCK_HARD))) (p_version r)"
  "r = [] \<or> hd r \<noteq> Tok CHR ''!'' \<Longrightarrow>
    p_block (Tok CHR ''!'' # r) = map_option (apfst (atom_blocks_update (\<lambda>_. ATOM_BLOCK_SOFT))) (p_version r)"
  "ts = [] \<or> hd ts \<noteq> Tok CHR ''!'' \<Longrightarrow>
    p_block ts = map_option (apfst (atom_blocks_update (\<lambda>_. ATOM_BLOCK_NONE))) (p_version ts)"
  by (auto simp: p_block_def split: list.splits token.splits)

lemma p_block_complete: "g_atom_block us a \<Longrightarrow> p_block (us @ r) = Some (a, r)"
proof (induction rule: g_atom_block.induct)
  case (1 ts a)
  then show ?case by (simp add: p_block_simps(1) p_version_complete)
next
  case (2 ts a)
  then show ?case using version_start [OF 2] by (simp add: p_block_simps(2) p_version_complete)
next
  case (3 ts a)
  then show ?case using version_start [OF 3] by (simp add: p_block_simps(3) p_version_complete)
qed

lemma p_block_sound:
  assumes "p_block ts = Some (a, r)"
  shows "\<exists>us. ts = us @ r \<and> g_atom_block us a"
proof -
  consider r2 where "ts = Tok CHR ''!'' # Tok CHR ''!'' # r2"
    | r1 where "ts = Tok CHR ''!'' # r1" "r1 = [] \<or> hd r1 \<noteq> Tok CHR ''!''"
    | "ts = [] \<or> hd ts \<noteq> Tok CHR ''!''"
    by (metis list.collapse)
  then show ?thesis
  proof cases
    case (1 r2)
    then obtain b where b: "p_version r2 = Some (b, r)" "a = b\<lparr>atom_blocks := ATOM_BLOCK_HARD\<rparr>"
      using assms by (auto simp: p_block_simps(1))
    then obtain us where "r2 = us @ r" "g_atom_version us b" using p_version_sound by blast
    then show ?thesis using 1 b(2) g_atom_block.intros(1) by fastforce
  next
    case (2 r1)
    then obtain b where b: "p_version r1 = Some (b, r)" "a = b\<lparr>atom_blocks := ATOM_BLOCK_SOFT\<rparr>"
      using assms by (auto simp: p_block_simps(2))
    then obtain us where "r1 = us @ r" "g_atom_version us b" using p_version_sound by blast
    then show ?thesis using 2(1) b(2) g_atom_block.intros(2) by fastforce
  next
    case 3
    then obtain b where b: "p_version ts = Some (b, r)" "a = b\<lparr>atom_blocks := ATOM_BLOCK_NONE\<rparr>"
      using assms by (auto simp: p_block_simps(3))
    then obtain us where "ts = us @ r" "g_atom_version us b" using p_version_sound by blast
    then show ?thesis using b(2) g_atom_block.intros(3) by blast
  qed
qed

text \<open>What comes after an atom does not belong to it.\<close>

fun ends_atom :: "token list \<Rightarrow> bool" where
  "ends_atom (SLOT n m opts # r) = False"
| "ends_atom (REPOSITORY x # r) = False"
| "ends_atom (ATOM_FLAGS fs # r) = False"
| "ends_atom _ = True"

lemma suffix_ends:
  "ends_atom r \<Longrightarrow> slot_suffix (a, r) = (a\<lparr>atom_slot := None, atom_sub_slot := None, atom_slot_opts := ATOM_SLOT_IGNORE\<rparr>, r)"
  "ends_atom r \<Longrightarrow> repo_suffix (a, r) = (a\<lparr>atom_repository := None\<rparr>, r)"
  "ends_atom r \<Longrightarrow> flags_suffix (a, r) = (a\<lparr>atom_useflags := []\<rparr>, r)"
  by (cases r rule: ends_atom.cases; simp)+

lemma slot_complete:
  assumes "g_atom_slot us a" "ends_atom r \<or> (\<exists>x r'. r = REPOSITORY x # r') \<or> (\<exists>f r'. r = ATOM_FLAGS f # r')"
  shows "map_option slot_suffix (p_block (us @ r)) = Some (a, r)"
  using assms
proof (cases rule: g_atom_slot.cases)
  case (1 ts a' n m opts)
  then show ?thesis using p_block_complete [OF 1(3), of "SLOT n m opts # r"] by simp
next
  case (2 a')
  then show ?thesis using p_block_complete [OF 2(2), of r] assms(2) by (auto simp: suffix_ends)
qed

lemma repo_complete:
  assumes "g_atom_repo us a" "ends_atom r \<or> (\<exists>f r'. r = ATOM_FLAGS f # r')"
  shows "map_option (repo_suffix \<circ> slot_suffix) (p_block (us @ r)) = Some (a, r)"
  using assms
proof (cases rule: g_atom_repo.cases)
  case (1 ts a' x)
  then show ?thesis using slot_complete [OF 1(3), of "REPOSITORY x # r"] by (auto simp: option.map_comp [symmetric])
next
  case (2 a')
  then show ?thesis using slot_complete [OF 2(2), of r] assms(2) by (auto simp: suffix_ends)
qed

lemma p_atom_complete:
  assumes "g_atom us a" "ends_atom r"
  shows "p_atom (us @ r) = Some (a, r)"
  using assms
proof (cases rule: g_atom.cases)
  case (1 ts a' fs)
  then show ?thesis using repo_complete [OF 1(3), of "ATOM_FLAGS fs # r"] by (auto simp: p_atom_def)
next
  case (2 a')
  then show ?thesis using repo_complete [OF 2(2), of r] assms(2) by (auto simp: p_atom_def suffix_ends)
qed

lemma p_atom_sound:
  assumes "p_atom ts = Some (a, r)"
  shows "\<exists>us. ts = us @ r \<and> g_atom us a"
proof -
  obtain a0 r0 where block: "p_block ts = Some (a0, r0)" "(a, r) = flags_suffix (repo_suffix (slot_suffix (a0, r0)))"
    using assms by (auto simp: p_atom_def)
  then obtain us0 where us0: "ts = us0 @ r0" "g_atom_block us0 a0"
    using p_block_sound by blast
  obtain a1 r1 where one: "slot_suffix (a0, r0) = (a1, r1)" by fastforce
  obtain us1 where us1: "ts = us1 @ r1" "g_atom_slot us1 a1"
    using one us0 g_atom_slot.intros by (cases "(a0, r0)" rule: slot_suffix.cases) fastforce+
  obtain a2 r2 where two: "repo_suffix (a1, r1) = (a2, r2)" by fastforce
  obtain us2 where us2: "ts = us2 @ r2" "g_atom_repo us2 a2"
    using two us1 g_atom_repo.intros by (cases "(a1, r1)" rule: repo_suffix.cases) fastforce+
  have three: "flags_suffix (a2, r2) = (a, r)"
    using block(2) one two by simp
  show ?thesis
    using three us2 g_atom.intros by (cases "(a2, r2)" rule: flags_suffix.cases) fastforce+
qed

fun atom_token :: "token \<Rightarrow> bool" where
  "atom_token (Tok c) = (c \<in> set ''!<>=~'')"
| "atom_token (ATOM a) = True"
| "atom_token _ = False"

lemma atom_start:
  assumes "g_atom us a"
  shows "us \<noteq> [] \<and> atom_token (hd us)"
proof -
  have version: "g_atom_version us a \<Longrightarrow> us \<noteq> [] \<and> atom_token (hd us)" for us a
    by (induction rule: g_atom_version.induct) simp_all
  have block: "g_atom_block us a \<Longrightarrow> us \<noteq> [] \<and> atom_token (hd us)" for us a
    by (induction rule: g_atom_block.induct) (auto dest: version)
  have slot: "g_atom_slot us a \<Longrightarrow> us \<noteq> [] \<and> atom_token (hd us)" for us a
    by (induction rule: g_atom_slot.induct) (auto dest: block)
  have repo: "g_atom_repo us a \<Longrightarrow> us \<noteq> [] \<and> atom_token (hd us)" for us a
    by (induction rule: g_atom_repo.induct) (auto dest: slot)
  show ?thesis
    using assms by (induction rule: g_atom.induct) (auto dest: repo)
qed

lemma p_single_atom: "ts \<noteq> [] \<Longrightarrow> atom_token (hd ts) \<Longrightarrow> p_single (Suc n) ts = map_option (apfst E_Atom) (p_atom ts)"
  by (cases ts; cases "hd ts") auto

fun single_token :: "token \<Rightarrow> bool" where
  "single_token (USESELECT t opt) = True"
| "single_token t = (atom_token t \<or> t = Tok CHR ''('')"

lemma single_start:
  "g_expr us es \<Longrightarrow> us \<noteq> [] \<and> single_token (hd us)"
  "g_single us e \<Longrightarrow> us \<noteq> [] \<and> single_token (hd us)"
proof (induction rule: g_expr_g_single.inducts)
  case (3 ts a)
  then show ?case using atom_start [OF 3] by (cases "hd ts") auto
qed auto

lemma single_token_ends: "single_token (hd ts) \<Longrightarrow> ends_atom ts"
  by (cases ts rule: ends_atom.cases) auto

lemma expr_end: "r = [] \<or> hd r = Tok CHR '')'' \<Longrightarrow> ends_atom r"
  by (cases r) auto

lemma p_complete:
  "g_expr us es \<Longrightarrow> 2 * length us \<le> n \<Longrightarrow> r = [] \<or> hd r = Tok CHR '')'' \<Longrightarrow> p_expr n (us @ r) = Some (es, r)"
  "g_single us e \<Longrightarrow> 2 * length us \<le> n + 1 \<Longrightarrow> ends_atom r \<Longrightarrow> p_single n (us @ r) = Some (e, r)"
proof (induction arbitrary: n r and n r rule: g_expr_g_single.inducts)
  case (1 ts e)
  then obtain m where m: "n = Suc m" "2 * length ts \<le> m + 1"
    using single_start(2) [OF 1(1)] by (cases n) auto
  show ?case using 1(2) [OF m(2) expr_end [OF 1(4)]] 1(4) m(1) by auto
next
  case (2 ts e us es)
  have len: "ts \<noteq> []" "us \<noteq> []" "single_token (hd us)"
    using single_start(2) [OF 2(1)] single_start(1) [OF 2(2)] by simp_all
  then obtain m where m: "n = Suc m" "2 * length ts \<le> m + 1" "2 * length us \<le> m"
    using 2(5) by (cases n; cases ts) auto
  have "ends_atom (us @ r)" "us @ r \<noteq> []" "hd (us @ r) \<noteq> Tok CHR '')''"
    using len single_token_ends [of "us @ r"] by auto
  then show ?case
    using 2(3) [OF m(2), of "us @ r"] 2(4) [OF m(3) 2(6)] m(1) len(2) by simp
next
  case (3 ts a)
  then have "ts \<noteq> []" "2 * length ts \<le> n + 1"
    using atom_start [OF 3(1)] by simp_all
  then obtain m where m: "n = Suc m"
    by (cases n; cases ts) simp_all
  show ?case
    using p_single_atom [of "ts @ r" m] atom_start [OF 3(1)] p_atom_complete [OF 3(1,3)] m by simp
next
  case (4 ts es t opt)
  then obtain m where m: "n = Suc m" "2 * length ts \<le> m" by (cases n) auto
  show ?case using 4(2) [OF m(2), of "Tok CHR '')'' # r"] m(1) by simp
next
  case (5 ts es)
  then obtain m where m: "n = Suc m" "2 * length ts \<le> m" by (cases n) auto
  show ?case using 5(2) [OF m(2), of "Tok CHR '')'' # r"] m(1) by simp
qed

lemma p_single_cases:
  assumes "p_single (Suc n) ts = Some (e, r)"
  obtains t opt q es where "ts = USESELECT t opt # Tok CHR ''('' # q" "p_expr n q = Some (es, Tok CHR '')'' # r)" "e = E_Use t opt es"
    | q es where "ts = Tok CHR ''('' # q" "p_expr n q = Some (es, Tok CHR '')'' # r)" "e = E_Group es"
    | a where "p_atom ts = Some (a, r)" "e = E_Atom a"
proof -
  have last_paren: "r0 = Tok CHR '')'' # tl r0" if "r0 \<noteq> [] \<and> hd r0 = Tok CHR '')''" for r0
    using that by (cases r0) auto
  show ?thesis
  proof (cases "\<exists>t opt c q. ts = USESELECT t opt # Tok c # q")
    case True
    then show ?thesis
      using assms that(1) last_paren by (auto split: bind_splits if_splits; metis)
  next
    case use: False
    show ?thesis
    proof (cases "\<exists>q. ts = Tok CHR ''('' # q")
      case True
      then show ?thesis
        using assms that(2) last_paren by (auto split: bind_splits if_splits; metis)
    next
      case False
      then have "p_single (Suc n) ts = map_option (apfst E_Atom) (p_atom ts)"
        using use by (auto split: list.splits token.splits)
      then show ?thesis
        using assms that(3) by auto
    qed
  qed
qed

lemma p_sound:
  "(\<forall>ts es r. p_expr n ts = Some (es, r) \<longrightarrow> (\<exists>us. ts = us @ r \<and> g_expr us es))
    \<and> (\<forall>ts e r. p_single n ts = Some (e, r) \<longrightarrow> (\<exists>us. ts = us @ r \<and> g_single us e))"
proof (induction n)
  case (Suc n)
  have expr: "\<exists>us. ts = us @ r \<and> g_expr us es" if "p_expr n ts = Some (es, r)" for ts es r
    using Suc that by blast
  have single: "\<exists>us. ts = us @ r \<and> g_single us e" if "p_single n ts = Some (e, r)" for ts e r
    using Suc that by blast
  have "\<exists>us. ts = us @ r \<and> g_expr us es" if run: "p_expr (Suc n) ts = Some (es, r)" for ts es r
  proof -
    obtain e r1 where e: "p_single n ts = Some (e, r1)"
      using run by (auto split: bind_splits)
    obtain us where us: "ts = us @ r1" "g_single us e"
      using single [OF e] by blast
    show ?thesis
    proof (cases "r1 = [] \<or> hd r1 = Tok CHR '')''")
      case True
      then show ?thesis
        using run e us g_expr_g_single.intros(1) by auto
    next
      case False
      then obtain es' where es': "p_expr n r1 = Some (es', r)" "es = e # es'"
        using run e by (auto split: bind_splits)
      obtain us' where "r1 = us' @ r" "g_expr us' es'"
        using expr [OF es'(1)] by blast
      then show ?thesis
        using us es'(2) g_expr_g_single.intros(2) [of us e us' es'] by (intro exI [of _ "us @ us'"]) simp
    qed
  qed
  moreover have "\<exists>us. ts = us @ r \<and> g_single us e" if run: "p_single (Suc n) ts = Some (e, r)" for ts e r
    using run
  proof (cases rule: p_single_cases)
    case (1 t opt q es)
    obtain us where "q = us @ Tok CHR '')'' # r" "g_expr us es"
      using expr [OF 1(2)] by blast
    then show ?thesis
      using 1(1,3) g_expr_g_single.intros(4) [of us es t opt]
      by (intro exI [of _ "USESELECT t opt # Tok CHR ''('' # us @ [Tok CHR '')'']"]) simp
  next
    case (2 q es)
    obtain us where "q = us @ Tok CHR '')'' # r" "g_expr us es"
      using expr [OF 2(2)] by blast
    then show ?thesis
      using 2(1,3) g_expr_g_single.intros(5) [of us es]
      by (intro exI [of _ "Tok CHR ''('' # us @ [Tok CHR '')'']"]) simp
  next
    case (3 a)
    then show ?thesis
      using p_atom_sound [OF 3(1)] g_expr_g_single.intros(3) by blast
  qed
  ultimately show ?case by blast
qed simp

lemma depend_program_parsed: "parse_depend ts = Some es \<longleftrightarrow> g_program ts es"
proof
  assume run: "parse_depend ts = Some es"
  show "g_program ts es"
  proof (cases "ts = []")
    case True
    then show ?thesis using run g_program.intros(2) by (simp add: parse_depend_def)
  next
    case False
    then have "p_expr (2 * length ts) ts = Some (es, [])"
      using run by (simp add: parse_depend_def split: option.splits prod.splits list.splits)
    then show ?thesis
      using p_sound [of "2 * length ts"] g_program.intros(1) by fastforce
  qed
next
  assume "g_program ts es"
  then show "parse_depend ts = Some es"
  proof (cases rule: g_program.cases)
    case 1
    then show ?thesis
      using p_complete(1) [OF 1, of "2 * length ts" "[]"] single_start(1) [OF 1] by (simp add: parse_depend_def)
  qed (simp add: parse_depend_def)
qed

text \<open>C22. The grammar is unambiguous, and a recursive-descent parser decides it: it returns an
  expression exactly if the tokens derive that expression, and for the empty program the empty one.\<close>

theorem depend_grammar_parsed:
  "(parse_depend ts = Some es \<longleftrightarrow> g_program ts es) \<and> (parse_depend ts = None \<longleftrightarrow> (\<forall>es. \<not> g_program ts es))"
  using depend_program_parsed [of ts] by (metis option.exhaust option.distinct(1))

section \<open>Writing an expression\<close>

text \<open>The tokens of an atom and of an expression; a range that no production sets has none.\<close>

definition range_tokens :: "U32 \<Rightarrow> token list option" where
  "range_tokens rng =
     (if rng = ATOM_VERSION_ALL then Some []
      else if rng = ATOM_VERSION_GE then Some [Tok CHR ''>'', Tok CHR ''='']
      else if rng = ATOM_VERSION_LE then Some [Tok CHR ''<'', Tok CHR ''='']
      else if rng = ATOM_VERSION_E then Some [Tok CHR ''='']
      else if rng = ATOM_VERSION_G then Some [Tok CHR ''>'']
      else if rng = ATOM_VERSION_REV then Some [Tok CHR ''~'']
      else if rng = ATOM_VERSION_L then Some [Tok CHR ''<''] else None)"

fun block_tokens :: "atom_block \<Rightarrow> token list" where
  "block_tokens ATOM_BLOCK_HARD = [Tok CHR ''!'', Tok CHR ''!'']"
| "block_tokens ATOM_BLOCK_SOFT = [Tok CHR ''!'']"
| "block_tokens ATOM_BLOCK_NONE = []"

definition atom_tokens :: "Atom \<Rightarrow> token list" where
  "atom_tokens a = block_tokens (atom_blocks a) @ the (range_tokens (atom_range a)) @ [ATOM a]
     @ (if atom_slot a = None \<and> atom_sub_slot a = None \<and> atom_slot_opts a = ATOM_SLOT_IGNORE then []
        else [SLOT (atom_slot a) (atom_sub_slot a) (atom_slot_opts a)])
     @ (case atom_repository a of None \<Rightarrow> [] | Some r \<Rightarrow> [REPOSITORY r])
     @ (if atom_useflags a = [] then [] else [ATOM_FLAGS (atom_useflags a)])"

fun expr_tokens :: "expr \<Rightarrow> token list" where
  "expr_tokens (E_Atom a) = atom_tokens a"
| "expr_tokens (E_Use t opt es) = USESELECT t opt # Tok CHR ''('' # concat (map expr_tokens es) @ [Tok CHR '')'']"
| "expr_tokens (E_Group es) = Tok CHR ''('' # concat (map expr_tokens es) @ [Tok CHR '')'']"

fun expr_ok :: "expr \<Rightarrow> bool" where
  "expr_ok (E_Atom a) = (range_tokens (atom_range a) \<noteq> None)"
| "expr_ok (E_Use t opt es) = (es \<noteq> [] \<and> (\<forall>e \<in> set es. expr_ok e))"
| "expr_ok (E_Group es) = (es \<noteq> [] \<and> (\<forall>e \<in> set es. expr_ok e))"

lemma range_tokens_version:
  assumes "range_tokens (atom_range a) = Some ts"
  shows "g_atom_version (ts @ [ATOM a]) a"
proof -
  have same: "a\<lparr>atom_range := r\<rparr> = a" if "atom_range a = r" for r
    using that by (cases a) simp
  have "g_atom_version (us @ [ATOM a]) (a\<lparr>atom_range := r\<rparr>)" if "range_tokens r = Some us" for r us
    using that g_atom_version.intros [of a] by (auto simp: range_tokens_def split: if_splits)
  from this [OF assms] show ?thesis by (simp add: same)
qed

lemma atom_tokens_derive:
  assumes "range_tokens (atom_range a) \<noteq> None"
  shows "g_atom (atom_tokens a) a"
proof -
  obtain ts where ts: "range_tokens (atom_range a) = Some ts"
    using assms by blast
  have block: "g_atom_block (block_tokens (atom_blocks a) @ ts @ [ATOM a]) a"
    using g_atom_block.intros [OF range_tokens_version [OF ts]]
    by (cases a; cases "atom_blocks a") simp_all
  let ?slot = "if atom_slot a = None \<and> atom_sub_slot a = None \<and> atom_slot_opts a = ATOM_SLOT_IGNORE then []
        else [SLOT (atom_slot a) (atom_sub_slot a) (atom_slot_opts a)]"
  have slot: "g_atom_slot ((block_tokens (atom_blocks a) @ ts @ [ATOM a]) @ ?slot) a"
    using g_atom_slot.intros(1) [OF block, of "atom_slot a" "atom_sub_slot a" "atom_slot_opts a"]
      g_atom_slot.intros(2) [OF block] by (cases a) auto
  let ?repo = "case atom_repository a of None \<Rightarrow> [] | Some r \<Rightarrow> [REPOSITORY r]"
  have repo: "g_atom_repo (((block_tokens (atom_blocks a) @ ts @ [ATOM a]) @ ?slot) @ ?repo) a"
    using g_atom_repo.intros(1) [OF slot, of "the (atom_repository a)"] g_atom_repo.intros(2) [OF slot]
    by (cases a; cases "atom_repository a") auto
  have "g_atom ((((block_tokens (atom_blocks a) @ ts @ [ATOM a]) @ ?slot) @ ?repo)
      @ (if atom_useflags a = [] then [] else [ATOM_FLAGS (atom_useflags a)])) a"
    using g_atom.intros(1) [OF repo, of "atom_useflags a"] g_atom.intros(2) [OF repo] by (cases a) auto
  then show ?thesis using ts by (simp add: atom_tokens_def)
qed

lemma exprs_tokens_derive:
  "es \<noteq> [] \<Longrightarrow> \<forall>e \<in> set es. g_single (expr_tokens e) e \<Longrightarrow> g_expr (concat (map expr_tokens es)) es"
proof (induction es)
  case (Cons e es)
  show ?case
  proof (cases "es = []")
    case True
    then show ?thesis using Cons g_expr_g_single.intros(1) by simp
  next
    case False
    then show ?thesis using Cons g_expr_g_single.intros(2) by simp
  qed
qed simp

lemma expr_tokens_derive: "expr_ok e \<Longrightarrow> g_single (expr_tokens e) e"
proof (induction e)
  case (E_Atom a)
  then show ?case using atom_tokens_derive g_expr_g_single.intros(3) by simp
next
  case (E_Use t opt es)
  then show ?case using exprs_tokens_derive [of es] g_expr_g_single.intros(4) by simp
next
  case (E_Group es)
  then show ?case using exprs_tokens_derive [of es] g_expr_g_single.intros(5) by simp
qed

text \<open>Every dependency expression whose groups are not empty and whose atoms have a range the
  grammar knows is read back from its tokens, with blockers, ranges, slots, repositories, flags
  and nesting.\<close>

theorem depend_roundtrip:
  assumes "\<forall>e \<in> set es. expr_ok e"
  shows "parse_depend (concat (map expr_tokens es)) = Some es"
proof (cases "es = []")
  case True
  then show ?thesis by (simp add: parse_depend_def)
next
  case False
  then have "g_expr (concat (map expr_tokens es)) es"
    using exprs_tokens_derive assms expr_tokens_derive by blast
  then show ?thesis
    using p_complete(1) [of "concat (map expr_tokens es)" es "2 * length (concat (map expr_tokens es))" "[]"]
      single_start(1) [of "concat (map expr_tokens es)" es]
    by (simp add: parse_depend_def del: concat_eq_Nil_conv)
qed

lemma depend_roundtrip_witness:
  "parse_depend [USESELECT (Some ''ssl'') USE_OP_ENABLE, Tok CHR ''('', ATOM (PyAtom_new\<lparr>atom_range := ATOM_VERSION_ALL\<rparr>), Tok CHR '')'']
    = Some [E_Use (Some ''ssl'') USE_OP_ENABLE [E_Atom (PyAtom_new\<lparr>atom_range := ATOM_VERSION_ALL\<rparr>)]]"
  using depend_roundtrip [of "[E_Use (Some ''ssl'') USE_OP_ENABLE [E_Atom (PyAtom_new\<lparr>atom_range := ATOM_VERSION_ALL\<rparr>)]]"]
  by (simp add: atom_tokens_def range_tokens_def PyAtom_new_def)

section \<open>The actions\<close>

text \<open>The nodes an expression becomes: the actions of a group run before that of its node, and the
  n-th new flag object is at the n-th address.\<close>

fun build_expr :: "(nat \<Rightarrow> U64) \<Rightarrow> expr \<Rightarrow> flag_store \<times> nat \<Rightarrow> (Dependency \<times> flag_store \<times> nat) option"
  and build_exprs :: "(nat \<Rightarrow> U64) \<Rightarrow> expr list \<Rightarrow> flag_store \<times> nat \<Rightarrow> (Dependency list \<times> flag_store \<times> nat) option" where
  "build_expr addr (E_Atom a) s = Some (dependency_build_atom a, s)"
| "build_expr addr (E_Use t opt es) s =
     do { (children, p, n) \<leftarrow> build_exprs addr es s;
          (p, d) \<leftarrow> dependency_build_use p (addr n) t opt children;
          Some (d, p, n + 1) }"
| "build_expr addr (E_Group es) s =
     do { (children, s) \<leftarrow> build_exprs addr es s; Some (dependency_build_grouping children, s) }"
| "build_exprs addr [] s = Some ([], s)"
| "build_exprs addr (e # es) s =
     do { (d, s) \<leftarrow> build_expr addr e s; (ds, s) \<leftarrow> build_exprs addr es s; Some (d # ds, s) }"

text \<open>What they become: a condition is the id of its flag.\<close>

fun node_of :: "flag_store \<Rightarrow> expr \<Rightarrow> Dependency" where
  "node_of p (E_Atom a) = Dependency USE_OP_DISABLE 0 (Some a) []"
| "node_of p (E_Use t opt es) = Dependency opt (target_id p t) None (map (node_of p) es)"
| "node_of p (E_Group es) = Dependency USE_OP_DISABLE 0 None (map (node_of p) es)"

fun uses_of :: "expr \<Rightarrow> string option list" where
  "uses_of (E_Atom a) = []"
| "uses_of (E_Use t opt es) = t # concat (map uses_of es)"
| "uses_of (E_Group es) = concat (map uses_of es)"

lemma node_of_kept: "ids_kept p p' \<Longrightarrow> registered p (uses_of e) \<Longrightarrow> node_of p' e = node_of p e"
proof (induction e)
  case (E_Use t opt es)
  then have "registered p (uses_of e)" if "e \<in> set es" for e
    using that by (auto simp: registered_def)
  then show ?case using E_Use target_id_kept [of p p' t] by simp
next
  case (E_Group es)
  then have "registered p (uses_of e)" if "e \<in> set es" for e
    using that by (auto simp: registered_def)
  then show ?case using E_Group by simp
qed simp

lemma nodes_kept: "ids_kept p p' \<Longrightarrow> registered p (concat (map uses_of es)) \<Longrightarrow> map (node_of p') es = map (node_of p) es"
  using node_of_kept by (induction es) auto

definition builds :: "(nat \<Rightarrow> U64) \<Rightarrow> nat \<Rightarrow> expr \<Rightarrow> bool" where
  "builds addr m e \<longleftrightarrow> (\<forall>n p k. flags_ready addr m (length (uses_of e) + n) p k \<longrightarrow>
     (\<exists>p'. build_expr addr e (p, k) = Some (node_of p' e, p', k + length (uses_of e)) \<and> ids_kept p p'
        \<and> registered p' (uses_of e) \<and> flags_ready addr m n p' (k + length (uses_of e))))"

lemma build_exprs_nodes:
  assumes "\<And>e. e \<in> set es \<Longrightarrow> builds addr m e"
    and "flags_ready addr m (length (concat (map uses_of es)) + n) p k"
  shows "\<exists>p'. build_exprs addr es (p, k) = Some (map (node_of p') es, p', k + length (concat (map uses_of es)))
    \<and> ids_kept p p' \<and> registered p' (concat (map uses_of es))
    \<and> flags_ready addr m n p' (k + length (concat (map uses_of es)))"
  using assms
proof (induction es arbitrary: p k)
  case (Cons e es)
  let ?u = "length (uses_of e)" and ?v = "length (concat (map uses_of es))"
  have "builds addr m e" and "flags_ready addr m (?u + (?v + n)) p k"
    using Cons.prems by (simp_all add: add.assoc)
  then obtain p1 where p1: "build_expr addr e (p, k) = Some (node_of p1 e, p1, k + ?u)" "ids_kept p p1"
      "registered p1 (uses_of e)" "flags_ready addr m (?v + n) p1 (k + ?u)"
    unfolding builds_def by blast
  obtain p2 where p2: "build_exprs addr es (p1, k + ?u) = Some (map (node_of p2) es, p2, k + ?u + ?v)"
      "ids_kept p1 p2" "registered p2 (concat (map uses_of es))" "flags_ready addr m n p2 (k + ?u + ?v)"
    using Cons.IH [OF _ p1(4)] Cons.prems(1) by auto
  show ?case
    using p1 p2 node_of_kept [OF p2(2) p1(3)] registered_kept [OF p2(2) p1(3)] ids_kept_trans [OF p1(2) p2(2)]
    by (simp add: add.assoc)
qed simp

lemma build_expr_nodes: "builds addr m e"
proof (induction e)
  case (E_Atom a)
  then show ?case by (simp add: builds_def dependency_build_atom_def PyDependency_new_def)
next
  case (E_Use t opt es)
  let ?v = "length (concat (map uses_of es))"
  have "\<exists>p'. build_expr addr (E_Use t opt es) (p, k) = Some (node_of p' (E_Use t opt es), p', k + ?v + 1)
      \<and> ids_kept p p' \<and> registered p' (uses_of (E_Use t opt es)) \<and> flags_ready addr m n p' (k + ?v + 1)"
    if ready: "flags_ready addr m (?v + Suc n) p k" for n p k
  proof -
    obtain p1 where p1: "build_exprs addr es (p, k) = Some (map (node_of p1) es, p1, k + ?v)" "ids_kept p p1"
        "registered p1 (concat (map uses_of es))" "flags_ready addr m (Suc n) p1 (k + ?v)"
      using build_exprs_nodes [OF E_Use ready] by blast
    obtain p2 where p2: "use_get_global p1 (addr (k + ?v)) t = Some (p2, target_id p2 t)"
        "\<forall>name. t = Some name \<longrightarrow> flag_id p2 name \<noteq> None" "ids_kept p1 p2" "flags_ready addr m n p2 (Suc (k + ?v))"
      using use_get_global_target [OF p1(4)] .
    have "dependency_build_use p1 (addr (k + ?v)) t opt (map (node_of p1) es)
        = Some (p2, Dependency opt (target_id p2 t) None (map (node_of p1) es))"
      using p2(1) by (cases t) (simp_all add: dependency_build_use_def PyDependency_new_def use_get_global_def)
    then show ?thesis
      using p1 p2 nodes_kept [OF p2(3) p1(3)] registered_kept [OF p2(3) p1(3)] ids_kept_trans [OF p1(2) p2(3)]
      by simp
  qed
  then show ?case by (simp add: builds_def)
next
  case (E_Group es)
  let ?v = "length (concat (map uses_of es))"
  have "\<exists>p'. build_expr addr (E_Group es) (p, k) = Some (node_of p' (E_Group es), p', k + ?v)
      \<and> ids_kept p p' \<and> registered p' (concat (map uses_of es)) \<and> flags_ready addr m n p' (k + ?v)"
    if ready: "flags_ready addr m (?v + n) p k" for n p k
  proof -
    obtain p1 where "build_exprs addr es (p, k) = Some (map (node_of p1) es, p1, k + ?v)" "ids_kept p p1"
        "registered p1 (concat (map uses_of es))" "flags_ready addr m n p1 (k + ?v)"
      using build_exprs_nodes [OF E_Group ready] by blast
    then show ?thesis
      by (intro exI [of _ p1]) (simp add: dependency_build_grouping_def PyDependency_new_def)
  qed
  then show ?case by (simp add: builds_def)
qed

lemma uses_of_tokens:
  "g_expr ts es \<Longrightarrow> length (concat (map uses_of es)) \<le> length ts"
  "g_single ts e \<Longrightarrow> length (uses_of e) \<le> length ts"
  by (induction rule: g_expr_g_single.inducts) simp_all

text \<open>The actions turn every derivable program into nodes: none fails, every condition is the id
  its flag has in the table of global flags, a condition without a flag is 0, and the flags that
  were known keep their ids.\<close>

theorem depend_nodes_built:
  assumes "g_program ts es" "flags_ready addr m (length ts) p k"
  shows "\<exists>p' k'. build_exprs addr es (p, k) = Some (map (node_of p') es, p', k') \<and> ids_kept p p'
    \<and> registered p' (concat (map uses_of es)) \<and> flags_inv p'"
proof -
  have "length (concat (map uses_of es)) \<le> length ts"
    using assms(1) uses_of_tokens(1) by (cases rule: g_program.cases) auto
  then have "flags_ready addr m (length (concat (map uses_of es)) + 0) p k"
    using flags_ready_less [OF assms(2), of 0] by simp
  then show ?thesis
    using build_exprs_nodes [OF build_expr_nodes] flags_ready_def by metis
qed

lemma depend_nodes_built_witness:
  "\<exists>p' k'. build_exprs spaced [E_Use (Some ''ssl'') USE_OP_ENABLE [E_Atom (PyAtom_new\<lparr>atom_range := ATOM_VERSION_ALL\<rparr>)]]
      (empty_flags, 0)
    = Some ([Dependency USE_OP_ENABLE (target_id p' (Some ''ssl'')) None
        [Dependency USE_OP_DISABLE 0 (Some (PyAtom_new\<lparr>atom_range := ATOM_VERSION_ALL\<rparr>)) []]], p', k')
    \<and> flag_id p' ''ssl'' \<noteq> None"
proof -
  let ?a = "PyAtom_new\<lparr>atom_range := ATOM_VERSION_ALL\<rparr>"
  have "g_program [USESELECT (Some ''ssl'') USE_OP_ENABLE, Tok CHR ''('', ATOM ?a, Tok CHR '')'']
      [E_Use (Some ''ssl'') USE_OP_ENABLE [E_Atom ?a]]"
    by (subst depend_program_parsed [symmetric])
      (simp add: parse_depend_def p_atom_def p_block_def PyAtom_new_def numeral_eq_Suc)
  moreover have "flags_ready spaced 256 (length [USESELECT (Some ''ssl'') USE_OP_ENABLE, Tok CHR ''('', ATOM ?a, Tok CHR '')'']) empty_flags 0"
    by (rule fresh_flags_ready) simp
  ultimately obtain p' k' where
    "build_exprs spaced [E_Use (Some ''ssl'') USE_OP_ENABLE [E_Atom ?a]] (empty_flags, 0)
      = Some (map (node_of p') [E_Use (Some ''ssl'') USE_OP_ENABLE [E_Atom ?a]], p', k')"
    "registered p' (concat (map uses_of [E_Use (Some ''ssl'') USE_OP_ENABLE [E_Atom ?a]]))"
    using depend_nodes_built by blast
  then show ?thesis
    by (intro exI [of _ p'] exI [of _ k']) (simp del: build_exprs.simps)
qed

end
