(* ===== verification/ReqUse.thy ===== *)
theory ReqUse
  imports FlagStore
begin

text \<open>
  The grammar of REQUIRED_USE in autogentoo/cportage/requireduse.y and its actions. The grammar is
  an inductive relation, decided by a recursive-descent parser; the actions make chains of
  \<open>RequiredUse\<close> nodes. A group is the chain of its elements, and the node that follows it replaces
  the tail of that chain, so all elements of a group but the first are lost when something follows.
\<close>

section \<open>The grammar\<close>

datatype ru_token = R_Char char | R_Ident string | R_Select use_operator | R_Default atom_use_default

datatype ru_expr = U_Flag string use_operator | U_Cond "string option" use_operator "ru_expr list" | U_Group "ru_expr list"

inductive g_use_expr :: "ru_token list \<Rightarrow> string \<Rightarrow> use_operator \<Rightarrow> bool" where
  "g_use_expr [R_Char CHR ''!'', R_Ident name] name USE_OP_DISABLE"
| "g_use_expr [R_Ident name] name USE_OP_ENABLE"

inductive g_sel :: "ru_token list \<Rightarrow> string option \<Rightarrow> use_operator \<Rightarrow> bool" where
  "g_use_expr ts name opt \<Longrightarrow> g_sel (ts @ [R_Char CHR ''?'']) (Some name) opt"
| "g_sel [R_Select opt] None opt"

inductive g_ru_expr :: "ru_token list \<Rightarrow> ru_expr list \<Rightarrow> bool" and g_ru_single :: "ru_token list \<Rightarrow> ru_expr \<Rightarrow> bool" where
  "g_ru_single ts e \<Longrightarrow> g_ru_expr ts [e]"
| "g_ru_single ts e \<Longrightarrow> g_ru_expr us es \<Longrightarrow> g_ru_expr (ts @ us) (e # es)"
| "g_use_expr ts name opt \<Longrightarrow> g_ru_single ts (U_Flag name opt)"
| "g_sel ts t opt \<Longrightarrow> g_ru_expr us es \<Longrightarrow>
    g_ru_single (ts @ R_Char CHR ''('' # us @ [R_Char CHR '')'']) (U_Cond t opt es)"
| "g_ru_expr us es \<Longrightarrow> g_ru_single (R_Char CHR ''('' # us @ [R_Char CHR '')'']) (U_Group es)"

inductive g_ru_program :: "ru_token list \<Rightarrow> ru_expr list \<Rightarrow> bool" where
  "g_ru_expr ts es \<Longrightarrow> g_ru_program ts es"
| "g_ru_program [] []"

section \<open>A parser\<close>

fun p_use_expr :: "ru_token list \<Rightarrow> (string \<times> use_operator \<times> ru_token list) option" where
  "p_use_expr (R_Ident name # r) = Some (name, USE_OP_ENABLE, r)"
| "p_use_expr (R_Char c # R_Ident name # r) = (if c = CHR ''!'' then Some (name, USE_OP_DISABLE, r) else None)"
| "p_use_expr _ = None"

fun sel_of :: "(string \<times> use_operator \<times> ru_token list) option \<Rightarrow> (string option \<times> use_operator \<times> ru_token list) option" where
  "sel_of (Some (name, opt, R_Char c # r)) = (if c = CHR ''?'' then Some (Some name, opt, r) else None)"
| "sel_of _ = None"

fun p_sel :: "ru_token list \<Rightarrow> (string option \<times> use_operator \<times> ru_token list) option" where
  "p_sel (R_Select opt # r) = Some (None, opt, r)"
| "p_sel ts = sel_of (p_use_expr ts)"

fun close_group :: "(ru_expr list \<Rightarrow> ru_expr) \<Rightarrow> ru_expr list \<times> ru_token list \<Rightarrow> (ru_expr \<times> ru_token list) option" where
  "close_group f (es, R_Char c # r) = (if c = CHR '')'' then Some (f es, r) else None)"
| "close_group f _ = None"

text \<open>The number bounds the depth of the calls; twice the number of tokens is enough.\<close>

fun p_ru_expr :: "nat \<Rightarrow> ru_token list \<Rightarrow> (ru_expr list \<times> ru_token list) option"
  and p_ru_single :: "nat \<Rightarrow> ru_token list \<Rightarrow> (ru_expr \<times> ru_token list) option" where
  "p_ru_expr 0 ts = None"
| "p_ru_expr (Suc n) ts =
     do { (e, r) \<leftarrow> p_ru_single n ts;
          if r = [] \<or> hd r = R_Char CHR '')'' then Some ([e], r)
          else do { (es, r) \<leftarrow> p_ru_expr n r; Some (e # es, r) } }"
| "p_ru_single 0 ts = None"
| "p_ru_single (Suc n) ts =
     (if ts \<noteq> [] \<and> hd ts = R_Char CHR ''('' then p_ru_expr n (tl ts) \<bind> close_group U_Group
      else case p_sel ts of
          Some (t, opt, r) \<Rightarrow>
            if r \<noteq> [] \<and> hd r = R_Char CHR ''('' then p_ru_expr n (tl r) \<bind> close_group (U_Cond t opt) else None
        | None \<Rightarrow> map_option (\<lambda>(name, opt, r). (U_Flag name opt, r)) (p_use_expr ts))"

definition parse_required_use :: "ru_token list \<Rightarrow> ru_expr list option" where
  "parse_required_use ts =
     (if ts = [] then Some []
      else case p_ru_expr (2 * length ts) ts of Some (es, []) \<Rightarrow> Some es | _ \<Rightarrow> None)"

lemma p_use_expr_sound: "p_use_expr ts = Some (name, opt, r) \<Longrightarrow> \<exists>us. ts = us @ r \<and> g_use_expr us name opt"
  by (induction ts rule: p_use_expr.induct) (auto simp: g_use_expr.simps split: if_splits)

lemma p_use_expr_complete: "g_use_expr us name opt \<Longrightarrow> p_use_expr (us @ r) = Some (name, opt, r)"
  by (induction rule: g_use_expr.induct) simp_all

lemma sel_of_Some: "sel_of x = Some (t, opt, r) \<longleftrightarrow> (\<exists>name. t = Some name \<and> x = Some (name, opt, R_Char CHR ''?'' # r))"
  by (cases x rule: sel_of.cases) auto

lemma p_sel_expr: "\<forall>opt r. ts \<noteq> R_Select opt # r \<Longrightarrow> p_sel ts = sel_of (p_use_expr ts)"
  by (cases ts rule: p_sel.cases) auto

lemma p_sel_sound:
  assumes "p_sel ts = Some (t, opt, r)"
  shows "\<exists>us. ts = us @ r \<and> g_sel us t opt"
proof (cases "\<exists>opt r. ts = R_Select opt # r")
  case True
  then show ?thesis using assms g_sel.intros(2) by auto
next
  case False
  then obtain name where name: "t = Some name" "p_use_expr ts = Some (name, opt, R_Char CHR ''?'' # r)"
    using assms p_sel_expr [of ts] by (auto simp: sel_of_Some)
  then obtain us where "ts = us @ R_Char CHR ''?'' # r" "g_use_expr us name opt"
    using p_use_expr_sound by blast
  then show ?thesis
    using g_sel.intros(1) [of us name opt] name(1) by (intro exI [of _ "us @ [R_Char CHR ''?'']"]) simp
qed

lemma use_expr_start: "g_use_expr us name opt \<Longrightarrow> us \<noteq> [] \<and> (hd us = R_Char CHR ''!'' \<or> (\<exists>n. hd us = R_Ident n))"
  by (induction rule: g_use_expr.induct) simp_all

lemma p_sel_flag:
  assumes "g_use_expr us name opt" "r = [] \<or> hd r \<noteq> R_Char CHR ''?''"
  shows "p_sel (us @ r) = None"
proof -
  have "p_sel (us @ r) = sel_of (Some (name, opt, r))"
    using use_expr_start [OF assms(1)] p_sel_expr [of "us @ r"] p_use_expr_complete [OF assms(1), of r]
    by (cases us) auto
  then show ?thesis
    using assms(2) by (cases "Some (name, opt, r)" rule: sel_of.cases) auto
qed

lemma p_sel_complete: "g_sel us t opt \<Longrightarrow> p_sel (us @ r) = Some (t, opt, r)"
proof (induction rule: g_sel.induct)
  case (1 ts name opt)
  then show ?case
    using use_expr_start [OF 1] p_sel_expr [of "ts @ R_Char CHR ''?'' # r"] p_use_expr_complete [OF 1, of "R_Char CHR ''?'' # r"]
    by (cases ts) auto
qed simp

lemma sel_start: "g_sel us t opt \<Longrightarrow> us \<noteq> [] \<and> hd us \<noteq> R_Char CHR ''('' \<and> hd us \<noteq> R_Char CHR '')'' \<and> hd us \<noteq> R_Char CHR ''?''"
  by (induction rule: g_sel.induct) (auto dest: use_expr_start)

lemma ru_start:
  "g_ru_expr us es \<Longrightarrow> us \<noteq> [] \<and> hd us \<noteq> R_Char CHR '')'' \<and> hd us \<noteq> R_Char CHR ''?''"
  "g_ru_single us e \<Longrightarrow> us \<noteq> [] \<and> hd us \<noteq> R_Char CHR '')'' \<and> hd us \<noteq> R_Char CHR ''?''"
proof (induction rule: g_ru_expr_g_ru_single.inducts)
  case (3 ts name opt)
  then show ?case using use_expr_start [OF 3] by auto
next
  case (4 ts t opt us es)
  then show ?case using sel_start [OF 4(1)] by simp
qed simp_all

lemma p_ru_complete:
  "g_ru_expr us es \<Longrightarrow> 2 * length us \<le> n \<Longrightarrow> r = [] \<or> hd r = R_Char CHR '')'' \<Longrightarrow> p_ru_expr n (us @ r) = Some (es, r)"
  "g_ru_single us e \<Longrightarrow> 2 * length us \<le> n + 1 \<Longrightarrow> r = [] \<or> hd r \<noteq> R_Char CHR ''?'' \<Longrightarrow> p_ru_single n (us @ r) = Some (e, r)"
proof (induction arbitrary: n r and n r rule: g_ru_expr_g_ru_single.inducts)
  case (1 ts e)
  then obtain m where m: "n = Suc m" "2 * length ts \<le> m + 1"
    using ru_start(2) [OF 1(1)] by (cases n) auto
  have "r = [] \<or> hd r \<noteq> R_Char CHR ''?''"
    using 1(4) by auto
  then show ?case using 1(2) [OF m(2)] 1(4) m(1) by simp
next
  case (2 ts e us es)
  have len: "ts \<noteq> []" "us \<noteq> []" "hd us \<noteq> R_Char CHR '')''" "hd us \<noteq> R_Char CHR ''?''"
    using ru_start(2) [OF 2(1)] ru_start(1) [OF 2(2)] by simp_all
  then obtain m where m: "n = Suc m" "2 * length ts \<le> m + 1" "2 * length us \<le> m"
    using 2(5) by (cases n; cases ts) auto
  show ?case
    using 2(3) [OF m(2), of "us @ r"] 2(4) [OF m(3) 2(6)] m(1) len by simp
next
  case (3 ts name opt)
  have start: "ts \<noteq> []" "hd ts \<noteq> R_Char CHR ''(''"
    using use_expr_start [OF 3(1)] by auto
  then obtain m where m: "n = Suc m"
    using 3(2) by (cases n; cases ts) simp_all
  show ?case
    using start p_sel_flag [OF 3(1,3)] p_use_expr_complete [OF 3(1), of r] m by simp
next
  case (4 ts t opt us es)
  have start: "ts \<noteq> []" "hd ts \<noteq> R_Char CHR ''(''"
    using sel_start [OF 4(1)] by auto
  then obtain m where m: "n = Suc m" "2 * length us \<le> m"
    using 4(4) by (cases n; cases ts) auto
  show ?case
    using start p_sel_complete [OF 4(1), of "R_Char CHR ''('' # us @ R_Char CHR '')'' # r"]
      4(3) [OF m(2), of "R_Char CHR '')'' # r"] m(1) by simp
next
  case (5 us es)
  then obtain m where m: "n = Suc m" "2 * length us \<le> m" by (cases n) auto
  show ?case using 5(2) [OF m(2), of "R_Char CHR '')'' # r"] m(1) by simp
qed

lemma close_group_Some: "close_group f x = Some (e, r) \<longleftrightarrow> (\<exists>es. x = (es, R_Char CHR '')'' # r) \<and> e = f es)"
  by (cases "(f, x)" rule: close_group.cases) auto

lemma p_ru_single_cases:
  assumes "p_ru_single (Suc n) ts = Some (e, r)"
  obtains q es where "ts = R_Char CHR ''('' # q" "p_ru_expr n q = Some (es, R_Char CHR '')'' # r)" "e = U_Group es"
    | t opt q es where "p_sel ts = Some (t, opt, R_Char CHR ''('' # q)" "p_ru_expr n q = Some (es, R_Char CHR '')'' # r)"
        "e = U_Cond t opt es"
    | name opt where "p_use_expr ts = Some (name, opt, r)" "e = U_Flag name opt"
proof (cases "ts \<noteq> [] \<and> hd ts = R_Char CHR ''(''")
  case True
  then have "ts = R_Char CHR ''('' # tl ts" by (cases ts) auto
  then show ?thesis
    using assms True that(1) by (auto simp: bind_eq_Some_conv close_group_Some)
next
  case other: False
  show ?thesis
  proof (cases "p_sel ts")
    case None
    then show ?thesis using assms other that(3) by (auto split: if_splits)
  next
    case (Some x)
    obtain t opt q where x: "x = (t, opt, q)" by (cases x)
    then have "q = R_Char CHR ''('' # tl q" and "p_ru_expr n (tl q) \<bind> close_group (U_Cond t opt) = Some (e, r)"
      using assms other Some by (cases q; auto split: if_splits)+
    then show ?thesis
      using that(2) [of t opt "tl q"] Some x by (auto simp: bind_eq_Some_conv close_group_Some)
  qed
qed

lemma p_ru_sound:
  "(\<forall>ts es r. p_ru_expr n ts = Some (es, r) \<longrightarrow> (\<exists>us. ts = us @ r \<and> g_ru_expr us es))
    \<and> (\<forall>ts e r. p_ru_single n ts = Some (e, r) \<longrightarrow> (\<exists>us. ts = us @ r \<and> g_ru_single us e))"
proof (induction n)
  case (Suc n)
  have expr: "\<exists>us. ts = us @ r \<and> g_ru_expr us es" if "p_ru_expr n ts = Some (es, r)" for ts es r
    using Suc that by blast
  have single: "\<exists>us. ts = us @ r \<and> g_ru_single us e" if "p_ru_single n ts = Some (e, r)" for ts e r
    using Suc that by blast
  have "\<exists>us. ts = us @ r \<and> g_ru_expr us es" if run: "p_ru_expr (Suc n) ts = Some (es, r)" for ts es r
  proof -
    obtain e r1 where e: "p_ru_single n ts = Some (e, r1)"
      using run by (auto split: bind_splits)
    obtain us where us: "ts = us @ r1" "g_ru_single us e"
      using single [OF e] by blast
    show ?thesis
    proof (cases "r1 = [] \<or> hd r1 = R_Char CHR '')''")
      case True
      then show ?thesis
        using run e us g_ru_expr_g_ru_single.intros(1) by auto
    next
      case False
      then obtain es' where es': "p_ru_expr n r1 = Some (es', r)" "es = e # es'"
        using run e by (auto split: bind_splits)
      obtain us' where "r1 = us' @ r" "g_ru_expr us' es'"
        using expr [OF es'(1)] by blast
      then show ?thesis
        using us es'(2) g_ru_expr_g_ru_single.intros(2) [of us e us' es'] by (intro exI [of _ "us @ us'"]) simp
    qed
  qed
  moreover have "\<exists>us. ts = us @ r \<and> g_ru_single us e" if run: "p_ru_single (Suc n) ts = Some (e, r)" for ts e r
    using run
  proof (cases rule: p_ru_single_cases)
    case (1 q es)
    obtain us where "q = us @ R_Char CHR '')'' # r" "g_ru_expr us es"
      using expr [OF 1(2)] by blast
    then show ?thesis
      using 1(1,3) g_ru_expr_g_ru_single.intros(5) [of us es]
      by (intro exI [of _ "R_Char CHR ''('' # us @ [R_Char CHR '')'']"]) simp
  next
    case (2 t opt q es)
    obtain us where us: "q = us @ R_Char CHR '')'' # r" "g_ru_expr us es"
      using expr [OF 2(2)] by blast
    obtain vs where "ts = vs @ R_Char CHR ''('' # q" "g_sel vs t opt"
      using p_sel_sound [OF 2(1)] by blast
    then show ?thesis
      using us 2(3) g_ru_expr_g_ru_single.intros(4) [of vs t opt us es]
      by (intro exI [of _ "vs @ R_Char CHR ''('' # us @ [R_Char CHR '')'']"]) simp
  next
    case (3 name opt)
    then show ?thesis
      using p_use_expr_sound [OF 3(1)] g_ru_expr_g_ru_single.intros(3) by blast
  qed
  ultimately show ?case by blast
qed simp

lemma required_use_parsed: "parse_required_use ts = Some es \<longleftrightarrow> g_ru_program ts es"
proof
  assume run: "parse_required_use ts = Some es"
  show "g_ru_program ts es"
  proof (cases "ts = []")
    case True
    then show ?thesis using run g_ru_program.intros(2) by (simp add: parse_required_use_def)
  next
    case False
    then have "p_ru_expr (2 * length ts) ts = Some (es, [])"
      using run by (simp add: parse_required_use_def split: option.splits prod.splits list.splits)
    then show ?thesis
      using p_ru_sound [of "2 * length ts"] g_ru_program.intros(1) by fastforce
  qed
next
  assume "g_ru_program ts es"
  then show "parse_required_use ts = Some es"
  proof (cases rule: g_ru_program.cases)
    case 1
    then show ?thesis
      using p_ru_complete(1) [OF 1, of "2 * length ts" "[]"] ru_start(1) [OF 1] by (simp add: parse_required_use_def)
  qed (simp add: parse_required_use_def)
qed

section \<open>The actions\<close>

text \<open>The node that follows a chain replaces what follows the first node of it.\<close>

definition set_next :: "RequiredUse list \<Rightarrow> RequiredUse list \<Rightarrow> RequiredUse list" where
  "set_next self next = take 1 self @ next"

fun set_depend :: "RequiredUse \<Rightarrow> RequiredUse list \<Rightarrow> RequiredUse" where
  "set_depend (RequiredUse t i opt d) depend = RequiredUse t i opt depend"

fun ru_build :: "(nat \<Rightarrow> U64) \<Rightarrow> ru_expr \<Rightarrow> flag_store \<times> nat \<Rightarrow> (RequiredUse list \<times> flag_store \<times> nat) option"
  and ru_builds :: "(nat \<Rightarrow> U64) \<Rightarrow> ru_expr list \<Rightarrow> flag_store \<times> nat \<Rightarrow> (RequiredUse list \<times> flag_store \<times> nat) option" where
  "ru_build addr (U_Flag name opt) s =
     do { (p, x) \<leftarrow> use_build_required_use (fst s) (addr (snd s)) (Some name) opt; Some ([x], p, snd s + 1) }"
| "ru_build addr (U_Cond t opt es) s =
     do { (d, p, k) \<leftarrow> ru_builds addr es s;
          (p, x) \<leftarrow> use_build_required_use p (addr k) t opt;
          Some ([set_depend x d], p, k + 1) }"
| "ru_build addr (U_Group es) s = ru_builds addr es s"
| "ru_builds addr [] s = Some ([], s)"
| "ru_builds addr (e # es) s =
     do { (c, s) \<leftarrow> ru_build addr e s;
          if es = [] then Some (c, s)
          else do { (d, s) \<leftarrow> ru_builds addr es s; Some (set_next c d, s) } }"

text \<open>The chain without the state.\<close>

fun link :: "'a list list \<Rightarrow> 'a list" where
  "link [] = []"
| "link [c] = c"
| "link (c # cs) = take 1 c @ link cs"

fun ru_nodes :: "flag_store \<Rightarrow> ru_expr \<Rightarrow> RequiredUse list" where
  "ru_nodes p (U_Flag name opt) = [RequiredUse (Some name) (target_id p (Some name)) opt []]"
| "ru_nodes p (U_Cond t opt es) = [RequiredUse t (target_id p t) opt (link (map (ru_nodes p) es))]"
| "ru_nodes p (U_Group es) = link (map (ru_nodes p) es)"

fun ru_names :: "ru_expr \<Rightarrow> string option list" where
  "ru_names (U_Flag name opt) = [Some name]"
| "ru_names (U_Cond t opt es) = t # concat (map ru_names es)"
| "ru_names (U_Group es) = concat (map ru_names es)"

lemma ru_nodes_kept: "ids_kept p p' \<Longrightarrow> registered p (ru_names e) \<Longrightarrow> ru_nodes p' e = ru_nodes p e"
proof (induction e)
  case (U_Flag name opt)
  then show ?case using target_id_kept [of p p' "Some name"] by simp
next
  case (U_Cond t opt es)
  then have "registered p (ru_names e)" if "e \<in> set es" for e
    using that by (auto simp: registered_def)
  then have "map (ru_nodes p') es = map (ru_nodes p) es"
    using U_Cond by simp
  then show ?case using U_Cond target_id_kept [of p p' t] by (simp only: ru_nodes.simps) simp
next
  case (U_Group es)
  then have "registered p (ru_names e)" if "e \<in> set es" for e
    using that by (auto simp: registered_def)
  then have "map (ru_nodes p') es = map (ru_nodes p) es"
    using U_Group by simp
  then show ?case by (simp only: ru_nodes.simps)
qed

lemma ru_seq_kept:
  "ids_kept p p' \<Longrightarrow> registered p (concat (map ru_names es)) \<Longrightarrow> map (ru_nodes p') es = map (ru_nodes p) es"
  using ru_nodes_kept by (induction es) auto

definition ru_done :: "(nat \<Rightarrow> U64) \<Rightarrow> nat \<Rightarrow> ru_expr \<Rightarrow> bool" where
  "ru_done addr m e \<longleftrightarrow> (\<forall>n p k. flags_ready addr m (length (ru_names e) + n) p k \<longrightarrow>
     (\<exists>p'. ru_build addr e (p, k) = Some (ru_nodes p' e, p', k + length (ru_names e)) \<and> ids_kept p p'
        \<and> registered p' (ru_names e) \<and> flags_ready addr m n p' (k + length (ru_names e))))"

lemma ru_builds_nodes:
  assumes "\<And>e. e \<in> set es \<Longrightarrow> ru_done addr m e"
    and "flags_ready addr m (length (concat (map ru_names es)) + n) p k"
  shows "\<exists>p'. ru_builds addr es (p, k) = Some (link (map (ru_nodes p') es), p', k + length (concat (map ru_names es)))
    \<and> ids_kept p p' \<and> registered p' (concat (map ru_names es))
    \<and> flags_ready addr m n p' (k + length (concat (map ru_names es)))"
  using assms
proof (induction es arbitrary: p k)
  case (Cons e es)
  let ?u = "length (ru_names e)" and ?v = "length (concat (map ru_names es))"
  have "ru_done addr m e" and "flags_ready addr m (?u + (?v + n)) p k"
    using Cons.prems by (simp_all add: add.assoc)
  then obtain p1 where p1: "ru_build addr e (p, k) = Some (ru_nodes p1 e, p1, k + ?u)" "ids_kept p p1"
      "registered p1 (ru_names e)" "flags_ready addr m (?v + n) p1 (k + ?u)"
    unfolding ru_done_def by blast
  obtain p2 where p2: "ru_builds addr es (p1, k + ?u) = Some (link (map (ru_nodes p2) es), p2, k + ?u + ?v)"
      "ids_kept p1 p2" "registered p2 (concat (map ru_names es))" "flags_ready addr m n p2 (k + ?u + ?v)"
    using Cons.IH [OF _ p1(4)] Cons.prems(1) by auto
  show ?case
  proof (cases es)
    case Nil
    then show ?thesis using p1 by auto
  next
    case (Cons f fs)
    have "ru_builds addr (e # es) (p, k) = Some (set_next (ru_nodes p1 e) (link (map (ru_nodes p2) es)), p2, k + ?u + ?v)"
      using p1(1) p2(1) Cons by (simp del: ru_builds.simps(2) add: ru_builds.simps(2) [of addr e])
    moreover have "set_next (ru_nodes p1 e) (link (map (ru_nodes p2) es)) = link (map (ru_nodes p2) (e # es))"
      using Cons ru_nodes_kept [OF p2(2) p1(3)] by (simp add: set_next_def)
    ultimately show ?thesis
      using p1 p2 registered_kept [OF p2(2) p1(3)] ids_kept_trans [OF p1(2) p2(2)]
      by (intro exI [of _ p2]) (simp add: add.assoc del: ru_builds.simps)
  qed
qed simp

lemma ru_build_nodes: "ru_done addr m e"
proof (induction e)
  case (U_Flag name opt)
  have "\<exists>p'. ru_build addr (U_Flag name opt) (p, k) = Some (ru_nodes p' (U_Flag name opt), p', Suc k)
      \<and> ids_kept p p' \<and> registered p' [Some name] \<and> flags_ready addr m n p' (Suc k)"
    if ready: "flags_ready addr m (Suc n) p k" for n p k
  proof -
    obtain p1 where "use_get_global p (addr k) (Some name) = Some (p1, target_id p1 (Some name))"
        "\<forall>n. Some name = Some n \<longrightarrow> flag_id p1 n \<noteq> None" "ids_kept p p1" "flags_ready addr m n p1 (Suc k)"
      by (rule use_get_global_target [OF ready])
    then show ?thesis
      by (intro exI [of _ p1]) (simp add: use_build_required_use_def)
  qed
  then show ?case by (simp add: ru_done_def)
next
  case (U_Cond t opt es)
  let ?v = "length (concat (map ru_names es))"
  have "\<exists>p'. ru_build addr (U_Cond t opt es) (p, k) = Some (ru_nodes p' (U_Cond t opt es), p', k + ?v + 1)
      \<and> ids_kept p p' \<and> registered p' (ru_names (U_Cond t opt es)) \<and> flags_ready addr m n p' (k + ?v + 1)"
    if ready: "flags_ready addr m (?v + Suc n) p k" for n p k
  proof -
    obtain p1 where p1: "ru_builds addr es (p, k) = Some (link (map (ru_nodes p1) es), p1, k + ?v)" "ids_kept p p1"
        "registered p1 (concat (map ru_names es))" "flags_ready addr m (Suc n) p1 (k + ?v)"
      using ru_builds_nodes [OF U_Cond ready] by blast
    obtain p2 where p2: "use_get_global p1 (addr (k + ?v)) t = Some (p2, target_id p2 t)"
        "\<forall>name. t = Some name \<longrightarrow> flag_id p2 name \<noteq> None" "ids_kept p1 p2" "flags_ready addr m n p2 (Suc (k + ?v))"
      by (rule use_get_global_target [OF p1(4)])
    have "ru_build addr (U_Cond t opt es) (p, k) = Some ([RequiredUse t (target_id p2 t) opt (link (map (ru_nodes p1) es))], p2, k + ?v + 1)"
      using p1(1) p2(1) by (simp add: use_build_required_use_def)
    moreover have "ru_nodes p2 (U_Cond t opt es) = [RequiredUse t (target_id p2 t) opt (link (map (ru_nodes p1) es))]"
      by (simp only: ru_nodes.simps ru_seq_kept [OF p2(3) p1(3)])
    ultimately show ?thesis
      using p1 p2 registered_kept [OF p2(3) p1(3)] ids_kept_trans [OF p1(2) p2(3)]
      by (intro exI [of _ p2]) (simp del: ru_build.simps ru_nodes.simps)
  qed
  then show ?case by (simp add: ru_done_def del: ru_build.simps ru_nodes.simps)
next
  case (U_Group es)
  then show ?case
    using ru_builds_nodes [OF U_Group] by (simp add: ru_done_def)
qed

section \<open>What the chains keep\<close>

fun single :: "ru_expr \<Rightarrow> bool" where
  "single (U_Group [e]) = single e"
| "single (U_Group es) = False"
| "single e = True"

text \<open>No group of several elements is followed by anything.\<close>

fun lossless :: "ru_expr \<Rightarrow> bool" where
  "lossless (U_Flag name opt) = True"
| "lossless (U_Cond t opt es) = ((\<forall>e \<in> set es. lossless e) \<and> (\<forall>e \<in> set (butlast es). single e))"
| "lossless (U_Group es) = ((\<forall>e \<in> set es. lossless e) \<and> (\<forall>e \<in> set (butlast es). single e))"

fun ru_ok :: "ru_expr \<Rightarrow> bool" where
  "ru_ok (U_Flag name opt) = True"
| "ru_ok (U_Cond t opt es) = (es \<noteq> [] \<and> (\<forall>e \<in> set es. ru_ok e))"
| "ru_ok (U_Group es) = (es \<noteq> [] \<and> (\<forall>e \<in> set es. ru_ok e))"

fun node_names :: "RequiredUse \<Rightarrow> string option list" where
  "node_names (RequiredUse t i opt ds) = t # concat (map node_names ds)"

fun token_name :: "ru_token \<Rightarrow> string option list" where
  "token_name (R_Ident name) = [Some name]"
| "token_name (R_Select opt) = [None]"
| "token_name (R_Char c) = []"
| "token_name (R_Default d) = []"

abbreviation all_names :: "RequiredUse list \<Rightarrow> string option list" where
  "all_names c \<equiv> concat (map node_names c)"

lemma names_of_tokens:
  "g_ru_expr ts es \<Longrightarrow> concat (map ru_names es) = concat (map token_name ts) \<and> es \<noteq> [] \<and> (\<forall>e \<in> set es. ru_ok e)"
  "g_ru_single ts e \<Longrightarrow> ru_names e = concat (map token_name ts) \<and> ru_ok e"
proof (induction rule: g_ru_expr_g_ru_single.inducts)
  case (3 ts name opt)
  then show ?case by (auto elim: g_use_expr.cases)
next
  case (4 ts t opt us es)
  have "concat (map token_name ts) = [t]"
    using 4(1) by (auto elim!: g_sel.cases g_use_expr.cases)
  then show ?case using 4 by simp
qed simp_all

lemma link_length:
  "cs \<noteq> [] \<Longrightarrow> \<forall>c \<in> set cs. c \<noteq> [] \<Longrightarrow> link cs \<noteq> [] \<and> (length cs > 1 \<longrightarrow> length (link cs) > 1)"
proof (induction cs rule: link.induct)
  case (3 c d cs)
  then show ?case by (cases c) auto
qed simp_all

lemma ru_nodes_single:
  "ru_ok e \<Longrightarrow> ru_nodes p e \<noteq> [] \<and> (single e \<longleftrightarrow> length (ru_nodes p e) = 1)"
proof (induction e)
  case (U_Group es)
  then have ne: "\<forall>c \<in> set (map (ru_nodes p) es). c \<noteq> []" "es \<noteq> []"
    by auto
  show ?case
  proof (cases "length es > 1")
    case True
    then obtain e f fs where "es = e # f # fs" by (cases es; cases "tl es") auto
    then show ?thesis using link_length [OF _ ne(1)] ne(2) by auto
  next
    case False
    then obtain e where "es = [e]" using ne(2) by (cases es) auto
    then show ?thesis using U_Group by simp
  qed
qed auto

lemma names_nonempty: "node_names x \<noteq> []"
  by (cases x) simp

lemma take_loses:
  assumes "length c > 1"
  shows "length (all_names (take 1 c)) < length (all_names c)"
proof -
  obtain x y zs where "c = x # y # zs"
    using assms by (cases c; cases "tl c") auto
  then show ?thesis using names_nonempty [of y] by simp
qed

definition kept :: "flag_store \<Rightarrow> ru_expr \<Rightarrow> bool" where
  "kept p e \<longleftrightarrow> (if lossless e then all_names (ru_nodes p e) = ru_names e
     else length (all_names (ru_nodes p e)) < length (ru_names e))"

lemma seq_kept:
  assumes "\<And>e. e \<in> set es \<Longrightarrow> kept p e \<and> ru_ok e"
  shows "if (\<forall>e \<in> set es. lossless e) \<and> (\<forall>e \<in> set (butlast es). single e)
    then all_names (link (map (ru_nodes p) es)) = concat (map ru_names es)
    else length (all_names (link (map (ru_nodes p) es))) < length (concat (map ru_names es))"
  using assms
proof (induction es)
  case (Cons e es)
  have e: "kept p e" "ru_ok e" using Cons.prems by auto
  show ?case
  proof (cases es)
    case Nil
    then show ?thesis using e by (simp add: kept_def)
  next
    case (Cons f fs)
    let ?c = "ru_nodes p e" and ?d = "link (map (ru_nodes p) es)"
    have link: "link (map (ru_nodes p) (e # es)) = take 1 ?c @ ?d"
      using Cons by simp
    have tl: "if (\<forall>e \<in> set es. lossless e) \<and> (\<forall>e \<in> set (butlast es). single e)
      then all_names ?d = concat (map ru_names es) else length (all_names ?d) < length (concat (map ru_names es))"
      using Cons.IH Cons.prems by simp
    have hd: "if lossless e \<and> single e then all_names (take 1 ?c) = ru_names e
      else length (all_names (take 1 ?c)) < length (ru_names e)"
    proof (cases "single e")
      case True
      then have "take 1 ?c = ?c" using ru_nodes_single [OF e(2), of p] by simp
      then show ?thesis using e(1) True by (simp add: kept_def)
    next
      case False
      then have "length ?c > 1" using ru_nodes_single [OF e(2), of p] by (cases ?c) auto
      then show ?thesis
        using take_loses [of ?c] e(1) False by (auto simp: kept_def split: if_splits)
    qed
    have "butlast (e # es) = e # butlast es" using Cons by simp
    then show ?thesis
      using hd tl unfolding link by (auto split: if_splits)
  qed
qed simp

lemma ru_kept: "ru_ok e \<Longrightarrow> kept p e"
proof (induction e)
  case (U_Flag name opt)
  then show ?case by (simp add: kept_def)
next
  case (U_Cond t opt es)
  then show ?case using seq_kept [of es p] by (auto simp: kept_def split: if_splits)
next
  case (U_Group es)
  then show ?case using seq_kept [of es p] by (auto simp: kept_def split: if_splits)
qed

lemma chain_keeps_names:
  assumes "\<And>e. e \<in> set es \<Longrightarrow> ru_ok e"
  shows "all_names (link (map (ru_nodes p) es)) = concat (map ru_names es)
    \<longleftrightarrow> (\<forall>e \<in> set es. lossless e) \<and> (\<forall>e \<in> set (butlast es). single e)"
  using seq_kept [of es p] assms ru_kept by (metis less_irrefl)

text \<open>Parsing REQUIRED_USE registers every flag that is named and gives nodes whose ids are those
  of their flags. The nodes carry the names of the text in their order exactly if no group of
  several elements is followed by anything; otherwise nodes are lost.\<close>

theorem required_use_lossless:
  assumes "g_ru_program ts es" "flags_ready addr m (length (concat (map token_name ts))) p k"
  shows "\<exists>chain p' k'. ru_builds addr es (p, k) = Some (chain, p', k')
    \<and> chain = link (map (ru_nodes p') es) \<and> registered p' (concat (map token_name ts)) \<and> ids_kept p p'
    \<and> (concat (map node_names chain) = concat (map token_name ts) \<longleftrightarrow>
         (\<forall>e \<in> set es. lossless e) \<and> (\<forall>e \<in> set (butlast es). single e))"
proof -
  have names: "concat (map ru_names es) = concat (map token_name ts)" "\<And>e. e \<in> set es \<Longrightarrow> ru_ok e"
    using assms(1) names_of_tokens(1) [of ts es] by (auto elim!: g_ru_program.cases)
  obtain p' where p': "ru_builds addr es (p, k) = Some (link (map (ru_nodes p') es), p', k + length (concat (map ru_names es)))"
    "ids_kept p p'" "registered p' (concat (map ru_names es))"
    using ru_builds_nodes [where es = es and n = 0 and p = p and k = k and addr = addr and m = m, OF ru_build_nodes] assms(2) names(1)
    by auto
  have "all_names (link (map (ru_nodes p') es)) = concat (map token_name ts) \<longleftrightarrow>
      (\<forall>e \<in> set es. lossless e) \<and> (\<forall>e \<in> set (butlast es). single e)"
    using chain_keeps_names [of es p'] names by simp
  then show ?thesis
    using p' unfolding names(1) by blast
qed

lemma required_use_lossless_witness:
  "\<exists>chain p' k'. ru_builds spaced [U_Group [U_Flag ''a'' USE_OP_ENABLE, U_Flag ''b'' USE_OP_ENABLE], U_Flag ''c'' USE_OP_ENABLE]
      (empty_flags, 0) = Some (chain, p', k')
    \<and> concat (map node_names chain) \<noteq> [Some ''a'', Some ''b'', Some ''c'']"
proof -
  let ?ts = "[R_Char CHR ''('', R_Ident ''a'', R_Ident ''b'', R_Char CHR '')'', R_Ident ''c'']"
  let ?es = "[U_Group [U_Flag ''a'' USE_OP_ENABLE, U_Flag ''b'' USE_OP_ENABLE], U_Flag ''c'' USE_OP_ENABLE]"
  have "g_ru_program ?ts ?es"
    by (subst required_use_parsed [symmetric]) (simp add: parse_required_use_def numeral_eq_Suc)
  moreover have "flags_ready spaced 256 (length (concat (map token_name ?ts))) empty_flags 0"
    by (rule fresh_flags_ready) simp
  ultimately obtain chain p' k' where "ru_builds spaced ?es (empty_flags, 0) = Some (chain, p', k')"
    "concat (map node_names chain) = concat (map token_name ?ts) \<longleftrightarrow>
         (\<forall>e \<in> set ?es. lossless e) \<and> (\<forall>e \<in> set (butlast ?es). single e)"
    using required_use_lossless by blast
  then show ?thesis
    by (intro exI [of _ chain] exI [of _ p'] exI [of _ k']) (simp del: ru_builds.simps)
qed

end
