(* ===== verification/Construct.thy ===== *)
theory Construct
  imports Grammar ReqUse Portage
begin

text \<open>
  The constructors of the Python types of autogentoo/cportage: atom.c, dependency.c, use.c and
  ebuild.c. A constructor takes its arguments from Python, builds an object, often with a parser,
  and takes over its fields with one \<open>memcpy\<close> over the struct. Here a lexer is a
  parameter that gives the tokens of a text, which the theories DependText and RequiredUseText fill in;
  the parsers are those of the two grammars. The lemmas
  show that the copies stay inside the structs and reach every field that carries data, what text
  each constructor accepts, and what it does with the rest.
\<close>

section \<open>Structs in memory\<close>

text \<open>Name, size and alignment of the fields behind the header of a Python object, which has 16
  bytes; a field starts at the next multiple of its alignment.\<close>

type_synonym layout = "(string \<times> nat \<times> nat) list"

definition align :: "nat \<Rightarrow> nat \<Rightarrow> nat" where
  "align a n = (n + a - 1) div a * a"

fun offsets :: "nat \<Rightarrow> layout \<Rightarrow> (string \<times> nat \<times> nat) list" where
  "offsets n [] = []"
| "offsets n ((f, sz, a) # fs) = (f, align a n, sz) # offsets (align a n + sz) fs"

definition field_offsets :: "layout \<Rightarrow> (string \<times> nat \<times> nat) list" where
  "field_offsets l = offsets 16 l"

definition offset_of :: "layout \<Rightarrow> string \<Rightarrow> nat" where
  "offset_of l f = (case map_of (field_offsets l) f of Some (off, sz) \<Rightarrow> off | None \<Rightarrow> 0)"

text \<open>All the structs are aligned to 8 bytes.\<close>

definition size_of :: "layout \<Rightarrow> nat" where
  "size_of l = align 8 (foldl (\<lambda>m (f, off, sz). max m (off + sz)) 16 (field_offsets l))"

text \<open>The fields \<open>memcpy\<close> copies wholly, and those it touches.\<close>

definition copied :: "layout \<Rightarrow> nat \<Rightarrow> nat \<Rightarrow> string list" where
  "copied l start n = map fst (filter (\<lambda>(f, off, sz). start \<le> off \<and> off + sz \<le> start + n) (field_offsets l))"

definition touched :: "layout \<Rightarrow> nat \<Rightarrow> nat \<Rightarrow> string list" where
  "touched l start n = map fst (filter (\<lambda>(f, off, sz). start < off + sz \<and> off < start + n) (field_offsets l))"

definition Atom_layout :: layout where
  "Atom_layout = [(''id'', 8, 8), (''id_flag'', 4, 4), (''cached_hash'', 8, 8), (''category'', 8, 8), (''name'', 8, 8),
     (''key'', 8, 8), (''repository'', 8, 8), (''slot'', 8, 8), (''sub_slot'', 8, 8), (''slot_opts'', 4, 4),
     (''range'', 4, 4), (''blocks'', 4, 4), (''version'', 8, 8), (''useflags'', 8, 8)]"

definition Dependency_layout :: layout where
  "Dependency_layout = [(''use_operator'', 4, 4), (''use_condition'', 8, 8), (''atom'', 8, 8), (''children'', 8, 8),
     (''next'', 8, 8), (''PyIterator_self__'', 8, 8)]"

definition RequiredUse_layout :: layout where
  "RequiredUse_layout = [(''name'', 8, 8), (''global_flag'', 8, 8), (''option'', 4, 4), (''depend'', 8, 8),
     (''next'', 8, 8), (''PyIterator_self__'', 8, 8)]"

definition UseFlag_layout :: layout where
  "UseFlag_layout = [(''name'', 8, 8), (''state'', 1, 1)]"

text \<open>Where the constructors copy from, and how many bytes.\<close>

definition atom_copy :: "nat \<times> nat" where
  "atom_copy = (offset_of Atom_layout ''id'', size_of Atom_layout - offset_of Atom_layout ''id'')"

definition dependency_copy :: "nat \<times> nat" where
  "dependency_copy = (offset_of Dependency_layout ''use_operator'',
     size_of Dependency_layout - offset_of Dependency_layout ''use_operator'')"

definition required_use_copy :: "nat \<times> nat" where
  "required_use_copy = (offset_of RequiredUse_layout ''name'',
     size_of RequiredUse_layout - offset_of RequiredUse_layout ''global_flag'')"

lemmas layout_defs = Atom_layout_def Dependency_layout_def RequiredUse_layout_def UseFlag_layout_def
  atom_copy_def dependency_copy_def required_use_copy_def

lemmas layout_eval = layout_defs field_offsets_def offset_of_def size_of_def copied_def touched_def align_def

text \<open>The copies of the constructors stay inside the struct they write and the one they read,
  copy no field in part, and copy every field, but for the iterator of a required-use node, whose
  copy starts at the name and is as long as what lies behind the flag. The int that the format p
  writes to the state of a flag ends in the padding behind it.\<close>

theorem constructor_copies:
  "fst atom_copy + snd atom_copy \<le> size_of Atom_layout
    \<and> copied Atom_layout (fst atom_copy) (snd atom_copy) = map fst Atom_layout
    \<and> fst dependency_copy + snd dependency_copy \<le> size_of Dependency_layout
    \<and> copied Dependency_layout (fst dependency_copy) (snd dependency_copy) = map fst Dependency_layout
    \<and> fst required_use_copy + snd required_use_copy \<le> size_of RequiredUse_layout
    \<and> copied RequiredUse_layout (fst required_use_copy) (snd required_use_copy) = butlast (map fst RequiredUse_layout)
    \<and> touched RequiredUse_layout (fst required_use_copy) (snd required_use_copy) = butlast (map fst RequiredUse_layout)
    \<and> offset_of UseFlag_layout ''state'' + 4 \<le> size_of UseFlag_layout
    \<and> touched UseFlag_layout (offset_of UseFlag_layout ''state'') 4 = [''state'']"
  by (simp add: layout_eval)

section \<open>Arguments\<close>

datatype ctor_arg = A_Str string | A_None | A_Bool bool | A_Other

text \<open>The formats s, sp and zsss of \<open>PyArg_ParseTupleAndKeywords\<close>; None is a TypeError.\<close>

fun parse_s :: "ctor_arg list \<Rightarrow> string option" where
  "parse_s [A_Str s] = Some s"
| "parse_s _ = None"

fun parse_z :: "ctor_arg \<Rightarrow> string option option" where
  "parse_z (A_Str s) = Some (Some s)"
| "parse_z A_None = Some None"
| "parse_z _ = None"

fun parse_zsss :: "ctor_arg list \<Rightarrow> (string option \<times> string \<times> string \<times> string) option" where
  "parse_zsss [z, A_Str a, A_Str b, A_Str c] = map_option (\<lambda>z. (z, a, b, c)) (parse_z z)"
| "parse_zsss _ = None"

text \<open>The truth of an argument; an object of another type decides itself.\<close>

fun arg_true :: "bool \<Rightarrow> ctor_arg \<Rightarrow> bool" where
  "arg_true other (A_Str s) = (s \<noteq> [])"
| "arg_true other A_None = False"
| "arg_true other (A_Bool b) = b"
| "arg_true other A_Other = other"

text \<open>What Python raises for the result of a constructor: a failure without an exception is a
  SystemError.\<close>

definition raised :: "int \<times> py_exc option \<times> 'a \<Rightarrow> py_exc option" where
  "raised r = (case r of (code, exc, self) \<Rightarrow>
     if code = 0 then None else case exc of None \<Rightarrow> Some SystemError | Some e \<Rightarrow> Some e)"

section \<open>The constructors\<close>

text \<open>\<open>lexer\<close> gives the tokens of a text, None for a character that starts none. When the parser gives
  up, \<open>abort\<close> is what its actions have registered until then. The empty chain is NULL.\<close>

definition depend_parse ::
    "(string \<Rightarrow> token list option) \<Rightarrow> (string \<Rightarrow> flag_store \<times> nat \<Rightarrow> flag_store \<times> nat) \<Rightarrow> (nat \<Rightarrow> U64)
      \<Rightarrow> string \<Rightarrow> flag_store \<times> nat \<Rightarrow> (Dependency list \<times> flag_store \<times> nat) option" where
  "depend_parse lexer abort addr input s =
     (case lexer input \<bind> parse_depend of
        None \<Rightarrow> Some ([], abort input s)
      | Some es \<Rightarrow> build_exprs addr es s)"

text \<open>The atom of the first node; \<open>Py_INCREF\<close> reads through the pointer.\<close>

definition atom_parse ::
    "(string \<Rightarrow> token list option) \<Rightarrow> (string \<Rightarrow> flag_store \<times> nat \<Rightarrow> flag_store \<times> nat) \<Rightarrow> (nat \<Rightarrow> U64)
      \<Rightarrow> string \<Rightarrow> flag_store \<times> nat \<Rightarrow> (Atom option \<times> flag_store \<times> nat) option" where
  "atom_parse lexer abort addr input s =
     do { (out, s) \<leftarrow> depend_parse lexer abort addr input s;
          if out = [] then Some (None, s)
          else case dep_atom (hd out) of None \<Rightarrow> None | Some atom \<Rightarrow> Some (Some atom, s) }"

definition PyAtom_init ::
    "(string \<Rightarrow> token list option) \<Rightarrow> (string \<Rightarrow> flag_store \<times> nat \<Rightarrow> flag_store \<times> nat) \<Rightarrow> (nat \<Rightarrow> U64)
      \<Rightarrow> Atom \<Rightarrow> ctor_arg list \<Rightarrow> flag_store \<times> nat \<Rightarrow> ((int \<times> py_exc option \<times> Atom) \<times> flag_store \<times> nat) option" where
  "PyAtom_init lexer abort addr self args s =
     (case parse_s args of
        None \<Rightarrow> Some ((- 1, Some TypeError, self), s)
      | Some atom_string \<Rightarrow>
          do { (duped, s) \<leftarrow> atom_parse lexer abort addr atom_string s;
               case duped of None \<Rightarrow> Some ((- 1, None, self), s) | Some atom \<Rightarrow> Some ((0, None, atom), s) })"

text \<open>The chain behind \<open>self\<close> is the one behind the parsed node.\<close>

definition PyDependency_init ::
    "(string \<Rightarrow> token list option) \<Rightarrow> (string \<Rightarrow> flag_store \<times> nat \<Rightarrow> flag_store \<times> nat) \<Rightarrow> (nat \<Rightarrow> U64)
      \<Rightarrow> Dependency list \<Rightarrow> ctor_arg list \<Rightarrow> flag_store \<times> nat
      \<Rightarrow> ((int \<times> py_exc option \<times> Dependency list) \<times> flag_store \<times> nat) option" where
  "PyDependency_init lexer abort addr self args s =
     (case parse_s args of
        None \<Rightarrow> Some ((- 1, Some TypeError, self), s)
      | Some depend_string \<Rightarrow>
          do { (duped, s) \<leftarrow> depend_parse lexer abort addr depend_string s;
               if duped = [] then Some ((- 1, None, self), s) else Some ((0, None, duped), s) })"

definition required_use_parse ::
    "(string \<Rightarrow> ru_token list option) \<Rightarrow> (string \<Rightarrow> flag_store \<times> nat \<Rightarrow> flag_store \<times> nat) \<Rightarrow> (nat \<Rightarrow> U64)
      \<Rightarrow> string \<Rightarrow> flag_store \<times> nat \<Rightarrow> (RequiredUse list \<times> flag_store \<times> nat) option" where
  "required_use_parse lexer abort addr input s =
     (case lexer input \<bind> parse_required_use of
        None \<Rightarrow> Some ([], abort input s)
      | Some es \<Rightarrow> ru_builds addr es s)"

definition PyRequiredUse_new :: RequiredUse where
  "PyRequiredUse_new = RequiredUse None 0 USE_OP_DISABLE []"

definition PyRequiredUse_init ::
    "(string \<Rightarrow> ru_token list option) \<Rightarrow> (string \<Rightarrow> flag_store \<times> nat \<Rightarrow> flag_store \<times> nat) \<Rightarrow> (nat \<Rightarrow> U64)
      \<Rightarrow> RequiredUse list \<Rightarrow> ctor_arg list \<Rightarrow> flag_store \<times> nat
      \<Rightarrow> ((int \<times> py_exc option \<times> RequiredUse list) \<times> flag_store \<times> nat) option" where
  "PyRequiredUse_init lexer abort addr self args s =
     (case parse_s args of
        None \<Rightarrow> Some ((- 1, Some TypeError, self), s)
      | Some required_use_string \<Rightarrow>
          do { (duped, s) \<leftarrow> required_use_parse lexer abort addr required_use_string s;
               if duped = [] then Some ((- 1, Some RuntimeError, self), s) else Some ((0, None, duped), s) })"

definition PyAtomFlag_init :: "AtomFlag list \<Rightarrow> ctor_arg list \<Rightarrow> int \<times> py_exc option \<times> AtomFlag list" where
  "PyAtomFlag_init self args =
     (case parse_s args of
        None \<Rightarrow> (- 1, Some TypeError, self)
      | Some expr \<Rightarrow> (0, None, [atomflag_init (hd self) expr]))"

definition PyAtomVersion_init :: "AtomVersion list \<Rightarrow> ctor_arg list \<Rightarrow> int \<times> py_exc option \<times> AtomVersion list" where
  "PyAtomVersion_init self args =
     (case parse_s args of
        None \<Rightarrow> (- 1, Some TypeError, self)
      | Some input \<Rightarrow> (0, None, atom_version_init (hd self) (tl self) input))"

definition PyUseFlag_init :: "bool \<Rightarrow> UseFlag \<Rightarrow> ctor_arg list \<Rightarrow> int \<times> py_exc option \<times> UseFlag" where
  "PyUseFlag_init other self args =
     (case args of
        [A_Str name, state] \<Rightarrow>
          (0, None, self\<lparr>use_name := Some name,
             use_state_of := (if arg_true other state then USE_STATE_ENABLED else USE_STATE_DISABLED)\<rparr>)
      | _ \<Rightarrow> (- 1, Some TypeError, self))"

definition PyEbuild_init ::
    "(string \<Rightarrow> string option) \<Rightarrow> LUT option \<Rightarrow> Ebuild \<Rightarrow> ctor_arg list \<Rightarrow> (int \<times> py_exc option \<times> Ebuild) option" where
  "PyEbuild_init realpath global_packages self args =
     (case parse_zsss args of
        None \<Rightarrow> Some (- 1, Some TypeError, self)
      | Some (ebuild_repo, cache_repo, category, name_and_version) \<Rightarrow>
          ebuild_init realpath global_packages self ebuild_repo cache_repo category name_and_version)"

section \<open>What the constructors accept\<close>

lemma depend_parse_none:
  "lexer input = None \<or> (\<exists>ts. lexer input = Some ts \<and> (\<forall>es. \<not> g_program ts es)) \<Longrightarrow>
    depend_parse lexer abort addr input s = Some ([], abort input s)"
  using depend_program_parsed by (auto simp: depend_parse_def split: option.splits)

lemma depend_parse_nodes_rest:
  assumes "lexer input = Some ts" "g_program ts es" "flags_ready addr m (length ts + n) p k"
  obtains p' k' where "depend_parse lexer abort addr input (p, k) = Some (map (node_of p') es, p', k')"
    "ids_kept p p'" "registered p' (concat (map uses_of es))" "flags_ready addr m n p' k'"
proof -
  let ?u = "length (concat (map uses_of es))"
  have u: "?u \<le> length ts"
    using assms(2) uses_of_tokens(1) by (cases rule: g_program.cases) auto
  then have "flags_ready addr m (?u + (length ts - ?u + n)) p k"
    using assms(3) by simp
  then obtain p' where p': "build_exprs addr es (p, k) = Some (map (node_of p') es, p', k + ?u)" "ids_kept p p'"
      "registered p' (concat (map uses_of es))" "flags_ready addr m (length ts - ?u + n) p' (k + ?u)"
    using build_exprs_nodes [OF build_expr_nodes] by blast
  then show ?thesis
    using that assms(1,2) depend_program_parsed [of ts es] flags_ready_less [OF p'(4), of 0 n]
    by (simp add: depend_parse_def)
qed

lemma depend_parse_nodes:
  assumes "lexer input = Some ts" "g_program ts es" "flags_ready addr m (length ts) p k"
  obtains p' k' where "depend_parse lexer abort addr input (p, k) = Some (map (node_of p') es, p', k')"
    "ids_kept p p'" "registered p' (concat (map uses_of es))"
  using depend_parse_nodes_rest [where n = 0 and lexer = lexer and input = input and abort = abort, OF assms(1,2)] assms(3) that
  by (metis add.right_neutral)

text \<open>C24. What \<open>Atom(text)\<close> does is decided by the first expression of the text: an atom is taken,
  whatever follows it; a group or a condition makes the code count a reference through the NULL
  pointer; and a text without any expression, or with none the grammar knows, fails without an
  exception, which Python turns into a SystemError.\<close>

theorem atom_constructor_outcome:
  assumes "lexer input = Some ts" "flags_ready addr m (length ts) p k"
  shows "(\<forall>a es. g_program ts (E_Atom a # es) \<longrightarrow>
        (\<exists>s. PyAtom_init lexer abort addr self [A_Str input] (p, k) = Some ((0, None, a), s)))
    \<and> (\<forall>e es. g_program ts (e # es) \<and> (\<forall>a. e \<noteq> E_Atom a) \<longrightarrow>
        PyAtom_init lexer abort addr self [A_Str input] (p, k) = None)
    \<and> (ts = [] \<or> (\<forall>es. \<not> g_program ts es) \<longrightarrow>
        (\<exists>r s. PyAtom_init lexer abort addr self [A_Str input] (p, k) = Some (r, s) \<and> raised r = Some SystemError))"
proof (intro conjI allI impI)
  fix a es
  assume "g_program ts (E_Atom a # es)"
  then obtain p' k' where "depend_parse lexer abort addr input (p, k) = Some (map (node_of p') (E_Atom a # es), p', k')"
    using depend_parse_nodes [where lexer = lexer and input = input and abort = abort, OF assms(1) _ assms(2)] by blast
  then show "\<exists>s. PyAtom_init lexer abort addr self [A_Str input] (p, k) = Some ((0, None, a), s)"
    by (simp add: PyAtom_init_def atom_parse_def)
next
  fix e es
  assume e: "g_program ts (e # es) \<and> (\<forall>a. e \<noteq> E_Atom a)"
  then obtain p' k' where "depend_parse lexer abort addr input (p, k) = Some (map (node_of p') (e # es), p', k')"
    using depend_parse_nodes [where lexer = lexer and input = input and abort = abort, OF assms(1) _ assms(2)] by blast
  then show "PyAtom_init lexer abort addr self [A_Str input] (p, k) = None"
    using e by (cases e) (simp_all add: PyAtom_init_def atom_parse_def)
next
  assume "ts = [] \<or> (\<forall>es. \<not> g_program ts es)"
  then obtain s where "depend_parse lexer abort addr input (p, k) = Some ([], s)"
    using depend_parse_none [of lexer input abort addr "(p, k)"] assms(1)
    by (cases "ts = []") (auto simp: depend_parse_def parse_depend_def)
  then show "\<exists>r s. PyAtom_init lexer abort addr self [A_Str input] (p, k) = Some (r, s) \<and> raised r = Some SystemError"
    by (intro exI [of _ "(- 1, None, self)"] exI [of _ s]) (simp add: PyAtom_init_def atom_parse_def raised_def)
qed

lemma atom_constructor_outcome_witness:
  "PyAtom_init (\<lambda>_. Some [Tok CHR ''('', ATOM PyAtom_new, Tok CHR '')'']) (\<lambda>_ s. s) spaced PyAtom_new
    [A_Str ''( dev-libs/a )''] (empty_flags, 0) = None"
proof -
  have "g_program [Tok CHR ''('', ATOM PyAtom_new, Tok CHR '')'']
      [E_Group [E_Atom (PyAtom_new\<lparr>atom_range := ATOM_VERSION_ALL\<rparr>)]]"
    by (subst depend_program_parsed [symmetric])
      (simp add: parse_depend_def p_atom_def p_block_def PyAtom_new_def numeral_eq_Suc)
  moreover have "flags_ready spaced 256 (length [Tok CHR ''('', ATOM PyAtom_new, Tok CHR '')'']) empty_flags 0"
    by (rule fresh_flags_ready) simp
  ultimately show ?thesis
    using atom_constructor_outcome [of "\<lambda>_. Some [Tok CHR ''('', ATOM PyAtom_new, Tok CHR '')'']" "''( dev-libs/a )''"]
    by blast
qed

text \<open>Writing a dependency expression and constructing a \<open>Dependency\<close> from it gives the node of
  every expression in order: a loop over the object sees them all, every condition has the id of
  its flag, and the ids given before stay.\<close>

theorem dependency_constructed:
  assumes "lexer input = Some (concat (map expr_tokens es))" "es \<noteq> []" "\<forall>e \<in> set es. expr_ok e"
    and "flags_ready addr m (length (concat (map expr_tokens es))) p k"
  shows "\<exists>p' k'. PyDependency_init lexer abort addr self [A_Str input] (p, k)
      = Some ((0, None, map (node_of p') es), p', k')
    \<and> registered p' (concat (map uses_of es)) \<and> ids_kept p p'"
proof -
  have "g_program (concat (map expr_tokens es)) es"
    using exprs_tokens_derive [OF assms(2)] expr_tokens_derive assms(3) g_program.intros(1) by blast
  then obtain p' k' where "depend_parse lexer abort addr input (p, k) = Some (map (node_of p') es, p', k')"
      "ids_kept p p'" "registered p' (concat (map uses_of es))"
    using depend_parse_nodes [where lexer = lexer and input = input and abort = abort, OF assms(1) _ assms(4)] by blast
  then show ?thesis
    using assms(2) by (intro exI [of _ p'] exI [of _ k']) (simp add: PyDependency_init_def)
qed

lemma dependency_constructed_witness:
  "\<exists>p' k'. PyDependency_init (\<lambda>_. Some (concat (map expr_tokens
        [E_Use (Some ''ssl'') USE_OP_ENABLE [E_Atom (PyAtom_new\<lparr>atom_range := ATOM_VERSION_ALL\<rparr>)]])))
      (\<lambda>_ s. s) spaced [] [A_Str ''ssl? ( dev-libs/openssl )''] (empty_flags, 0)
    = Some ((0, None, [Dependency USE_OP_ENABLE (target_id p' (Some ''ssl'')) None
        [Dependency USE_OP_DISABLE 0 (Some (PyAtom_new\<lparr>atom_range := ATOM_VERSION_ALL\<rparr>)) []]]), p', k')
    \<and> flag_id p' ''ssl'' \<noteq> None"
proof -
  let ?es = "[E_Use (Some ''ssl'') USE_OP_ENABLE [E_Atom (PyAtom_new\<lparr>atom_range := ATOM_VERSION_ALL\<rparr>)]]"
  have "length (concat (map expr_tokens ?es)) \<le> 2 ^ 16" "\<forall>e \<in> set ?es. expr_ok e"
    by (simp_all add: atom_tokens_def range_tokens_def PyAtom_new_def)
  then have "\<exists>p' k'. PyDependency_init (\<lambda>_. Some (concat (map expr_tokens ?es))) (\<lambda>_ s. s) spaced []
      [A_Str ''ssl? ( dev-libs/openssl )''] (empty_flags, 0) = Some ((0, None, map (node_of p') ?es), p', k')
    \<and> registered p' (concat (map uses_of ?es)) \<and> ids_kept empty_flags p'"
    by (intro dependency_constructed [where m = 256]) (rule fresh_flags_ready | simp)+
  then show ?thesis by (simp del: expr_tokens.simps) blast
qed

lemma required_use_parse_nodes:
  assumes "lexer input = Some ts" "g_ru_program ts es" "flags_ready addr m (length ts + n) p k"
  obtains p' k' where "required_use_parse lexer abort addr input (p, k) = Some (link (map (ru_nodes p') es), p', k')"
    "ids_kept p p'" "registered p' (concat (map ru_names es))" "flags_ready addr m n p' k'"
    "es \<noteq> [] \<longrightarrow> link (map (ru_nodes p') es) \<noteq> []"
proof -
  let ?u = "length (concat (map ru_names es))"
  have names: "concat (map ru_names es) = concat (map token_name ts)" "\<And>e. e \<in> set es \<Longrightarrow> ru_ok e"
    using assms(2) names_of_tokens(1) [of ts es] by (auto elim!: g_ru_program.cases)
  have "length (concat (map token_name ts)) \<le> length ts"
  proof (induction ts)
    case (Cons t ts)
    then show ?case by (cases t) simp_all
  qed simp
  then have "flags_ready addr m (?u + (length ts - ?u + n)) p k"
    using assms(3) names(1) by simp
  then obtain p' where p': "ru_builds addr es (p, k) = Some (link (map (ru_nodes p') es), p', k + ?u)" "ids_kept p p'"
      "registered p' (concat (map ru_names es))" "flags_ready addr m (length ts - ?u + n) p' (k + ?u)"
    using ru_builds_nodes [OF ru_build_nodes] by blast
  have "es \<noteq> [] \<longrightarrow> link (map (ru_nodes p') es) \<noteq> []"
    using link_length [of "map (ru_nodes p') es"] names(2) ru_nodes_single by auto
  then show ?thesis
    using that p' assms(1,2) required_use_parsed [of ts es] flags_ready_less [OF p'(4), of 0 n]
    by (simp add: required_use_parse_def)
qed

text \<open>\<open>RequiredUse(text)\<close> raises a RuntimeError for a text that is empty or that the grammar does not
  know, and otherwise becomes the chain of nodes the actions link, with the ids of its flags.\<close>

theorem required_use_constructor_outcome:
  assumes "lexer input = Some ts" "flags_ready addr m (length ts) p k"
  shows "(\<forall>es. es \<noteq> [] \<and> g_ru_program ts es \<longrightarrow>
        (\<exists>p' k'. PyRequiredUse_init lexer abort addr self [A_Str input] (p, k)
           = Some ((0, None, link (map (ru_nodes p') es)), p', k') \<and> registered p' (concat (map token_name ts))))
    \<and> (ts = [] \<or> (\<forall>es. \<not> g_ru_program ts es) \<longrightarrow>
        (\<exists>s. PyRequiredUse_init lexer abort addr self [A_Str input] (p, k) = Some ((- 1, Some RuntimeError, self), s)))"
proof (intro conjI allI impI)
  fix es
  assume es: "es \<noteq> [] \<and> g_ru_program ts es"
  from es have names: "concat (map ru_names es) = concat (map token_name ts)"
    using names_of_tokens(1) [of ts es] by (auto elim!: g_ru_program.cases)
  obtain p' k' where "required_use_parse lexer abort addr input (p, k) = Some (link (map (ru_nodes p') es), p', k')"
      "registered p' (concat (map ru_names es))" "link (map (ru_nodes p') es) \<noteq> []"
    using required_use_parse_nodes [where n = 0 and lexer = lexer and input = input and abort = abort, OF assms(1)]
      es assms(2) by (metis add.right_neutral)
  then show "\<exists>p' k'. PyRequiredUse_init lexer abort addr self [A_Str input] (p, k)
      = Some ((0, None, link (map (ru_nodes p') es)), p', k') \<and> registered p' (concat (map token_name ts))"
    unfolding names by (intro exI [of _ p'] exI [of _ k']) (simp add: PyRequiredUse_init_def)
next
  assume "ts = [] \<or> (\<forall>es. \<not> g_ru_program ts es)"
  then have "parse_required_use ts = Some [] \<or> parse_required_use ts = None"
  proof
    assume "ts = []"
    then show ?thesis by (simp add: parse_required_use_def)
  next
    assume "\<forall>es. \<not> g_ru_program ts es"
    then show ?thesis using required_use_parsed [of ts] by (metis option.exhaust)
  qed
  then have "\<exists>s. required_use_parse lexer abort addr input (p, k) = Some ([], s)"
    using assms(1) by (elim disjE) (simp_all add: required_use_parse_def)
  then obtain s where "required_use_parse lexer abort addr input (p, k) = Some ([], s)" ..
  then show "\<exists>s. PyRequiredUse_init lexer abort addr self [A_Str input] (p, k) = Some ((- 1, Some RuntimeError, self), s)"
    by (simp add: PyRequiredUse_init_def)
qed

lemma required_use_constructor_outcome_witness:
  "\<exists>s. PyRequiredUse_init (\<lambda>_. Some []) (\<lambda>_ s. s) spaced [PyRequiredUse_new] [A_Str []] (empty_flags, 0)
    = Some ((- 1, Some RuntimeError, [PyRequiredUse_new]), s)"
  using required_use_constructor_outcome [of "\<lambda>_. Some []" "[]" "[]" spaced 256 empty_flags 0 "\<lambda>_ s. s" "[PyRequiredUse_new]"]
    fresh_flags_ready [of 0] by simp

text \<open>A flag is printed as the text it was made from.\<close>

lemma atom_flag_repr:
  "PyAtomFlag_init self [A_Str expr] = (0, None, [atomflag_init (hd self) expr])"
  "PyAtomFlag_repr (atomflag_init f expr) = Some (''AtomFlag<'' @ expr @ ''>'')"
  by (cases expr; simp add: PyAtomFlag_init_def PyAtomFlag_repr_def atomflag_init_def char_at_def)+

end
