(* ===== verification/Regex.thy ===== *)
theory Regex
  imports Prelude
begin

text \<open>
  The patterns of the lexers and how a rule is chosen. A pattern is a regular expression over
  characters, matched by derivatives. Which of several matching rules the generated lexer takes is
  up to the generator; the locale \<open>rule_choice\<close> says what both usual answers have in common, and
  both are interpretations of it. The lexer cuts off what a rule matches until the text is empty.
\<close>

section \<open>Patterns\<close>

datatype pattern =
  P_None | P_Empty | P_Class "char \<Rightarrow> bool" | P_Alt pattern pattern | P_Seq pattern pattern | P_Star pattern

definition P_Opt :: "pattern \<Rightarrow> pattern" where
  "P_Opt r = P_Alt r P_Empty"

definition P_Plus :: "pattern \<Rightarrow> pattern" where
  "P_Plus r = P_Seq r (P_Star r)"

definition P_Char :: "char \<Rightarrow> pattern" where
  "P_Char c = P_Class (\<lambda>d. d = c)"

fun P_Word :: "string \<Rightarrow> pattern" where
  "P_Word [] = P_Empty"
| "P_Word (c # s) = P_Seq (P_Char c) (P_Word s)"

fun nullable :: "pattern \<Rightarrow> bool" where
  "nullable P_None = False"
| "nullable P_Empty = True"
| "nullable (P_Class p) = False"
| "nullable (P_Alt r q) = (nullable r \<or> nullable q)"
| "nullable (P_Seq r q) = (nullable r \<and> nullable q)"
| "nullable (P_Star r) = True"

fun deriv :: "char \<Rightarrow> pattern \<Rightarrow> pattern" where
  "deriv c P_None = P_None"
| "deriv c P_Empty = P_None"
| "deriv c (P_Class p) = (if p c then P_Empty else P_None)"
| "deriv c (P_Alt r q) = P_Alt (deriv c r) (deriv c q)"
| "deriv c (P_Seq r q) =
     (if nullable r then P_Alt (P_Seq (deriv c r) q) (deriv c q) else P_Seq (deriv c r) q)"
| "deriv c (P_Star r) = P_Seq (deriv c r) (P_Star r)"

fun accepts :: "pattern \<Rightarrow> string \<Rightarrow> bool" where
  "accepts r [] = nullable r"
| "accepts r (c # s) = accepts (deriv c r) s"

lemma accepts_None [simp]: "\<not> accepts P_None s"
  by (induction s) simp_all

lemma accepts_Empty [simp]: "accepts P_Empty s \<longleftrightarrow> s = []"
  by (cases s) simp_all

lemma accepts_Class [simp]: "accepts (P_Class p) s \<longleftrightarrow> (\<exists>c. s = [c] \<and> p c)"
  by (cases s) auto

lemma accepts_Alt [simp]: "accepts (P_Alt r q) s \<longleftrightarrow> accepts r s \<or> accepts q s"
  by (induction s arbitrary: r q) simp_all

lemma accepts_Seq: "accepts (P_Seq r q) s \<longleftrightarrow> (\<exists>u v. s = u @ v \<and> accepts r u \<and> accepts q v)"
proof (induction s arbitrary: r q)
  case Nil
  then show ?case by auto
next
  case (Cons c s)
  have "(\<exists>u v. c # s = u @ v \<and> accepts r u \<and> accepts q v)
      \<longleftrightarrow> nullable r \<and> accepts q (c # s) \<or> (\<exists>u v. s = u @ v \<and> accepts r (c # u) \<and> accepts q v)"
    unfolding Cons_eq_append_conv by (auto simp del: accepts.simps(2) intro: exI [of _ "[]"])
  then show ?case using Cons by auto
qed

lemma accepts_SeqI: "accepts r s \<Longrightarrow> accepts q t \<Longrightarrow> accepts (P_Seq r q) (s @ t)"
  by (auto simp: accepts_Seq)

lemma accepts_Star_Nil [simp]: "accepts (P_Star r) []"
  by simp

lemma accepts_Star_Cons:
  "accepts (P_Star r) (c # s) \<longleftrightarrow> (\<exists>u v. s = u @ v \<and> accepts r (c # u) \<and> accepts (P_Star r) v)"
  by (simp add: accepts_Seq)

lemma accepts_Star_append: "accepts r u \<Longrightarrow> accepts (P_Star r) v \<Longrightarrow> accepts (P_Star r) (u @ v)"
  by (cases u) (auto simp: accepts_Star_Cons simp del: accepts.simps(2))

lemma accepts_Star_concat: "\<forall>x \<in> set xs. accepts r (f x) \<Longrightarrow> accepts (P_Star r) (concat (map f xs))"
  by (induction xs) (simp_all add: accepts_Star_append)

lemma accepts_Opt [simp]: "accepts (P_Opt r) s \<longleftrightarrow> s = [] \<or> accepts r s"
  by (auto simp: P_Opt_def)

lemma accepts_Char [simp]: "accepts (P_Char c) s \<longleftrightarrow> s = [c]"
  by (auto simp: P_Char_def)

lemma accepts_Word [simp]: "accepts (P_Word w) s \<longleftrightarrow> s = w"
  by (induction w arbitrary: s) (auto simp: accepts_Seq)

lemma accepts_Star_Class [simp]: "accepts (P_Star (P_Class p)) s \<longleftrightarrow> (\<forall>c \<in> set s. p c)"
proof (induction s)
  case (Cons c s)
  then show ?case by (auto simp: accepts_Star_Cons simp del: accepts.simps(2))
qed simp

text \<open>A class written as the list of its characters.\<close>

definition P_In :: "string \<Rightarrow> pattern" where
  "P_In cs = P_Class (\<lambda>c. c \<in> set cs)"

lemma accepts_Plus_Class [simp]: "accepts (P_Plus (P_Class p)) s \<longleftrightarrow> s \<noteq> [] \<and> (\<forall>c \<in> set s. p c)"
  by (cases s) (auto simp: P_Plus_def accepts_Seq)

lemma accepts_In [simp]:
  "accepts (P_In cs) s \<longleftrightarrow> (\<exists>c \<in> set cs. s = [c])"
  "accepts (P_Star (P_In cs)) s \<longleftrightarrow> set s \<subseteq> set cs"
  "accepts (P_Plus (P_In cs)) s \<longleftrightarrow> s \<noteq> [] \<and> set s \<subseteq> set cs"
  by (auto simp: P_In_def)

declare accepts.simps(2) [simp del]

section \<open>First characters and alphabets\<close>

text \<open>The characters a match can begin with, and those that can occur in one.\<close>

fun starts :: "pattern \<Rightarrow> char \<Rightarrow> bool" where
  "starts P_None c = False"
| "starts P_Empty c = False"
| "starts (P_Class p) c = p c"
| "starts (P_Alt r q) c = (starts r c \<or> starts q c)"
| "starts (P_Seq r q) c = (starts r c \<or> nullable r \<and> starts q c)"
| "starts (P_Star r) c = starts r c"

fun occurs :: "pattern \<Rightarrow> char \<Rightarrow> bool" where
  "occurs P_None c = False"
| "occurs P_Empty c = False"
| "occurs (P_Class p) c = p c"
| "occurs (P_Alt r q) c = (occurs r c \<or> occurs q c)"
| "occurs (P_Seq r q) c = (occurs r c \<or> occurs q c)"
| "occurs (P_Star r) c = occurs r c"

lemma starts_eval [simp]:
  "starts (P_Opt r) c = starts r c" "starts (P_Plus r) c = starts r c" "starts (P_Char d) c \<longleftrightarrow> c = d"
  "starts (P_In cs) c \<longleftrightarrow> c \<in> set cs" "starts (P_Word []) c = False" "starts (P_Word (d # w)) c \<longleftrightarrow> c = d"
  by (auto simp: P_Opt_def P_Plus_def P_Char_def P_In_def)

lemma occurs_eval [simp]:
  "occurs (P_Opt r) c = occurs r c" "occurs (P_Plus r) c = occurs r c" "occurs (P_Char d) c \<longleftrightarrow> c = d"
  "occurs (P_In cs) c \<longleftrightarrow> c \<in> set cs" "occurs (P_Word w) c \<longleftrightarrow> c \<in> set w"
  by (induction w) (auto simp: P_Opt_def P_Plus_def P_Char_def P_In_def)

lemma nullable_eval [simp]:
  "nullable (P_Opt r)" "nullable (P_Plus r) = nullable r" "\<not> nullable (P_Char d)"
  "\<not> nullable (P_In cs)" "nullable (P_Word w) \<longleftrightarrow> w = []"
  by (simp_all add: P_Opt_def P_Plus_def P_Char_def P_In_def) (cases w; simp add: P_Char_def)

declare P_Word.simps [simp del]

lemma accepts_nullable: "accepts r [] \<longleftrightarrow> nullable r"
  by simp

lemma starts_deriv: "accepts (deriv c r) s \<Longrightarrow> starts r c"
proof (induction r arbitrary: s)
  case (P_Seq r q)
  then show ?case by (auto simp: accepts_Seq split: if_splits)
next
  case (P_Star r)
  then show ?case by (auto simp: accepts_Seq)
qed (auto split: if_splits)

lemma accepts_starts: "accepts r s \<Longrightarrow> s \<noteq> [] \<Longrightarrow> starts r (hd s)"
  using starts_deriv by (cases s) (auto simp: accepts.simps(2))

lemma accepts_occurs: "accepts r s \<Longrightarrow> c \<in> set s \<Longrightarrow> occurs r c"
proof (induction r arbitrary: s)
  case (P_Seq r q)
  then obtain u v where "s = u @ v" "accepts r u" "accepts q v"
    by (auto simp: accepts_Seq)
  then show ?case using P_Seq.IH [of u] P_Seq.IH(2) [of v] P_Seq.prems(2) by auto
next
  case (P_Star r)
  from P_Star.prems show ?case
  proof (induction s rule: length_induct)
    case (1 s)
    show ?case
    proof (cases s)
      case Nil
      then show ?thesis using 1(3) by simp
    next
      case (Cons d s')
      then obtain u v where uv: "s' = u @ v" "accepts r (d # u)" "accepts (P_Star r) v"
        using 1(2) by (auto simp: accepts_Star_Cons simp del: accepts.simps(2))
      show ?thesis
      proof (cases "c \<in> set (d # u)")
        case True
        then show ?thesis using P_Star.IH [OF uv(2)] by simp
      next
        case False
        then have "c \<in> set v" "length v < length s"
          using 1(3) uv(1) Cons by auto
        then show ?thesis using 1(1) uv(3) by blast
      qed
    qed
  qed
qed auto

text \<open>The lengths of the prefixes a pattern matches, shortest first, without the empty one.\<close>

definition prefix_matches :: "pattern \<Rightarrow> string \<Rightarrow> nat list" where
  "prefix_matches r s = [n \<leftarrow> [1..<Suc (length s)]. accepts r (take n s)]"

lemma in_prefix_matches:
  "n \<in> set (prefix_matches r s) \<longleftrightarrow> 0 < n \<and> n \<le> length s \<and> accepts r (take n s)"
  by (auto simp: prefix_matches_def)

lemma prefix_matches_starts: "n \<in> set (prefix_matches r s) \<Longrightarrow> starts r (hd s)"
  using accepts_starts [of r "take n s"] by (cases s; cases n) (auto simp: in_prefix_matches)

lemma no_start: "\<not> starts r (hd s) \<Longrightarrow> prefix_matches r s = []"
  using prefix_matches_starts [of _ r s] by (cases "prefix_matches r s") auto

lemma word_needs_all: "take (length w) s \<noteq> w \<Longrightarrow> prefix_matches (P_Word w) s = []"
  by (auto simp: prefix_matches_def filter_empty_conv)

lemma word_matches: "m \<in> set (prefix_matches (P_Word w) s) \<Longrightarrow> m = length w"
  by (auto simp: in_prefix_matches dest: arg_cong [where f = length])

lemma class_matches_one: "m \<in> set (prefix_matches (P_Class p) s) \<Longrightarrow> m = 1"
  by (cases s; cases m) (auto simp: in_prefix_matches)

text \<open>A match that no character of what follows can continue.\<close>

lemma no_longer_match:
  assumes "u = [] \<or> \<not> occurs r (hd u)" "n \<in> set (prefix_matches r (t @ u))"
  shows "n \<le> length t"
proof (rule ccontr)
  assume n: "\<not> n \<le> length t"
  then have "u \<noteq> []" "hd u \<in> set (take n (t @ u))"
    using assms(2) by (cases u; cases "n - length t"; auto simp: in_prefix_matches)+
  then show False
    using assms accepts_occurs [of r "take n (t @ u)" "hd u"] by (auto simp: in_prefix_matches)
qed

text \<open>A match that ends with the one character that ends every match.\<close>

lemma no_match_beyond_end:
  assumes "\<not> occurs r c" "accepts (P_Seq r (P_Char c)) t" "n \<in> set (prefix_matches (P_Seq r (P_Char c)) (t @ u))"
  shows "n = length t"
proof -
  have ends: "\<exists>w. s = w @ [c] \<and> c \<notin> set w" if "accepts (P_Seq r (P_Char c)) s" for s
    using that assms(1) accepts_occurs [of r _ c] by (auto simp: accepts_Seq)
  obtain w where w: "t = w @ [c]" "c \<notin> set w" using ends [OF assms(2)] by blast
  obtain v where v: "take n (t @ u) = v @ [c]" "c \<notin> set v" "n \<le> length (t @ u)"
    using ends assms(3) by (fastforce simp: in_prefix_matches)
  have "v @ c # drop n (t @ u) = w @ c # u"
    using v(1) w(1) append_take_drop_id [of n "t @ u"] by simp
  then have "v = w" using v(2) w(2) by (auto simp: append_eq_append_conv2 append_eq_Cons_conv Cons_eq_append_conv)
  moreover have "length (take n (t @ u)) = n" using v(3) by simp
  ultimately show ?thesis using v(1) w(1) by (metis length_append_singleton)
qed

text \<open>No match reaches beyond a character that occurs in none.\<close>

lemma no_match_before:
  assumes "\<not> occurs r x" "s = v @ x # u" "\<And>w. accepts r w \<Longrightarrow> c \<in> set w" "c \<notin> set v"
  shows "prefix_matches r s = []"
proof -
  have False if "n \<in> set (prefix_matches r s)" for n
  proof -
    have n: "accepts r (take n s)" using that by (simp add: in_prefix_matches)
    have "n \<le> length v"
    proof (rule ccontr)
      assume "\<not> n \<le> length v"
      then have "x \<in> set (take n s)" using assms(2) by (cases "n - length v") auto
      then show False using accepts_occurs n assms(1) by blast
    qed
    then have "set (take n s) \<subseteq> set v" using assms(2) by (auto dest: in_set_takeD)
    then show False using assms(3) [OF n] assms(4) by blast
  qed
  then show ?thesis by (cases "prefix_matches r s") auto
qed

section \<open>The choice of a rule\<close>

text \<open>
  \<open>pick rs s\<close> is the number of the rule taken on the text \<open>s\<close> and the length of the match. A rule
  matches as much as it can, and a rule is passed over only for one that matches more.
\<close>

locale rule_choice =
  fixes pick :: "pattern list \<Rightarrow> string \<Rightarrow> (nat \<times> nat) option"
  assumes pick_match: "pick rs s = Some (i, n) \<Longrightarrow> i < length rs \<and> n \<in> set (prefix_matches (rs ! i) s)"
    and pick_greedy: "pick rs s = Some (i, n) \<Longrightarrow> m \<in> set (prefix_matches (rs ! i) s) \<Longrightarrow> m \<le> n"
    and pick_order: "pick rs s = Some (i, n) \<Longrightarrow> j < i \<Longrightarrow> m \<in> set (prefix_matches (rs ! j) s) \<Longrightarrow> m < n"
    and pick_none: "pick rs s = None \<Longrightarrow> j < length rs \<Longrightarrow> prefix_matches (rs ! j) s = []"
begin

lemma pick_only:
  assumes "i < length rs" "n \<in> set (prefix_matches (rs ! i) s)"
    and "\<forall>m \<in> set (prefix_matches (rs ! i) s). m \<le> n"
    and "\<forall>j < i. prefix_matches (rs ! j) s = []"
    and "\<forall>j < length rs. i < j \<longrightarrow> (\<forall>m \<in> set (prefix_matches (rs ! j) s). m \<le> n)"
  shows "pick rs s = Some (i, n)"
proof (cases "pick rs s")
  case None
  then show ?thesis using pick_none [OF None assms(1)] assms(2) by simp
next
  case (Some p)
  obtain j m where p: "p = (j, m)" by (cases p)
  have m: "j < length rs" "m \<in> set (prefix_matches (rs ! j) s)"
    using pick_match Some p by blast+
  consider "j < i" | "j = i" | "i < j" by linarith
  then show ?thesis
  proof cases
    case 1
    then show ?thesis using assms(4) m(2) by simp
  next
    case 2
    then have "m = n"
      using assms(2,3) m(2) pick_greedy [of rs s j m n] Some p by (simp add: le_antisym)
    then show ?thesis using 2 Some p by simp
  next
    case 3
    then have "n < m"
      using pick_order [of rs s j m i n] Some p assms(2) by simp
    then show ?thesis using assms(5) m 3 by fastforce
  qed
qed

lemma pick_stuck: "\<forall>j < length rs. prefix_matches (rs ! j) s = [] \<Longrightarrow> pick rs s = None"
  using pick_match [of rs s] by (cases "pick rs s") auto

end

text \<open>The first rule that matches at all, and the rule with the longest match, the first of those.\<close>

fun first_rule :: "pattern list \<Rightarrow> string \<Rightarrow> (nat \<times> nat) option" where
  "first_rule [] s = None"
| "first_rule (r # rs) s =
     (if prefix_matches r s \<noteq> [] then Some (0, last (prefix_matches r s))
      else map_option (\<lambda>(i, n). (Suc i, n)) (first_rule rs s))"

fun longest_rule :: "pattern list \<Rightarrow> string \<Rightarrow> (nat \<times> nat) option" where
  "longest_rule [] s = None"
| "longest_rule (r # rs) s =
     (case longest_rule rs s of
        None \<Rightarrow> if prefix_matches r s \<noteq> [] then Some (0, last (prefix_matches r s)) else None
      | Some (i, n) \<Rightarrow> if prefix_matches r s \<noteq> [] \<and> n \<le> last (prefix_matches r s)
                      then Some (0, last (prefix_matches r s)) else Some (Suc i, n))"

lemma last_prefix_matches:
  assumes "m \<in> set (prefix_matches r s)"
  shows "m \<le> last (prefix_matches r s)" "last (prefix_matches r s) \<in> set (prefix_matches r s)"
proof -
  have sorted: "sorted (prefix_matches r s)"
    unfolding prefix_matches_def by (intro sorted_wrt_filter sorted_upt)
  obtain k where k: "k < length (prefix_matches r s)" "m = prefix_matches r s ! k"
    using assms by (auto simp: in_set_conv_nth)
  moreover have "last (prefix_matches r s) = prefix_matches r s ! (length (prefix_matches r s) - 1)"
    using k(1) by (intro last_conv_nth) auto
  ultimately show "m \<le> last (prefix_matches r s)"
    using sorted_nth_mono [OF sorted, of k "length (prefix_matches r s) - 1"] by simp
  show "last (prefix_matches r s) \<in> set (prefix_matches r s)"
    using assms by (intro last_in_set) auto
qed

lemma first_rule_Some:
  assumes "first_rule rs s = Some (i, n)"
  shows "i < length rs \<and> n \<in> set (prefix_matches (rs ! i) s) \<and> (\<forall>m \<in> set (prefix_matches (rs ! i) s). m \<le> n)
    \<and> (\<forall>j < i. prefix_matches (rs ! j) s = [])"
  using assms
proof (induction rs arbitrary: i)
  case (Cons r rs)
  show ?case
  proof (cases "prefix_matches r s = []")
    case True
    then obtain k where k: "i = Suc k" "first_rule rs s = Some (k, n)"
      using Cons.prems by auto
    then show ?thesis
      using Cons.IH [OF k(2)] True by (auto simp: nth_Cons split: nat.splits)
  next
    case False
    then show ?thesis
      using Cons.prems last_prefix_matches by auto
  qed
qed simp

lemma first_rule_None: "first_rule rs s = None \<Longrightarrow> j < length rs \<Longrightarrow> prefix_matches (rs ! j) s = []"
proof (induction rs arbitrary: j)
  case (Cons r rs)
  then show ?case by (cases j) (auto split: if_splits)
qed simp

interpretation first_choice: rule_choice first_rule
proof
  fix rs s i n j m
  assume "first_rule rs s = Some (i, n)" "j < i" "m \<in> set (prefix_matches (rs ! j) s)"
  then show "m < n" using first_rule_Some [of rs s i n] by simp
next
  fix rs s i n
  assume p: "first_rule rs s = Some (i, n)"
  show "i < length rs \<and> n \<in> set (prefix_matches (rs ! i) s)"
    using first_rule_Some [OF p] by blast
  show "m \<le> n" if "m \<in> set (prefix_matches (rs ! i) s)" for m
    using first_rule_Some [OF p] that by blast
qed (rule first_rule_None)

lemma longest_rule_None: "longest_rule rs s = None \<Longrightarrow> j < length rs \<Longrightarrow> prefix_matches (rs ! j) s = []"
proof (induction rs arbitrary: j)
  case (Cons r rs)
  then show ?case by (cases j) (auto split: option.splits if_splits)
qed simp

lemma longest_rule_Some:
  assumes "longest_rule rs s = Some (i, n)"
  shows "i < length rs \<and> n \<in> set (prefix_matches (rs ! i) s)
    \<and> (\<forall>j < length rs. \<forall>m \<in> set (prefix_matches (rs ! j) s). m \<le> n \<and> (j < i \<longrightarrow> m < n))"
  using assms
proof (induction rs arbitrary: i n)
  case (Cons r rs)
  show ?case
  proof (cases "longest_rule rs s")
    case None
    then show ?thesis
      using longest_rule_None [OF None] Cons.prems last_prefix_matches
      by (auto simp: nth_Cons split: if_splits nat.splits)
  next
    case (Some p)
    obtain k m where p: "p = (k, m)" by (cases p)
    note ih = Cons.IH [OF Some [unfolded p]]
    show ?thesis
    proof (cases "prefix_matches r s \<noteq> [] \<and> m \<le> last (prefix_matches r s)")
      case True
      then have "i = 0" "n = last (prefix_matches r s)" using Cons.prems Some p by auto
      then show ?thesis
        using ih True last_prefix_matches [of _ r s]
        by (auto simp: less_Suc_eq_0_disj) (meson le_trans)
    next
      case False
      then have "i = Suc k" "n = m" using Cons.prems Some p by auto
      moreover have "x < m" if "x \<in> set (prefix_matches r s)" for x
        using False that last_prefix_matches(1) [OF that] by fastforce
      moreover have "x \<le> m \<and> (j < Suc k \<longrightarrow> x < m)"
        if "j < length (r # rs)" "x \<in> set (prefix_matches ((r # rs) ! j) s)" for j x
        using that ih \<open>\<And>x. x \<in> set (prefix_matches r s) \<Longrightarrow> x < m\<close> by (cases j) force+
      ultimately show ?thesis
        using ih by simp
    qed
  qed
qed simp

interpretation longest_choice: rule_choice longest_rule
proof
  fix rs s i n
  assume p: "longest_rule rs s = Some (i, n)"
  show "i < length rs \<and> n \<in> set (prefix_matches (rs ! i) s)"
    using longest_rule_Some [OF p] by blast
  show "m \<le> n" if "m \<in> set (prefix_matches (rs ! i) s)" for m
    using longest_rule_Some [OF p] that by blast
  show "m < n" if "j < i" "m \<in> set (prefix_matches (rs ! j) s)" for j m
    using longest_rule_Some [OF p] that by (metis less_trans)
qed (rule longest_rule_None)

section \<open>The lexer\<close>

text \<open>A rule is a pattern and an action on the matched text: None is undefined behaviour, \<open>Some None\<close>
  skips the text, \<open>Some (Some t)\<close> returns a token. A text no rule matches is an error. A match of
  length 0 would not advance; \<open>rule_choice\<close> excludes it.\<close>

type_synonym 'a lex_rule = "pattern \<times> (string \<Rightarrow> 'a option option)"

datatype 'a lexed = Lexed "'a list" | Lex_Error | Lex_Crash

fun lexed_prepend :: "'a list \<Rightarrow> 'a lexed \<Rightarrow> 'a lexed" where
  "lexed_prepend us (Lexed ts) = Lexed (us @ ts)"
| "lexed_prepend us x = x"

function run_lexer :: "(pattern list \<Rightarrow> string \<Rightarrow> (nat \<times> nat) option) \<Rightarrow> 'a lex_rule list \<Rightarrow> string \<Rightarrow> 'a lexed" where
  "run_lexer pick rules s =
     (if s = [] then Lexed []
      else case pick (map fst rules) s of
          None \<Rightarrow> Lex_Error
        | Some (i, n) \<Rightarrow>
            if n = 0 then Lex_Error
            else case snd (rules ! i) (take n s) of
                None \<Rightarrow> Lex_Crash
              | Some None \<Rightarrow> run_lexer pick rules (drop n s)
              | Some (Some t) \<Rightarrow> lexed_prepend [t] (run_lexer pick rules (drop n s)))"
  by pat_completeness auto
termination
  by (relation "measure (\<lambda>(pick, rules, s). length s)") auto

declare run_lexer.simps [simp del]

lemma run_lexer_Nil [simp]: "run_lexer pick rules [] = Lexed []"
  by (simp add: run_lexer.simps)

lemma lexed_prepend_append [simp]:
  "lexed_prepend us (lexed_prepend vs x) = lexed_prepend (us @ vs) x" "lexed_prepend [] x = x"
  by (cases x; simp)+

text \<open>The next token of a text \<open>t @ u\<close>.\<close>

definition takes :: "pattern list \<Rightarrow> string \<Rightarrow> string \<Rightarrow> nat \<Rightarrow> bool" where
  "takes rs t u i \<longleftrightarrow> t \<noteq> [] \<and> i < length rs \<and> accepts (rs ! i) t
     \<and> (\<forall>j < i. prefix_matches (rs ! j) (t @ u) = [])
     \<and> (\<forall>j < length rs. i \<le> j \<longrightarrow> (\<forall>m \<in> set (prefix_matches (rs ! j) (t @ u)). m \<le> length t))"

lemma takesI:
  assumes "i < length rs" "t \<noteq> []" "accepts (rs ! i) t"
    and "\<forall>q \<in> set (take i rs). prefix_matches q (t @ u) = []"
    and "\<forall>q \<in> set (drop i rs). \<forall>m \<in> set (prefix_matches q (t @ u)). m \<le> length t"
  shows "takes rs t u i"
proof -
  have "rs ! j \<in> set (take i rs)" if "j < i" for j
    using that assms(1) by (auto simp: in_set_conv_nth)
  moreover have "rs ! j \<in> set (drop i rs)" if "j < length rs" "i \<le> j" for j
    using that by (auto simp: in_set_conv_nth intro!: exI [of _ "j - i"])
  ultimately show ?thesis
    unfolding takes_def using assms by blast
qed

lemma takes_pick:
  assumes "rule_choice pick" "takes rs t u i"
  shows "pick rs (t @ u) = Some (i, length t)"
proof -
  have "length t \<in> set (prefix_matches (rs ! i) (t @ u))"
    using assms(2) by (simp add: takes_def in_prefix_matches)
  then show ?thesis
    using assms(2) by (intro rule_choice.pick_only [OF assms(1)]) (auto simp: takes_def)
qed

lemma run_lexer_step:
  assumes "rule_choice pick" "takes (map fst rules) t u i"
  shows "run_lexer pick rules (t @ u) =
    (case snd (rules ! i) t of None \<Rightarrow> Lex_Crash
     | Some None \<Rightarrow> run_lexer pick rules u
     | Some (Some x) \<Rightarrow> lexed_prepend [x] (run_lexer pick rules u))"
  using takes_pick [OF assms] assms(2)
  by (subst run_lexer.simps) (simp add: takes_def cong: option.case_cong)

lemma run_lexer_stuck:
  assumes "rule_choice pick" "s \<noteq> []" "\<forall>r \<in> set rules. \<not> starts (fst r) (hd s)"
  shows "run_lexer pick rules s = Lex_Error"
proof -
  have "prefix_matches (map fst rules ! j) s = []" if "j < length (map fst rules)" for j
  proof -
    have "rules ! j \<in> set rules" "map fst rules ! j = fst (rules ! j)" using that by simp_all
    then have "\<not> starts (map fst rules ! j) (hd s)" using assms(3) by simp
    then show ?thesis
      using prefix_matches_starts [of _ "map fst rules ! j" s] by (metis list.set_intros(1) neq_Nil_conv)
  qed
  then have "pick (map fst rules) s = None"
    using rule_choice.pick_stuck [OF assms(1)] by blast
  then show ?thesis using assms(2) by (subst run_lexer.simps) simp
qed

lemma run_lexer_token:
  assumes "rule_choice pick" "takes (map fst rules) t u i" "snd (rules ! i) t = Some (Some x)"
  shows "run_lexer pick rules (t @ u) = lexed_prepend [x] (run_lexer pick rules u)"
  using run_lexer_step [OF assms(1,2)] assms(3) by simp

lemma run_lexer_length: "run_lexer pick rules s = Lexed ts \<Longrightarrow> length ts \<le> length s"
proof (induction pick rules s arbitrary: ts rule: run_lexer.induct)
  case (1 pick rules s)
  show ?case
  proof (cases "s = []")
    case True
    then show ?thesis using 1(3) by simp
  next
    case False
    then obtain i n where p: "pick (map fst rules) s = Some (i, n)" "n \<noteq> 0"
      using 1(3) by (subst (asm) run_lexer.simps) (auto split: option.splits if_splits)
    then obtain x where x: "snd (rules ! i) (take n s) = Some x"
      using 1(3) False by (subst (asm) run_lexer.simps) (auto split: option.splits)
    have less: "length (drop n s) < length s" using False p(2) by (cases s; cases n) simp_all
    show ?thesis
    proof (cases x)
      case None
      then have "run_lexer pick rules (drop n s) = Lexed ts"
        using 1(3) False p x by (subst (asm) run_lexer.simps) simp
      then have "length ts \<le> length (drop n s)" using 1(1) [OF False p(1) refl p(2)] x None by simp
      then show ?thesis using less by simp
    next
      case (Some t)
      then have "lexed_prepend [t] (run_lexer pick rules (drop n s)) = Lexed ts"
        using 1(3) False p x by (subst (asm) run_lexer.simps) simp
      then obtain us where us: "run_lexer pick rules (drop n s) = Lexed us" "ts = t # us"
        by (cases "run_lexer pick rules (drop n s)") auto
      then have "length us \<le> length (drop n s)" using 1(2) [OF False p(1) refl p(2)] x Some by simp
      then show ?thesis using us(2) less by simp
    qed
  qed
qed

text \<open>A constructor on a text: the tokens the lexer gives, None for its error; its undefined
  behaviour is that of the constructor.\<close>

definition on_tokens :: "'a lexed \<Rightarrow> ('a list option \<Rightarrow> 'b option) \<Rightarrow> 'b option" where
  "on_tokens lexed f = (case lexed of Lexed ts \<Rightarrow> f (Some ts) | Lex_Error \<Rightarrow> f None | Lex_Crash \<Rightarrow> None)"

end
