(* ===== verification/DependLexer.thy ===== *)
theory DependLexer
  imports Construct Regex
begin

text \<open>
  The lexer of autogentoo/cportage/depend.y: its macros, its rules in order and their actions. The
  lemmas say which rule takes each kind of token from the front of a text, for every choice of rules
  that \<open>rule_choice\<close> allows.
\<close>

section \<open>The macros\<close>

definition letter :: string where
  "letter = ''ABCDEFGHIJKLMNOPQRSTUVWXYZabcdefghijklmnopqrstuvwxyz''"

definition digit :: string where
  "digit = ''0123456789''"

definition pat_version_suf :: pattern where
  "pat_version_suf =
     P_Seq (P_Alt (P_Word ''_alpha'') (P_Alt (P_Word ''_beta'') (P_Alt (P_Word ''_pre'')
       (P_Alt (P_Word ''_rc'') (P_Word ''_p'')))))
       (P_Star (P_In digit))"

definition pat_revision :: pattern where
  "pat_revision = P_Seq (P_Word ''-r'') (P_Plus (P_In digit))"

definition pat_version :: pattern where
  "pat_version =
     P_Seq (P_Plus (P_In digit)) (P_Seq (P_Star (P_Seq (P_Char CHR ''.'') (P_Plus (P_In digit))))
       (P_Seq (P_Opt (P_In letter)) (P_Seq (P_Star pat_version_suf) (P_Opt pat_revision))))"

definition pat_ident_word :: pattern where
  "pat_ident_word = P_Seq (P_In (letter @ ''_'' @ digit)) (P_Star (P_In (letter @ digit @ ''+_'')))"

definition pat_identifier :: pattern where
  "pat_identifier = P_Seq pat_ident_word (P_Star (P_Seq (P_Char CHR ''-'') pat_ident_word))"

definition pat_atom :: pattern where
  "pat_atom =
     P_Seq pat_identifier (P_Seq (P_Char CHR ''/'') (P_Seq pat_identifier
       (P_Seq (P_Opt (P_Seq (P_Opt (P_In ''-.'')) pat_version)) (P_Opt (P_Char CHR ''*'')))))"

definition pat_slotname :: pattern where
  "pat_slotname = P_Seq (P_In (letter @ digit)) (P_Star (P_In (letter @ digit @ ''+_.-'')))"

definition pat_slot :: pattern where
  "pat_slot =
     P_Seq (P_Char CHR '':'') (P_Seq
       (P_Opt (P_Seq pat_slotname (P_Opt (P_Seq (P_Char CHR ''/'') pat_slotname))))
       (P_Opt (P_In ''*|='')))"

definition pat_repo :: pattern where
  "pat_repo = P_Seq (P_Char CHR '':'') (P_Seq (P_Char CHR '':'') pat_identifier)"

definition pat_atomflag :: pattern where
  "pat_atomflag =
     P_Seq (P_Opt (P_In ''!-'')) (P_Seq pat_identifier
       (P_Seq (P_Opt (P_Seq (P_Char CHR ''('') (P_Seq (P_In ''+|-'') (P_Char CHR '')''))))
         (P_Opt (P_In ''?|=''))))"

definition pat_atomflags :: pattern where
  "pat_atomflags =
     P_Seq (P_Seq (P_Char CHR ''['') (P_Seq (P_Star (P_Char CHR '' '')) (P_Seq pat_atomflag
       (P_Seq (P_Star (P_Seq (P_Star (P_Char CHR '' '')) (P_Seq (P_Char CHR '','')
           (P_Seq (P_Star (P_Char CHR '' '')) pat_atomflag))))
         (P_Star (P_Char CHR '' '')))))) (P_Char CHR '']'')"

definition use_chars :: string where
  "use_chars = letter @ digit @ ''_-''"

definition pat_use_select :: pattern where
  "pat_use_select = P_Seq (P_Seq (P_Opt (P_Char CHR ''!'')) (P_Plus (P_In use_chars))) (P_Char CHR ''?'')"

section \<open>The rules\<close>

definition emit :: "'a \<Rightarrow> 'a option option" where
  "emit t = Some (Some t)"

definition blanks :: string where
  "blanks = [CHR '' '', CHR 0x09, CHR 0x0D, CHR 0x5C]"

text \<open>The result of \<open>atom_init\<close> is not looked at; its undefined behaviour is that of the lexer.\<close>

definition atom_action :: "LUT option \<Rightarrow> string \<Rightarrow> token option option" where
  "atom_action global_packages yytext =
     map_option (\<lambda>(_, a). Some (ATOM a)) (atom_init global_packages PyAtom_new yytext)"

definition char_rule :: "char \<Rightarrow> token lex_rule" where
  "char_rule c = (P_Char c, \<lambda>_. emit (Tok c))"

definition depend_rules :: "LUT option \<Rightarrow> token lex_rule list" where
  "depend_rules global_packages =
     [(P_Char CHR 0x0A, \<lambda>_. Some None),
      (P_Plus (P_In blanks), \<lambda>_. Some None),
      (pat_repo, \<lambda>yytext. emit (REPOSITORY (drop 2 yytext))),
      (pat_slot, \<lambda>yytext. emit (slot_action yytext)),
      (pat_atomflags, \<lambda>yytext. emit (atomflags_action yytext)),
      (pat_use_select, \<lambda>yytext. emit (use_select_action yytext)),
      (P_Word ''??'', \<lambda>_. emit (USESELECT None USE_OP_MOST_ONE)),
      (P_Word ''||'', \<lambda>_. emit (USESELECT None USE_OP_LEAST_ONE)),
      (P_Word ''^^'', \<lambda>_. emit (USESELECT None USE_OP_EXACT_ONE))]
     @ map char_rule ''-<>=![]?()^|,~''
     @ [(pat_atom, atom_action global_packages)]"

definition depend_lex ::
    "(pattern list \<Rightarrow> string \<Rightarrow> (nat \<times> nat) option) \<Rightarrow> LUT option \<Rightarrow> string \<Rightarrow> token lexed" where
  "depend_lex pick global_packages = run_lexer pick (depend_rules global_packages)"

section \<open>First and last characters\<close>

lemma pat_starts:
  "starts pat_identifier c \<longleftrightarrow> c \<in> set (letter @ ''_'' @ digit)"
  "starts pat_repo c \<longleftrightarrow> c = CHR '':''" "starts pat_slot c \<longleftrightarrow> c = CHR '':''"
  "starts pat_atomflags c \<longleftrightarrow> c = CHR ''[''"
  "starts pat_use_select c \<longleftrightarrow> c = CHR ''!'' \<or> c \<in> set use_chars"
  "starts pat_atom c \<longleftrightarrow> c \<in> set (letter @ ''_'' @ digit)"
  by (simp_all add: pat_identifier_def pat_ident_word_def pat_repo_def pat_slot_def pat_atomflags_def
      pat_use_select_def pat_atom_def)

lemma pat_occurs:
  "occurs pat_identifier c \<longleftrightarrow> c \<in> set (letter @ digit @ ''_+-'')"
  "occurs pat_slotname c \<longleftrightarrow> c \<in> set (letter @ digit @ ''+_.-'')"
  "occurs pat_repo c \<longleftrightarrow> c = CHR '':'' \<or> c \<in> set (letter @ digit @ ''_+-'')"
  "occurs pat_atom c \<longleftrightarrow> c \<in> set (letter @ digit @ ''_+-./*'')"
  "occurs pat_use_select c \<longleftrightarrow> c \<in> set (use_chars @ ''!?'')"
  by (auto simp: pat_identifier_def pat_ident_word_def pat_slotname_def pat_repo_def pat_atom_def
      pat_use_select_def pat_version_def pat_version_suf_def pat_revision_def use_chars_def letter_def digit_def)

text \<open>The characters that begin a name, and those that cannot.\<close>

definition marks :: string where
  "marks = CHR 0x0A # blanks @ '':[!?|^-<>=](),~/*+.''"

lemma name_no_mark: "c \<in> set (letter @ ''_'' @ digit) \<Longrightarrow> c \<notin> set marks"
proof -
  have "\<forall>d \<in> set marks. d \<notin> set (letter @ ''_'' @ digit)" by code_simp
  then show "c \<in> set (letter @ ''_'' @ digit) \<Longrightarrow> c \<notin> set marks" by blast
qed

lemma identifier_hd: "accepts pat_identifier s \<Longrightarrow> s \<noteq> [] \<and> hd s \<in> set (letter @ ''_'' @ digit)"
  using accepts_starts [of pat_identifier s] pat_starts(1) [of "hd s"]
  by (cases s) (auto simp: pat_identifier_def pat_ident_word_def accepts_Seq)

lemma depend_patterns:
  "map fst (depend_rules L) = [P_Char CHR 0x0A, P_Plus (P_In blanks), pat_repo, pat_slot, pat_atomflags,
     pat_use_select, P_Word ''??'', P_Word ''||'', P_Word ''^^''] @ map P_Char ''-<>=![]?()^|,~'' @ [pat_atom]"
  by (simp add: depend_rules_def char_rule_def)

lemma use_select_mark: "accepts pat_use_select w \<Longrightarrow> CHR ''?'' \<in> set w"
  by (auto simp: pat_use_select_def accepts_Seq)

text \<open>What can follow an atom, a slot or a repository.\<close>

definition follows :: "string \<Rightarrow> string \<Rightarrow> bool" where
  "follows cs u \<longleftrightarrow> u = [] \<or> hd u \<in> set cs"

lemma takes_atom:
  assumes "accepts pat_atom t" "t = category @ CHR ''/'' # rest" "accepts pat_identifier category"
    and "follows '' :['' u"
  shows "takes (map fst (depend_rules L)) t u 23"
proof (rule takesI)
  have t: "t \<noteq> []" "hd t \<in> set (letter @ ''_'' @ digit)"
    using assms(2) identifier_hd [OF assms(3)] by auto
  then show "t \<noteq> []" by simp
  have hd: "hd (t @ u) = hd t" "hd t \<notin> set marks" using t name_no_mark by auto
  have "prefix_matches pat_use_select (t @ u) = []"
  proof (rule no_match_before [where v = category and x = "CHR ''/''" and c = "CHR ''?''"])
    show "\<not> occurs pat_use_select CHR ''/''" by (simp add: pat_occurs use_chars_def letter_def digit_def)
    show "CHR ''?'' \<notin> set category"
      using accepts_occurs [OF assms(3), of "CHR ''?''"] by (auto simp: pat_occurs letter_def digit_def)
  qed (use assms(2) use_select_mark in auto)
  moreover have "prefix_matches q (t @ u) = []"
    if "q \<in> set (take 23 (map fst (depend_rules L)))" "q \<noteq> pat_use_select" for q
    using that hd unfolding depend_patterns
    by (intro no_start) (auto simp: pat_starts marks_def)
  ultimately show "\<forall>q \<in> set (take 23 (map fst (depend_rules L))). prefix_matches q (t @ u) = []"
    by blast
  have "u = [] \<or> \<not> occurs pat_atom (hd u)"
    using assms(4) by (auto simp: follows_def pat_occurs letter_def digit_def)
  then show "\<forall>q \<in> set (drop 23 (map fst (depend_rules L))). \<forall>m \<in> set (prefix_matches q (t @ u)). m \<le> length t"
    unfolding depend_patterns using no_longer_match [of u pat_atom _ t] by simp
qed (simp_all add: depend_patterns assms(1))

text \<open>A name after a colon; the match of a slot has no second colon.\<close>

lemma slotname_hd: "accepts pat_slotname s \<Longrightarrow> s \<noteq> [] \<and> hd s \<in> set (letter @ ''_'' @ digit)"
  by (auto simp: pat_slotname_def accepts_Seq)

lemma slot_one_colon:
  assumes "accepts pat_slot s"
  shows "s \<noteq> [] \<and> (\<forall>c \<in> set (tl s). c \<in> set (letter @ digit @ ''+_.-/*|=''))"
proof -
  let ?r = "P_Seq (P_Opt (P_Seq pat_slotname (P_Opt (P_Seq (P_Char CHR ''/'') pat_slotname)))) (P_Opt (P_In ''*|=''))"
  obtain w where w: "s = CHR '':'' # w" "accepts ?r w"
    using assms by (auto simp: pat_slot_def accepts_Seq [of "P_Char _"])
  have "occurs ?r c \<longleftrightarrow> c \<in> set (letter @ digit @ ''+_.-/*|='')" for c
    by (auto simp: pat_slotname_def)
  then have "c \<in> set (letter @ digit @ ''+_.-/*|='')" if "c \<in> set w" for c
    using accepts_occurs [OF w(2) that] by blast
  then show ?thesis using w(1) by simp
qed

lemma slot_stops:
  assumes "t \<noteq> []" "u = [] \<or> hd u \<notin> set (letter @ digit @ ''+_.-/*|='')"
    and "n \<in> set (prefix_matches pat_slot (t @ u))"
  shows "n \<le> length t"
proof (rule ccontr)
  assume n: "\<not> n \<le> length t"
  then have "u \<noteq> []" "hd u \<in> set (tl (take n (t @ u)))"
    using assms(1,3) by (cases u; cases t; cases n; cases "n - length t"; auto simp: in_prefix_matches)+
  then show False
    using assms(2,3) slot_one_colon by (auto simp: in_prefix_matches)
qed

lemma takes_slot:
  assumes "accepts pat_slot t" "tl t \<noteq> []" "hd (tl t) \<noteq> CHR '':''" "follows '' :['' u"
  shows "takes (map fst (depend_rules L)) t u 3"
proof (rule takesI)
  obtain c cs where t: "t = CHR '':'' # c # cs" "c \<noteq> CHR '':''"
    using assms(1-3) by (cases t; cases "tl t") (auto simp: pat_slot_def accepts_Seq [of "P_Char _"])
  then show "t \<noteq> []" by simp
  have hd: "hd (t @ u) = CHR '':''" using t(1) by simp
  have "prefix_matches pat_repo (t @ u) = []"
  proof -
    have "\<not> accepts pat_repo (take n (t @ u))" for n
      using t by (cases n; cases "n - 1") (auto simp: pat_repo_def accepts_Seq [of "P_Char _"])
    then show ?thesis by (simp add: prefix_matches_def filter_empty_conv)
  qed
  moreover have "prefix_matches q (t @ u) = []"
    if "q \<in> set (take 3 (map fst (depend_rules L)))" "q \<noteq> pat_repo" for q
    using that hd unfolding depend_patterns
    by (intro no_start) (auto simp: pat_starts blanks_def)
  ultimately show "\<forall>q \<in> set (take 3 (map fst (depend_rules L))). prefix_matches q (t @ u) = []"
    by blast
  have "u = [] \<or> hd u \<notin> set (letter @ digit @ ''+_.-/*|='')"
    using assms(4) by (auto simp: follows_def letter_def digit_def)
  then have "m \<le> length t" if "m \<in> set (prefix_matches pat_slot (t @ u))" for m
    using slot_stops [of t u m] that t(1) by simp
  moreover have "prefix_matches q (t @ u) = []"
    if "q \<in> set (drop 3 (map fst (depend_rules L)))" "q \<noteq> pat_slot" for q
    using that hd unfolding depend_patterns
    by (intro no_start) (auto simp: pat_starts use_chars_def letter_def digit_def)
  ultimately show "\<forall>q \<in> set (drop 3 (map fst (depend_rules L))). \<forall>m \<in> set (prefix_matches q (t @ u)). m \<le> length t"
    by (metis empty_iff empty_set)
qed (simp_all add: depend_patterns assms(1))

lemma takes_repo:
  assumes "accepts pat_identifier r" "follows '' ['' u"
  shows "takes (map fst (depend_rules L)) (''::'' @ r) u 2"
proof (rule takesI)
  let ?t = "''::'' @ r"
  show "accepts (map fst (depend_rules L) ! 2) ?t"
    using assms(1) by (simp add: depend_patterns pat_repo_def accepts_Seq [of "P_Char _"])
  show "\<forall>q \<in> set (take 2 (map fst (depend_rules L))). prefix_matches q (?t @ u) = []"
    by (intro ballI no_start) (auto simp: depend_patterns numeral_2_eq_2 blanks_def)
  have "m \<le> length ?t" if "m \<in> set (prefix_matches pat_repo (?t @ u))" for m
    using assms(2) that no_longer_match [of u pat_repo m ?t]
    by (auto simp: follows_def pat_occurs letter_def digit_def)
  moreover have "m \<le> length ?t" if "m \<in> set (prefix_matches pat_slot (?t @ u))" for m
    using that slot_stops [of "'':''" "CHR '':'' # r @ u" m] by (simp add: letter_def digit_def)
  moreover have "prefix_matches q (?t @ u) = []"
    if "q \<in> set (drop 2 (map fst (depend_rules L)))" "q \<noteq> pat_slot" "q \<noteq> pat_repo" for q
    using that unfolding depend_patterns
    by (intro no_start) (auto simp: pat_starts use_chars_def letter_def digit_def)
  ultimately show "\<forall>q \<in> set (drop 2 (map fst (depend_rules L))). \<forall>m \<in> set (prefix_matches q (?t @ u)). m \<le> length ?t"
    by (metis empty_iff empty_set)
qed (simp_all add: depend_patterns)

lemma takes_flags:
  assumes "accepts pat_atomflags t"
  shows "takes (map fst (depend_rules L)) t u 4"
proof (rule takesI)
  obtain cs where t: "t = CHR ''['' # cs"
    using assms by (auto simp: pat_atomflags_def accepts_Seq)
  then show "t \<noteq> []" by simp
  show "\<forall>q \<in> set (take 4 (map fst (depend_rules L))). prefix_matches q (t @ u) = []"
    by (intro ballI no_start) (auto simp: t depend_patterns numeral_eq_Suc pat_starts blanks_def)
  have "m = length t" if "m \<in> set (prefix_matches pat_atomflags (t @ u))" for m
    using assms that unfolding pat_atomflags_def
    by (rule no_match_beyond_end [rotated]) (auto simp: pat_atomflag_def pat_occurs letter_def digit_def)
  moreover have "m \<le> length t" if "m \<in> set (prefix_matches (P_Char c) (t @ u))" for m c
    using that t by (auto simp: in_prefix_matches dest!: arg_cong [where f = length])
  moreover have "prefix_matches q (t @ u) = []"
    if "q \<in> set (drop 4 (map fst (depend_rules L)))" "q \<noteq> pat_atomflags" "\<forall>c. q \<noteq> P_Char c" for q
    using that t unfolding depend_patterns
    by (intro no_start) (auto simp: pat_starts use_chars_def letter_def digit_def)
  ultimately show "\<forall>q \<in> set (drop 4 (map fst (depend_rules L))). \<forall>m \<in> set (prefix_matches q (t @ u)). m \<le> length t"
    by (metis empty_iff empty_set order_refl)
qed (simp_all add: depend_patterns assms)

lemma takes_select:
  assumes "accepts pat_use_select t"
  shows "takes (map fst (depend_rules L)) t u 5"
proof (rule takesI)
  have hd: "t \<noteq> []" "hd t = CHR ''!'' \<or> hd t \<in> set use_chars"
    using assms accepts_starts [OF assms] by (cases t; auto simp: pat_starts pat_use_select_def accepts_Seq)+
  then show "t \<noteq> []" by simp
  have hdu: "hd (t @ u) = hd t" using hd by simp
  have other: "hd t \<notin> set (CHR 0x0A # blanks @ '':['')"
    using hd(2) by (auto simp: use_chars_def letter_def digit_def blanks_def)
  show "\<forall>q \<in> set (take 5 (map fst (depend_rules L))). prefix_matches q (t @ u) = []"
    using other hdu by (intro ballI no_start) (auto simp: depend_patterns numeral_eq_Suc pat_starts)
  have "m = length t" if "m \<in> set (prefix_matches pat_use_select (t @ u))" for m
    using assms that unfolding pat_use_select_def
    by (rule no_match_beyond_end [rotated]) (auto simp: use_chars_def letter_def digit_def)
  moreover have "m \<le> length t" if "m \<in> set (prefix_matches (P_Char c) (t @ u))" for m c
    using that hd(1) by (cases t) (auto simp: in_prefix_matches dest!: arg_cong [where f = length])
  moreover have "prefix_matches (P_Word w) (t @ u) = []" if "w \<in> {''??'', ''||'', ''^^''}" for w
    using that hd(2) hdu by (intro no_start) (auto simp: use_chars_def letter_def digit_def)
  moreover have "m \<le> length t" if m: "m \<in> set (prefix_matches pat_atom (t @ u))" for m
  proof (rule ccontr)
    assume "\<not> m \<le> length t"
    then have "set t \<subseteq> set (take m (t @ u))" by auto
    then have "CHR ''?'' \<in> set (take m (t @ u))" using use_select_mark [OF assms] by blast
    moreover have "accepts pat_atom (take m (t @ u))" using m by (simp add: in_prefix_matches)
    ultimately have "occurs pat_atom CHR ''?''" by (rule accepts_occurs [rotated])
    then show False by (simp add: pat_occurs letter_def digit_def)
  qed
  ultimately show "\<forall>q \<in> set (drop 5 (map fst (depend_rules L))). \<forall>m \<in> set (prefix_matches q (t @ u)). m \<le> length t"
    unfolding depend_patterns by simp
qed (simp_all add: depend_patterns assms)

text \<open>A single character; an exclamation mark only where no condition starts.\<close>

definition char_index :: "char \<Rightarrow> nat" where
  "char_index c = (if c = CHR ''<'' then 10 else if c = CHR ''>'' then 11 else if c = CHR ''='' then 12
     else if c = CHR ''!'' then 13 else if c = CHR ''('' then 17 else if c = CHR '')'' then 18 else 22)"

definition depend_patterns_list :: "pattern list" where
  "depend_patterns_list = [P_Char CHR 0x0A, P_Plus (P_In blanks), pat_repo, pat_slot, pat_atomflags,
     pat_use_select, P_Word ''??'', P_Word ''||'', P_Word ''^^''] @ map P_Char ''-<>=![]?()^|,~'' @ [pat_atom]"

lemma char_rule_index:
  assumes "c \<in> set ''<>=!()~''"
  shows "char_index c < 24" "map fst (depend_rules L) ! char_index c = P_Char c"
    "snd (depend_rules L ! char_index c) = (\<lambda>_. emit (Tok c))"
    "j < 24 \<Longrightarrow> j = char_index c \<or> j = 5 \<and> c = CHR ''!'' \<or> \<not> starts (map fst (depend_rules L) ! j) c"
proof -
  show "char_index c < 24" "map fst (depend_rules L) ! char_index c = P_Char c"
    "snd (depend_rules L ! char_index c) = (\<lambda>_. emit (Tok c))"
    using assms by (auto simp: char_index_def depend_rules_def char_rule_def)
  have all: "\<forall>c \<in> set ''<>=!()~''. \<forall>j \<in> set [0..<24].
      j = char_index c \<or> j = 5 \<and> c = CHR ''!'' \<or> \<not> starts (depend_patterns_list ! j) c"
    by code_simp
  have eq: "depend_patterns_list = map fst (depend_rules L)"
    unfolding depend_patterns depend_patterns_list_def ..
  show "j = char_index c \<or> j = 5 \<and> c = CHR ''!'' \<or> \<not> starts (map fst (depend_rules L) ! j) c" if "j < 24"
    using bspec [OF bspec [OF all assms], of j] that unfolding eq by (simp only: set_upt) simp
qed

lemma takes_char:
  assumes "c \<in> set ''<>=!()~''" "c = CHR ''!'' \<Longrightarrow> prefix_matches pat_use_select (c # u) = []"
  shows "takes (map fst (depend_rules L)) [c] u (char_index c)"
proof -
  note index = char_rule_index [OF assms(1)]
  have none: "prefix_matches (map fst (depend_rules L) ! j) ([c] @ u) = []" if "j < 24" "j \<noteq> char_index c" for j
  proof (cases "starts (map fst (depend_rules L) ! j) c")
    case True
    then have "c = CHR ''!''" "j = 5" using index(4) that by blast+
    then show ?thesis using assms(2) by (simp add: depend_patterns)
  next
    case False
    then show ?thesis by (intro no_start) simp
  qed
  have one: "m \<le> length [c]" if m: "m \<in> set (prefix_matches (P_Char c) ([c] @ u))" for m
  proof -
    have "take m ([c] @ u) = [c]" "m \<le> length ([c] @ u)" using m by (simp_all add: in_prefix_matches)
    then show ?thesis by (metis length_take min_absorb2 order_refl)
  qed
  have "m \<le> length [c]" if "m \<in> set (prefix_matches (map fst (depend_rules L) ! j) ([c] @ u))" "j < 24" for m j
  proof (cases "j = char_index c")
    case True
    then show ?thesis using one that(1) unfolding True index(2) by blast
  next
    case False
    then show ?thesis using none [OF that(2) False] that(1) by simp
  qed
  moreover have "length (map fst (depend_rules L)) = 24"
    by (simp add: depend_rules_def)
  ultimately show ?thesis
    unfolding takes_def using index(1,2) none by simp
qed

lemma takes_blank:
  assumes "u \<noteq> []" "hd u \<notin> set blanks"
  shows "takes (map fst (depend_rules L)) '' '' u 1"
proof (rule takesI)
  have "m \<le> length '' ''" if "m \<in> set (prefix_matches (P_Plus (P_In blanks)) ('' '' @ u))" for m
    using that assms(2) by (intro no_longer_match [of u]) auto
  moreover have "prefix_matches q ('' '' @ u) = []"
    if "q \<in> set (drop 1 (map fst (depend_rules L)))" "q \<noteq> P_Plus (P_In blanks)" for q
    using that unfolding depend_patterns
    by (intro no_start) (auto simp: pat_starts use_chars_def letter_def digit_def)
  ultimately show "\<forall>q \<in> set (drop 1 (map fst (depend_rules L))). \<forall>m \<in> set (prefix_matches q ('' '' @ u)). m \<le> length '' ''"
    by (metis empty_iff empty_set)
qed (auto simp: depend_patterns blanks_def intro!: no_start)

end
