(* ===== verification/DependText.thy ===== *)
theory DependText
  imports DependLexer
begin

text \<open>
  Dependencies as they are written: texts in the notation of Gentoo, the tokens the lexer of
  autogentoo/cportage/depend.y cuts them into, the expressions the grammar derives from these, and the
  nodes a \<open>Dependency\<close> made from the text consists of.
\<close>

section \<open>Written atoms\<close>

text \<open>The parts of an atom in the order they are written in.\<close>

record written =
  wr_blocks :: atom_block
  wr_range :: U32
  wr_category :: string
  wr_name :: string
  wr_version :: "(component list \<times> nat option) option"
  wr_slot :: "(string \<times> string option) option"
  wr_mark :: "char option"
  wr_repository :: "string option"
  wr_flags :: "(string \<times> atom_use) list"

fun block_text :: "atom_block \<Rightarrow> string" where
  "block_text ATOM_BLOCK_HARD = ''!!''"
| "block_text ATOM_BLOCK_SOFT = ''!''"
| "block_text ATOM_BLOCK_NONE = []"

definition range_text :: "U32 \<Rightarrow> string option" where
  "range_text rng =
     (if rng = ATOM_VERSION_ALL then Some []
      else if rng = ATOM_VERSION_GE then Some ''>=''
      else if rng = ATOM_VERSION_LE then Some ''<=''
      else if rng = ATOM_VERSION_E then Some ''=''
      else if rng = ATOM_VERSION_G then Some ''>''
      else if rng = ATOM_VERSION_REV then Some ''~''
      else if rng = ATOM_VERSION_L then Some ''<'' else None)"

definition written_key :: "written \<Rightarrow> string" where
  "written_key w = wr_category w @ ''/'' @ wr_name w
     @ (case wr_version w of None \<Rightarrow> [] | Some (cs, r) \<Rightarrow> ''-'' @ version_text cs r)"

fun slot_names :: "(string \<times> string option) option \<Rightarrow> string" where
  "slot_names None = []"
| "slot_names (Some (n, None)) = n"
| "slot_names (Some (n, Some m)) = n @ ''/'' @ m"

fun mark_text :: "char option \<Rightarrow> string" where
  "mark_text None = []"
| "mark_text (Some c) = [c]"

definition slot_text :: "(string \<times> string option) option \<Rightarrow> char option \<Rightarrow> string" where
  "slot_text slot mark = (if slot = None \<and> mark = None then [] else CHR '':'' # slot_names slot @ mark_text mark)"

fun repository_text :: "string option \<Rightarrow> string" where
  "repository_text None = []"
| "repository_text (Some r) = ''::'' @ r"

definition flag_text :: "string \<times> atom_use \<Rightarrow> string" where
  "flag_text f = fst (atomflag_marks (snd f)) @ fst f @ snd (atomflag_marks (snd f))"

fun commas :: "string list \<Rightarrow> string" where
  "commas [] = []"
| "commas [x] = x"
| "commas (x # y # xs) = x @ CHR '','' # commas (y # xs)"

definition flags_text :: "(string \<times> atom_use) list \<Rightarrow> string" where
  "flags_text fs = (if fs = [] then [] else ''['' @ commas (map flag_text fs) @ '']'')"

definition written_text :: "written \<Rightarrow> string" where
  "written_text w = block_text (wr_blocks w) @ the (range_text (wr_range w)) @ written_key w
     @ slot_text (wr_slot w) (wr_mark w) @ repository_text (wr_repository w) @ flags_text (wr_flags w)"

text \<open>A version is numbers, then suffixes. A name without a version must not look like one with it.\<close>

definition version_shape :: "component list \<Rightarrow> bool" where
  "version_shape cs \<longleftrightarrow> (\<forall>c \<in> set (dropWhile (\<lambda>c. fst c = ATOM_PREFIX_NONE) cs). fst c \<noteq> ATOM_PREFIX_NONE)"

definition written_ok :: "written \<Rightarrow> bool" where
  "written_ok w \<longleftrightarrow> range_text (wr_range w) \<noteq> None
     \<and> accepts pat_identifier (wr_category w) \<and> accepts pat_identifier (wr_name w)
     \<and> (case wr_version w of None \<Rightarrow> find_version (wr_name w) = None
        | Some (cs, r) \<Rightarrow> bounded cs r \<and> version_shape cs)
     \<and> (case wr_slot w of None \<Rightarrow> True
        | Some (n, sub) \<Rightarrow> accepts pat_slotname n \<and> (case sub of None \<Rightarrow> True | Some m \<Rightarrow> accepts pat_slotname m))
     \<and> wr_mark w \<in> {None, Some CHR ''*'', Some CHR ''=''}
     \<and> (case wr_repository w of None \<Rightarrow> True | Some r \<Rightarrow> accepts pat_identifier r)
     \<and> (\<forall>f \<in> set (wr_flags w). accepts pat_identifier (fst f))"

section \<open>The patterns accept what is written\<close>

lemma digits_accepted: "set (dec n) \<subseteq> set digit"
  using dec_digits [of n] digit_not(9) unfolding digit_def by blast

lemma number_accepted: "accepts (P_Plus (P_In digit)) (dec n)"
  using digits_accepted by simp

lemma suffix_accepted:
  assumes "fst c \<noteq> ATOM_PREFIX_NONE"
  shows "accepts pat_version_suf (separator (fst c) # component_text c)"
proof -
  have "accepts pat_version_suf ((CHR ''_'' # suffix_name (fst c)) @ dec (snd c))"
    unfolding pat_version_suf_def using digits_accepted assms
    by (intro accepts_SeqI) (cases "fst c"; simp)+
  then show ?thesis
    using assms by (simp add: separator_def component_text_def)
qed

lemma components_text_Cons:
  "components_text (c # cs) = component_text c @ concat (map (\<lambda>d. separator (fst d) # component_text d) cs)"
  by (induction cs arbitrary: c) simp_all

lemma version_accepted:
  assumes "bounded cs r" "version_shape cs"
  shows "accepts pat_version (version_text cs r)"
proof -
  obtain n ds where cs: "cs = num n # ds"
    using assms(1) by (cases cs) (auto simp: bounded_def prod_eq_iff)
  let ?plain = "takeWhile (\<lambda>c. fst c = ATOM_PREFIX_NONE) ds" and ?rest = "dropWhile (\<lambda>c. fst c = ATOM_PREFIX_NONE) ds"
  let ?f = "\<lambda>d. separator (fst d) # component_text d"
  have "accepts (P_Seq (P_Char CHR ''.'') (P_Plus (P_In digit))) (?f d)" if "d \<in> set ?plain" for d
  proof -
    have "fst d = ATOM_PREFIX_NONE" using that set_takeWhileD by fastforce
    then show ?thesis
      using accepts_SeqI [of "P_Char CHR ''.''" "''.''" "P_Plus (P_In digit)" "dec (snd d)"] number_accepted
      by (simp add: separator_def component_text_def)
  qed
  then have plain: "accepts (P_Star (P_Seq (P_Char CHR ''.'') (P_Plus (P_In digit)))) (concat (map ?f ?plain))"
    by (intro accepts_Star_concat) blast
  have rest: "accepts (P_Star pat_version_suf) (concat (map ?f ?rest))"
  proof (intro accepts_Star_concat ballI)
    fix d
    assume "d \<in> set ?rest"
    moreover have "\<forall>c \<in> set ?rest. fst c \<noteq> ATOM_PREFIX_NONE"
      using assms(2) unfolding version_shape_def cs dropWhile.simps fst_conv by (simp only: if_True simp_thms)
    ultimately have "fst d \<noteq> ATOM_PREFIX_NONE" by (rule bspec [rotated])
    then show "accepts pat_version_suf (?f d)" by (rule suffix_accepted)
  qed
  have rev: "accepts (P_Opt pat_revision) (case r of None \<Rightarrow> [] | Some k \<Rightarrow> ''-r'' @ dec k)"
  proof (cases r)
    case (Some k)
    have "accepts pat_revision (''-r'' @ dec k)"
      unfolding pat_revision_def by (intro accepts_SeqI number_accepted) simp
    then show ?thesis using Some by simp
  qed simp
  have "accepts pat_version (dec n @ concat (map ?f ?plain) @ [] @ concat (map ?f ?rest)
      @ (case r of None \<Rightarrow> [] | Some k \<Rightarrow> ''-r'' @ dec k))"
    unfolding pat_version_def by (intro accepts_SeqI number_accepted plain rest rev) simp
  moreover have "concat (map ?f ds) = concat (map ?f ?plain) @ concat (map ?f ?rest)"
    by (metis concat_append map_append takeWhile_dropWhile_id)
  ultimately show ?thesis
    by (simp add: version_text_def cs components_text_Cons component_text_def)
qed

lemma key_accepted:
  assumes "written_ok w"
  shows "accepts pat_atom (written_key w)"
proof -
  let ?v = "case wr_version w of None \<Rightarrow> [] | Some (cs, r) \<Rightarrow> ''-'' @ version_text cs r"
  have "accepts (P_Opt (P_Seq (P_Opt (P_In ''-.'')) pat_version)) ?v"
    using assms version_accepted accepts_SeqI [of "P_Opt (P_In ''-.'')" "''-''" pat_version]
    by (auto simp: written_ok_def split: option.splits)
  then have "accepts pat_atom (wr_category w @ ''/'' @ wr_name w @ ?v @ [])"
    unfolding pat_atom_def using assms by (intro accepts_SeqI) (simp_all add: written_ok_def)
  then show ?thesis by (simp add: written_key_def)
qed

definition slot_ok :: "(string \<times> string option) option \<Rightarrow> char option \<Rightarrow> bool" where
  "slot_ok slot mark \<longleftrightarrow> mark \<in> {None, Some CHR ''*'', Some CHR ''=''} \<and>
     (case slot of None \<Rightarrow> mark \<noteq> None
      | Some (n, sub) \<Rightarrow> accepts pat_slotname n \<and> (case sub of None \<Rightarrow> True | Some m \<Rightarrow> accepts pat_slotname m))"

lemma written_slot_ok: "written_ok w \<Longrightarrow> wr_slot w \<noteq> None \<or> wr_mark w \<noteq> None \<Longrightarrow> slot_ok (wr_slot w) (wr_mark w)"
  by (auto simp: written_ok_def slot_ok_def split: option.splits)

lemma slot_accepted:
  assumes "slot_ok slot mark"
  shows "accepts pat_slot (slot_text slot mark)"
proof -
  have names: "accepts (P_Opt (P_Seq pat_slotname (P_Opt (P_Seq (P_Char CHR ''/'') pat_slotname)))) (slot_names slot)"
  proof (cases slot)
    case (Some p)
    obtain n sub where p: "p = (n, sub)" by (cases p)
    have "accepts (P_Opt (P_Seq (P_Char CHR ''/'') pat_slotname)) (case sub of None \<Rightarrow> [] | Some m \<Rightarrow> ''/'' @ m)"
    proof (cases sub)
      case sub: (Some m)
      have "accepts (P_Seq (P_Char CHR ''/'') pat_slotname) (''/'' @ m)"
        using assms Some p sub by (intro accepts_SeqI) (simp_all add: slot_ok_def)
      then show ?thesis using sub by simp
    qed simp
    then have "accepts (P_Seq pat_slotname (P_Opt (P_Seq (P_Char CHR ''/'') pat_slotname)))
        (n @ (case sub of None \<Rightarrow> [] | Some m \<Rightarrow> ''/'' @ m))"
      using assms Some p by (intro accepts_SeqI) (simp_all add: slot_ok_def)
    then show ?thesis using Some p by (cases sub) simp_all
  qed simp
  have "accepts pat_slot ('':'' @ slot_names slot @ mark_text mark)"
    unfolding pat_slot_def using assms by (intro accepts_SeqI names) (auto simp: slot_ok_def)
  moreover have "\<not> (slot = None \<and> mark = None)" using assms by (cases slot) (auto simp: slot_ok_def)
  ultimately show ?thesis unfolding slot_text_def by (simp only: if_False) simp
qed

lemma slotname_chars: "accepts pat_slotname s \<Longrightarrow> c \<in> set s \<Longrightarrow> c \<notin> set ''/*|=:''"
  using accepts_occurs [of pat_slotname s c] by (auto simp: pat_occurs letter_def digit_def)

lemma identifier_chars: "accepts pat_identifier s \<Longrightarrow> c \<in> set s \<Longrightarrow> c \<notin> set '' !,?=/:[]().''"
  using accepts_occurs [of pat_identifier s c] by (auto simp: pat_occurs letter_def digit_def)

text \<open>The sub-slot the action takes from the text: with a mark, the mark is its last character, and a slot
  without a sub-slot has an empty one.\<close>

fun sub_slot_read :: "(string \<times> string option) option \<Rightarrow> char option \<Rightarrow> string option" where
  "sub_slot_read None mark = None"
| "sub_slot_read (Some (n, None)) mark = (if mark = None then None else Some [])"
| "sub_slot_read (Some (n, Some m)) mark = Some (m @ mark_text mark)"

definition mark_opts :: "char option \<Rightarrow> atom_slot" where
  "mark_opts mark = (if mark = Some CHR ''='' then ATOM_SLOT_REBUILD else ATOM_SLOT_IGNORE)"

lemma slot_token:
  assumes "slot_ok slot mark"
  shows "slot_action (slot_text slot mark) = SLOT (map_option fst slot) (sub_slot_read slot mark) (mark_opts mark)"
proof (cases slot)
  case None
  then show ?thesis
    using assms by (auto simp: slot_ok_def slot_text_def slot_action_def mark_opts_def Let_def)
next
  case (Some p)
  obtain n sub where p: "p = (n, sub)" by (cases p)
  have n: "accepts pat_slotname n" "sub = Some m \<Longrightarrow> accepts pat_slotname m" for m
    using assms Some p by (auto simp: slot_ok_def)
  obtain c cs where n_Cons: "n = c # cs" "c \<noteq> CHR 0x00"
    using slotname_hd [OF n(1)] by (cases n) (auto simp: letter_def digit_def)
  let ?names = "slot_names (Some (n, sub))"
  have names: "?names \<noteq> []" "last ?names \<in> set n \<union> (case sub of None \<Rightarrow> {} | Some m \<Rightarrow> set m)"
    using n_Cons slotname_hd n(2) by (cases sub; auto)+
  then have last: "last ?names \<noteq> CHR ''*''" "last ?names \<noteq> CHR ''=''"
    using slotname_chars [OF n(1)] slotname_chars [OF n(2)] by (cases sub; auto)+
  have "CHR ''/'' \<notin> set n" using slotname_chars [OF n(1)] by auto
  then have slash: "strchr (?names @ mark_text mark) CHR ''/'' = (if sub = None then None else Some (length n))"
    using assms strchr_append [of "CHR ''/''" n] by (cases sub) (auto simp: strchr_None slot_ok_def)
  have whole: "slot_text slot mark = CHR '':'' # ?names @ mark_text mark"
    using Some p by (simp add: slot_text_def)
  have at: "char_at (slot_text slot mark) 1 \<noteq> Some CHR 0x00"
    using n_Cons whole by (cases sub) (simp_all add: char_at_def)
  have "slot_action (slot_text slot mark) = SLOT (Some n) (sub_slot_read (Some (n, sub)) mark) (mark_opts mark)"
    using assms last slash at names(1) n_Cons unfolding whole slot_action_def Let_def mark_opts_def
    by (cases sub) (auto simp: slot_ok_def)
  then show ?thesis using Some p by simp
qed

lemma slot_second:
  assumes "slot_ok slot mark"
  shows "tl (slot_text slot mark) \<noteq> [] \<and> hd (tl (slot_text slot mark)) \<noteq> CHR '':''"
proof (cases slot)
  case None
  then show ?thesis using assms by (auto simp: slot_ok_def slot_text_def)
next
  case (Some p)
  obtain n sub where p: "p = (n, sub)" by (cases p)
  then have "n \<noteq> []" "hd n \<noteq> CHR '':''"
    using assms Some slotname_hd [of n] slotname_chars [of n "hd n"] by (auto simp: slot_ok_def)
  then show ?thesis using Some p by (cases sub) (simp_all add: slot_text_def)
qed

section \<open>The flags of an atom\<close>

lemma flag_accepted:
  assumes "accepts pat_identifier (fst f)"
  shows "accepts pat_atomflag (flag_text f)"
proof -
  have "accepts pat_atomflag (fst (atomflag_marks (snd f)) @ fst f @ [] @ snd (atomflag_marks (snd f)))"
    unfolding pat_atomflag_def using assms by (intro accepts_SeqI) (cases "snd f"; simp)+
  then show ?thesis by (simp add: flag_text_def)
qed

lemma commas_accepted:
  assumes "\<forall>x \<in> set xs. accepts pat_atomflag x"
  shows "accepts (P_Star (P_Seq (P_Star (P_Char CHR '' '')) (P_Seq (P_Char CHR '','')
           (P_Seq (P_Star (P_Char CHR '' '')) pat_atomflag)))) (concat (map (\<lambda>x. CHR '','' # x) xs))"
proof (intro accepts_Star_concat ballI)
  fix x
  assume "x \<in> set xs"
  then have "accepts (P_Seq (P_Star (P_Char CHR '' '')) (P_Seq (P_Char CHR '','')
           (P_Seq (P_Star (P_Char CHR '' '')) pat_atomflag))) ([] @ '','' @ [] @ x)"
    using assms by (intro accepts_SeqI) simp_all
  then show "accepts (P_Seq (P_Star (P_Char CHR '' '')) (P_Seq (P_Char CHR '','')
           (P_Seq (P_Star (P_Char CHR '' '')) pat_atomflag))) (CHR '','' # x)" by simp
qed

lemma commas_Cons: "commas (x # xs) = x @ concat (map (\<lambda>x. CHR '','' # x) xs)"
  by (induction xs arbitrary: x) simp_all

lemma flags_accepted:
  assumes "fs \<noteq> []" "\<forall>f \<in> set fs. accepts pat_identifier (fst f)"
  shows "accepts pat_atomflags (flags_text fs)"
proof -
  obtain f gs where fs: "fs = f # gs" using assms(1) by (cases fs) auto
  have acc: "accepts pat_atomflag (flag_text f)" "\<forall>x \<in> set (map flag_text gs). accepts pat_atomflag x"
    using assms(2) flag_accepted fs by simp_all
  have "accepts pat_atomflags ((''['' @ [] @ flag_text f @ concat (map (\<lambda>x. CHR '','' # x) (map flag_text gs)) @ []) @ '']'')"
    unfolding pat_atomflags_def
    by (intro accepts_SeqI acc(1) commas_accepted acc(2)) simp_all
  then show ?thesis
    by (simp add: flags_text_def fs commas_Cons)
qed

lemma strtok_commas:
  assumes "\<forall>x \<in> set xs. x \<noteq> [] \<and> set x \<inter> set delim = {}" "CHR '','' \<in> set delim" "CHR '']'' \<in> set delim"
  shows "strtok_all delim (commas xs @ '']'') = xs"
proof -
  have word: "strtok_all delim (x @ d # s) = x # strtok_all delim s"
    if w: "x \<noteq> []" "set x \<inter> set delim = {}" "d \<in> set delim" for x d s
  proof -
    obtain c cs where x: "x = c # cs" using w(1) by (cases x) auto
    have skip: "dropWhile (\<lambda>c. c \<in> set delim) (x @ d # s) = x @ d # s"
      using w(2) x by auto
    have take: "takeWhile (\<lambda>c. c \<notin> set delim) (x @ d # s) = x"
      "dropWhile (\<lambda>c. c \<notin> set delim) (x @ d # s) = d # s"
      using w(2,3) by (auto simp: takeWhile_append2 dropWhile_append2 disjoint_iff)
    have "strtok_all delim (d # s) = strtok_all delim s"
      using w(3) by (subst (1 2) strtok_all.simps) simp
    then show ?thesis
      using skip take x by (subst strtok_all.simps) simp
  qed
  have Nil: "strtok_all delim '']'' = []"
    using assms(3) by (subst strtok_all.simps) simp
  have "strtok_all delim [] = []" by (subst strtok_all.simps) simp
  then show ?thesis
    using assms(1) Nil
  proof (induction xs rule: commas.induct)
    case (2 x)
    then show ?case using word [of x "CHR '']''" "[]"] assms(3) by simp
  next
    case (3 x y xs)
    then show ?case using word [of x "CHR '',''" "commas (y # xs) @ '']''"] assms(2) by simp
  qed simp
qed

lemma flag_token:
  assumes "accepts pat_identifier (fst f)"
  shows "flag_name (atomflag_action (flag_text f)) = Some (fst f) \<and> flag_option (atomflag_action (flag_text f)) = snd f"
proof -
  obtain c cs where n: "fst f = c # cs" "c \<in> set (letter @ ''_'' @ digit)"
    using identifier_hd [OF assms] by (cases "fst f") auto
  have c: "c \<noteq> CHR ''!''" "c \<noteq> CHR ''-''"
    using name_no_mark [OF n(2)] by (auto simp: marks_def)
  have l: "last (fst f) \<noteq> CHR ''?''" "last (fst f) \<noteq> CHR ''=''"
    using identifier_chars [OF assms, of "last (fst f)"] n(1) by auto
  have "char_at (fst f) 0 \<noteq> Some CHR ''-''" using n(1) c by (simp add: char_at_def)
  then show ?thesis
    using c l n(1) by (cases "snd f")
      (simp_all add: flag_text_def atomflag_action_def atomflag_build_def atomflag_init_def Let_def butlast_append)
qed

lemma flags_token:
  assumes "fs \<noteq> []" "\<forall>f \<in> set fs. accepts pat_identifier (fst f)"
  shows "\<exists>gs. atomflags_action (flags_text fs) = ATOM_FLAGS gs \<and> map (\<lambda>g. (flag_name g, flag_option g)) gs
    = map (\<lambda>f. (Some (fst f), snd f)) fs"
proof -
  have "\<forall>x \<in> set (map flag_text fs). x \<noteq> [] \<and> set x \<inter> set '' ,]'' = {}"
  proof
    fix x
    assume "x \<in> set (map flag_text fs)"
    then obtain f where f: "f \<in> set fs" "x = flag_text f" by auto
    then have ident: "accepts pat_identifier (fst f)" using assms(2) by blast
    have "set (fst f) \<inter> set '' ,]'' = {}" "fst f \<noteq> []"
      using identifier_hd [OF ident] identifier_chars [OF ident] by fastforce+
    then show "x \<noteq> [] \<and> set x \<inter> set '' ,]'' = {}"
      unfolding f(2) flag_text_def by (cases "snd f") simp_all
  qed
  then have "strtok_all '' ,]'' (commas (map flag_text fs) @ '']'') = map flag_text fs"
    by (intro strtok_commas) simp_all
  then have "atomflags_action (flags_text fs) = ATOM_FLAGS (map atomflag_action (map flag_text fs))"
    using assms(1) by (simp add: atomflags_action_def flags_text_def)
  then show ?thesis
    using assms(2) flag_token by (intro exI [of _ "map atomflag_action (map flag_text fs)"]) simp
qed

section \<open>The tokens of a written atom\<close>

definition written_version :: "written \<Rightarrow> AtomVersion list" where
  "written_version w = (case wr_version w of None \<Rightarrow> []
     | Some (cs, r) \<Rightarrow> components_version (version_text cs r) cs (int (rev_of r)))"

definition written_base :: "LUT \<Rightarrow> written \<Rightarrow> Atom" where
  "written_base pkgs w = snd (the (atom_init (Some pkgs) PyAtom_new (written_key w)))"

lemma written_atom_init:
  assumes "written_ok w" "lut_size pkgs \<noteq> 0"
  shows "atom_init (Some pkgs) PyAtom_new (written_key w) = Some (0, written_base pkgs w)
    \<and> atom_category (written_base pkgs w) = Some (wr_category w)
    \<and> atom_name (written_base pkgs w) = Some (wr_name w)
    \<and> atom_version (written_base pkgs w) = written_version w
    \<and> Some (atom_id (written_base pkgs w), atom_id_flag (written_base pkgs w))
        = lut_get_id pkgs (wr_category w @ ''/'' @ wr_name w)"
proof -
  have slash: "CHR ''/'' \<notin> set (wr_category w)"
    using assms(1) identifier_chars [of "wr_category w" "CHR ''/''"] by (auto simp: written_ok_def)
  have "\<exists>a. atom_init (Some pkgs) PyAtom_new (written_key w) = Some (0, a)
    \<and> atom_category a = Some (wr_category w) \<and> atom_name a = Some (wr_name w) \<and> atom_version a = written_version w
    \<and> Some (atom_id a, atom_id_flag a) = lut_get_id pkgs (wr_category w @ ''/'' @ wr_name w)"
  proof (cases "wr_version w")
    case None
    have c: "strchr (written_key w) CHR ''/'' = Some (length (wr_category w))"
      using strchr_append [OF slash, of "wr_name w"] None by (simp add: written_key_def)
    have "find_version (wr_name w) = None" using assms(1) None by (simp add: written_ok_def)
    then show ?thesis
      using atom_init_cases [OF c assms(2), of PyAtom_new] None
      by (auto simp: written_key_def written_version_def version_string_def)
  next
    case (Some p)
    obtain cs r where p: "p = (cs, r)" by (cases p)
    then have "bounded cs r" using assms(1) Some by (simp add: written_ok_def)
    then show ?thesis
      using atom_init_components [OF slash _ _ _ assms(2), of cs r PyAtom_new "wr_name w"] Some p
      by (auto simp: bounded_def written_key_def written_version_def)
  qed
  then show ?thesis by (auto simp: written_base_def)
qed

definition written_tokens :: "LUT \<Rightarrow> written \<Rightarrow> token list" where
  "written_tokens pkgs w =
     map Tok (block_text (wr_blocks w)) @ map Tok (the (range_text (wr_range w))) @ [ATOM (written_base pkgs w)]
     @ (if wr_slot w = None \<and> wr_mark w = None then [] else [slot_action (slot_text (wr_slot w) (wr_mark w))])
     @ (case wr_repository w of None \<Rightarrow> [] | Some r \<Rightarrow> [REPOSITORY r])
     @ (if wr_flags w = [] then [] else [atomflags_action (flags_text (wr_flags w))])"

lemma lex_token:
  assumes "rule_choice pick" "takes (map fst (depend_rules L)) t u i" "snd (depend_rules L ! i) t = emit x"
  shows "depend_lex pick L (t @ u) = lexed_prepend [x] (depend_lex pick L u)"
  using run_lexer_token [OF assms(1,2)] assms(3) by (simp add: depend_lex_def emit_def)

lemma lex_char:
  assumes "rule_choice pick" "c \<in> set ''<>=!()~''" "c = CHR ''!'' \<Longrightarrow> prefix_matches pat_use_select (c # u) = []"
  shows "depend_lex pick L (c # u) = lexed_prepend [Tok c] (depend_lex pick L u)"
  using lex_token [OF assms(1) takes_char [OF assms(2,3)]] char_rule_index(3) [OF assms(2)] by simp

lemma lex_blank:
  assumes "rule_choice pick" "u \<noteq> []" "hd u \<notin> set blanks"
  shows "depend_lex pick L (CHR '' '' # u) = depend_lex pick L u"
  using run_lexer_step [OF assms(1) takes_blank [OF assms(2,3)], of L] by (simp add: depend_lex_def depend_rules_def)

lemma lex_range:
  assumes "rule_choice pick" "range_text rng = Some s"
  shows "depend_lex pick L (s @ u) = lexed_prepend (map Tok s) (depend_lex pick L u)"
proof -
  have one: "depend_lex pick L (c # u) = lexed_prepend [Tok c] (depend_lex pick L u)" if "c \<in> set ''<>=~''" for c u
    using that by (intro lex_char [OF assms(1)]) auto
  show ?thesis
    using assms(2) by (auto simp: range_text_def one split: if_splits)
qed

text \<open>Where an atom is written, no condition begins.\<close>

lemma key_no_select:
  assumes "written_ok w" "set bs \<subseteq> {CHR ''!''}"
  shows "prefix_matches pat_use_select (bs @ the (range_text (wr_range w)) @ written_key w @ u) = []"
proof -
  have mark: "\<not> occurs pat_use_select c" if "c \<in> set ''<>=~/''" for c
    using that by (auto simp: pat_occurs use_chars_def letter_def digit_def)
  have b: "CHR ''?'' \<notin> set bs" using assms(2) by auto
  obtain s where s: "range_text (wr_range w) = Some s" using assms(1) by (auto simp: written_ok_def)
  show ?thesis
  proof (cases s)
    case Nil
    have "CHR ''?'' \<notin> set (wr_category w)"
      using assms(1) identifier_chars [of "wr_category w" "CHR ''?''"] by (auto simp: written_ok_def)
    then show ?thesis
      using b Nil s mark [of "CHR ''/''"] use_select_mark
      by (intro no_match_before [where v = "bs @ wr_category w" and x = "CHR ''/''" and c = "CHR ''?''"])
        (simp_all add: written_key_def)
  next
    case (Cons x xs)
    then have "x \<in> set ''<>=~/''" using s by (auto simp: range_text_def split: if_splits)
    then show ?thesis
      using b Cons s mark [of x] use_select_mark
      by (intro no_match_before [where v = bs and x = x and c = "CHR ''?''"]) simp_all
  qed
qed

lemma lex_written:
  assumes pick: "rule_choice pick" and ok: "written_ok w" "lut_size pkgs \<noteq> 0" and u: "follows '' '' u"
  shows "depend_lex pick (Some pkgs) (written_text w @ u)
    = lexed_prepend (written_tokens pkgs w) (depend_lex pick (Some pkgs) u)"
proof -
  let ?L = "Some pkgs"
  let ?fs = "flags_text (wr_flags w) @ u"
  let ?rs = "repository_text (wr_repository w) @ ?fs"
  let ?ss = "slot_text (wr_slot w) (wr_mark w) @ ?rs"
  let ?ks = "the (range_text (wr_range w)) @ written_key w @ ?ss"
  have fs: "follows '' ['' ?fs" "depend_lex pick ?L ?fs
      = lexed_prepend (if wr_flags w = [] then [] else [atomflags_action (flags_text (wr_flags w))]) (depend_lex pick ?L u)"
    using u lex_token [OF pick takes_flags [OF flags_accepted [of "wr_flags w"]]] ok(1)
    by (auto simp: flags_text_def follows_def depend_rules_def written_ok_def)
  have rs: "follows '' :['' ?rs" "depend_lex pick ?L ?rs
      = lexed_prepend (case wr_repository w of None \<Rightarrow> [] | Some r \<Rightarrow> [REPOSITORY r]) (depend_lex pick ?L ?fs)"
    using fs(1) lex_token [OF pick takes_repo [OF _ fs(1)], of "the (wr_repository w)"] ok(1)
    by (cases "wr_repository w"; auto simp: follows_def depend_rules_def written_ok_def)+
  have ss: "follows '' :['' ?ss" "depend_lex pick ?L ?ss = lexed_prepend
      (if wr_slot w = None \<and> wr_mark w = None then [] else [slot_action (slot_text (wr_slot w) (wr_mark w))]) (depend_lex pick ?L ?rs)"
  proof -
    show "follows '' :['' ?ss"
      using rs(1) by (auto simp: follows_def slot_text_def)
    show "depend_lex pick ?L ?ss = lexed_prepend
      (if wr_slot w = None \<and> wr_mark w = None then [] else [slot_action (slot_text (wr_slot w) (wr_mark w))]) (depend_lex pick ?L ?rs)"
    proof (cases "wr_slot w = None \<and> wr_mark w = None")
      case False
      then have slot: "slot_ok (wr_slot w) (wr_mark w)" using written_slot_ok [OF ok(1)] by blast
      then have "tl (slot_text (wr_slot w) (wr_mark w)) \<noteq> []" "hd (tl (slot_text (wr_slot w) (wr_mark w))) \<noteq> CHR '':''"
        using slot_second by blast+
      then show ?thesis
        using lex_token [OF pick takes_slot [OF slot_accepted [OF slot] _ _ rs(1)], of ?L] False
        unfolding if_not_P [OF False] by (simp add: depend_rules_def)
    qed (simp add: slot_text_def)
  qed
  have ks: "depend_lex pick ?L (written_key w @ ?ss)
      = lexed_prepend [ATOM (written_base pkgs w)] (depend_lex pick ?L ?ss)"
    using written_atom_init [OF ok] key_accepted [OF ok(1)] ss(1) ok(1)
    by (intro lex_token [OF pick takes_atom [where category = "wr_category w"]])
      (simp_all add: written_key_def written_ok_def depend_rules_def atom_action_def emit_def)
  have bs: "depend_lex pick ?L (block_text (wr_blocks w) @ ?ks)
      = lexed_prepend (map Tok (block_text (wr_blocks w))) (depend_lex pick ?L ?ks)"
    using lex_char [OF pick, of "CHR ''!''"] key_no_select [OF ok(1), of "''!''"] key_no_select [OF ok(1), of "''!!''"]
    by (cases "wr_blocks w") simp_all
  obtain s where s: "range_text (wr_range w) = Some s" using ok(1) by (auto simp: written_ok_def)
  show ?thesis
    using bs lex_range [OF pick s, of ?L "written_key w @ ?ss"] ks ss(2) rs(2) fs(2) s
    by (simp add: written_text_def written_tokens_def)
qed

text \<open>What the atom becomes, field by field.\<close>

definition atom_denotes :: "LUT \<Rightarrow> written \<Rightarrow> Atom \<Rightarrow> bool" where
  "atom_denotes pkgs w a \<longleftrightarrow>
     atom_category a = Some (wr_category w) \<and> atom_name a = Some (wr_name w) \<and> atom_version a = written_version w
     \<and> Some (atom_id a, atom_id_flag a) = lut_get_id pkgs (wr_category w @ ''/'' @ wr_name w)
     \<and> atom_range a = wr_range w \<and> atom_blocks a = wr_blocks w
     \<and> atom_slot a = map_option fst (wr_slot w) \<and> atom_sub_slot a = sub_slot_read (wr_slot w) (wr_mark w)
     \<and> atom_slot_opts a = mark_opts (wr_mark w) \<and> atom_repository a = wr_repository w
     \<and> map (\<lambda>f. (flag_name f, flag_option f)) (atom_useflags a) = map (\<lambda>f. (Some (fst f), snd f)) (wr_flags w)"

lemma written_derives:
  assumes "written_ok w" "lut_size pkgs \<noteq> 0"
  shows "\<exists>a. g_atom (written_tokens pkgs w) a \<and> atom_denotes pkgs w a"
proof -
  let ?b = "written_base pkgs w"
  obtain s where s: "range_text (wr_range w) = Some s" using assms(1) by (auto simp: written_ok_def)
  define a1 where "a1 = ?b\<lparr>atom_range := wr_range w\<rparr>"
  define a2 where "a2 = a1\<lparr>atom_blocks := wr_blocks w\<rparr>"
  define a3 where "a3 = a2\<lparr>atom_slot := map_option fst (wr_slot w), atom_sub_slot := sub_slot_read (wr_slot w) (wr_mark w),
    atom_slot_opts := mark_opts (wr_mark w)\<rparr>"
  define a4 where "a4 = a3\<lparr>atom_repository := wr_repository w\<rparr>"
  obtain gs where gs: "wr_flags w = [] \<longrightarrow> gs = []"
      "wr_flags w \<noteq> [] \<longrightarrow> atomflags_action (flags_text (wr_flags w)) = ATOM_FLAGS gs"
      "map (\<lambda>f. (flag_name f, flag_option f)) gs = map (\<lambda>f. (Some (fst f), snd f)) (wr_flags w)"
    using flags_token [of "wr_flags w"] assms(1) by (cases "wr_flags w = []") (auto simp: written_ok_def)
  have version: "g_atom_version (map Tok s @ [ATOM ?b]) a1"
    using s g_atom_version.intros [of ?b] unfolding a1_def
    by (auto simp: range_text_def split: if_splits)
  have block: "g_atom_block (map Tok (block_text (wr_blocks w)) @ map Tok s @ [ATOM ?b]) a2"
    using g_atom_block.intros [OF version] unfolding a2_def by (cases "wr_blocks w") simp_all
  let ?slot = "if wr_slot w = None \<and> wr_mark w = None then [] else [slot_action (slot_text (wr_slot w) (wr_mark w))]"
  have slot: "g_atom_slot ((map Tok (block_text (wr_blocks w)) @ map Tok s @ [ATOM ?b]) @ ?slot) a3"
  proof (cases "wr_slot w = None \<and> wr_mark w = None")
    case True
    then show ?thesis using g_atom_slot.intros(2) [OF block] by (simp add: a3_def mark_opts_def)
  next
    case False
    then show ?thesis
      using g_atom_slot.intros(1) [OF block] slot_token [OF written_slot_ok [OF assms(1)]] by (auto simp: a3_def)
  qed
  let ?repo = "case wr_repository w of None \<Rightarrow> [] | Some r \<Rightarrow> [REPOSITORY r]"
  have repo: "g_atom_repo (((map Tok (block_text (wr_blocks w)) @ map Tok s @ [ATOM ?b]) @ ?slot) @ ?repo) a4"
    using g_atom_repo.intros(1) [OF slot, of "the (wr_repository w)"] g_atom_repo.intros(2) [OF slot]
    by (cases "wr_repository w") (simp_all add: a4_def)
  have "g_atom ((((map Tok (block_text (wr_blocks w)) @ map Tok s @ [ATOM ?b]) @ ?slot) @ ?repo)
      @ (if wr_flags w = [] then [] else [atomflags_action (flags_text (wr_flags w))])) (a4\<lparr>atom_useflags := gs\<rparr>)"
    using g_atom.intros(1) [OF repo, of gs] g_atom.intros(2) [OF repo] gs(1,2) by (cases "wr_flags w = []") simp_all
  moreover have "atom_denotes pkgs w (a4\<lparr>atom_useflags := gs\<rparr>)"
    using written_atom_init [OF assms] gs(3)
    by (simp add: atom_denotes_def a4_def a3_def a2_def a1_def)
  ultimately show ?thesis
    using s by (auto simp: written_tokens_def)
qed

section \<open>Written dependencies\<close>

text \<open>Elements of a group are followed by a blank. A condition on a disabled flag begins with an
  exclamation mark.\<close>

datatype dep = D_Atom written | D_Use bool string "dep list" | D_Group "dep list"

fun dep_text :: "dep \<Rightarrow> string" where
  "dep_text (D_Atom w) = written_text w"
| "dep_text (D_Use on name ds) =
     (if on then [] else ''!'') @ name @ ''? ( '' @ concat (map (\<lambda>d. dep_text d @ '' '') ds) @ '')''"
| "dep_text (D_Group ds) = ''( '' @ concat (map (\<lambda>d. dep_text d @ '' '') ds) @ '')''"

definition deps_text :: "dep list \<Rightarrow> string" where
  "deps_text ds = (if ds = [] then [] else concat (map (\<lambda>d. dep_text d @ '' '') (butlast ds)) @ dep_text (last ds))"

fun dep_ok :: "dep \<Rightarrow> bool" where
  "dep_ok (D_Atom w) = written_ok w"
| "dep_ok (D_Use on name ds) = (name \<noteq> [] \<and> set name \<subseteq> set use_chars \<and> ds \<noteq> [] \<and> (\<forall>d \<in> set ds. dep_ok d))"
| "dep_ok (D_Group ds) = (ds \<noteq> [] \<and> (\<forall>d \<in> set ds. dep_ok d))"

text \<open>What it stands for. The name of a disabled flag keeps the question mark.\<close>

fun denotes :: "LUT \<Rightarrow> dep \<Rightarrow> expr \<Rightarrow> bool" where
  "denotes pkgs (D_Atom w) (E_Atom a) = atom_denotes pkgs w a"
| "denotes pkgs (D_Use on name ds) (E_Use t opt es) =
     (t = Some (if on then name else name @ ''?'') \<and> opt = (if on then USE_OP_ENABLE else USE_OP_DISABLE)
      \<and> list_all2 (denotes pkgs) ds es)"
| "denotes pkgs (D_Group ds) (E_Group es) = list_all2 (denotes pkgs) ds es"
| "denotes pkgs _ _ = False"

fun dep_tokens :: "LUT \<Rightarrow> dep \<Rightarrow> token list" where
  "dep_tokens pkgs (D_Atom w) = written_tokens pkgs w"
| "dep_tokens pkgs (D_Use on name ds) =
     use_select_action ((if on then [] else ''!'') @ name @ ''?'') # Tok CHR ''('' # concat (map (dep_tokens pkgs) ds) @ [Tok CHR '')'']"
| "dep_tokens pkgs (D_Group ds) = Tok CHR ''('' # concat (map (dep_tokens pkgs) ds) @ [Tok CHR '')'']"

lemma dep_text_hd: "dep_ok d \<Longrightarrow> dep_text d \<noteq> [] \<and> hd (dep_text d) \<notin> set blanks"
proof (cases d)
  case (D_Atom w)
  assume "dep_ok d"
  then have w: "written_ok w" using D_Atom by simp
  obtain s where s: "range_text (wr_range w) = Some s" using w by (auto simp: written_ok_def)
  have c: "wr_category w \<noteq> []" "hd (wr_category w) \<notin> set blanks"
    using identifier_hd [of "wr_category w"] name_no_mark [of "hd (wr_category w)"] w
    by (auto simp: written_ok_def marks_def)
  have "hd (s @ written_key w @ u) \<notin> set blanks" for u
    using c s by (auto simp: written_key_def range_text_def blanks_def split: if_splits)
  then show ?thesis
    using D_Atom s c(1) by (cases "wr_blocks w") (simp_all add: written_text_def written_key_def blanks_def)
next
  case (D_Use on name ds)
  assume "dep_ok d"
  then show ?thesis
    using D_Use by (cases name) (auto simp: blanks_def use_chars_def letter_def digit_def)
next
  case (D_Group ds)
  then show ?thesis by (simp add: blanks_def)
qed

lemma lex_select:
  assumes "rule_choice pick" "name \<noteq> []" "set name \<subseteq> set use_chars"
  shows "depend_lex pick L (((if on then [] else ''!'') @ name @ ''?'') @ u)
    = lexed_prepend [use_select_action ((if on then [] else ''!'') @ name @ ''?'')] (depend_lex pick L u)"
proof -
  have "accepts pat_use_select (((if on then [] else ''!'') @ name) @ ''?'')"
    unfolding pat_use_select_def using assms(2,3) by (intro accepts_SeqI) simp_all
  then have "takes (map fst (depend_rules L)) ((if on then [] else ''!'') @ name @ ''?'') u 5"
    using takes_select unfolding append_assoc by blast
  then show ?thesis
    by (rule lex_token [OF assms(1)]) (simp add: depend_rules_def)
qed

lemma lex_close: "rule_choice pick \<Longrightarrow> depend_lex pick L (CHR '')'' # u) = lexed_prepend [Tok CHR '')''] (depend_lex pick L u)"
  "rule_choice pick \<Longrightarrow> depend_lex pick L (CHR ''('' # u) = lexed_prepend [Tok CHR ''(''] (depend_lex pick L u)"
  by (rule lex_char; simp)+

lemma lex_elements:
  assumes pick: "rule_choice pick" and ds: "\<forall>d \<in> set ds. dep_ok d"
    and each: "\<And>d u. d \<in> set ds \<Longrightarrow> follows '' '' u \<Longrightarrow>
      depend_lex pick L (dep_text d @ u) = lexed_prepend (f d) (depend_lex pick L u)"
    and u: "u \<noteq> []" "hd u \<notin> set blanks"
  shows "depend_lex pick L (concat (map (\<lambda>d. dep_text d @ '' '') ds) @ u)
    = lexed_prepend (concat (map f ds)) (depend_lex pick L u)"
  using ds each
proof (induction ds)
  case (Cons d ds)
  let ?rest = "concat (map (\<lambda>d. dep_text d @ '' '') ds) @ u"
  have "?rest \<noteq> [] \<and> hd ?rest \<notin> set blanks"
    using Cons.prems(1) u dep_text_hd by (cases ds) auto
  then have "depend_lex pick L (CHR '' '' # ?rest) = depend_lex pick L ?rest"
    by (intro lex_blank [OF pick]) simp_all
  then show ?case
    using Cons by (simp add: follows_def)
qed simp

lemma lex_group:
  assumes "rule_choice pick" "\<forall>d \<in> set ds. dep_ok d"
    and "\<And>d u. d \<in> set ds \<Longrightarrow> follows '' '' u \<Longrightarrow>
      depend_lex pick L (dep_text d @ u) = lexed_prepend (f d) (depend_lex pick L u)"
  shows "depend_lex pick L (''( '' @ concat (map (\<lambda>d. dep_text d @ '' '') ds) @ '')'' @ u)
    = lexed_prepend (Tok CHR ''('' # concat (map f ds) @ [Tok CHR '')'']) (depend_lex pick L u)"
proof -
  let ?rest = "concat (map (\<lambda>d. dep_text d @ '' '') ds) @ CHR '')'' # u"
  have "depend_lex pick L ?rest = lexed_prepend (concat (map f ds)) (depend_lex pick L (CHR '')'' # u))"
    using assms by (intro lex_elements) (auto simp: blanks_def)
  moreover have "?rest \<noteq> []" "hd ?rest \<notin> set blanks"
    using assms(2) dep_text_hd by (cases ds; auto simp: blanks_def)+
  then have "depend_lex pick L (CHR '' '' # ?rest) = depend_lex pick L ?rest"
    by (rule lex_blank [OF assms(1)])
  ultimately show ?thesis
    using lex_close [OF assms(1)] by simp
qed

lemma lex_dep:
  assumes "rule_choice pick" "lut_size pkgs \<noteq> 0" "dep_ok d" "follows '' '' u"
  shows "depend_lex pick (Some pkgs) (dep_text d @ u) = lexed_prepend (dep_tokens pkgs d) (depend_lex pick (Some pkgs) u)"
  using assms(3,4)
proof (induction d arbitrary: u)
  case (D_Atom w)
  then show ?case using lex_written [OF assms(1) _ assms(2)] by simp
next
  case (D_Group ds)
  then have "depend_lex pick (Some pkgs) (''( '' @ concat (map (\<lambda>d. dep_text d @ '' '') ds) @ '')'' @ u)
    = lexed_prepend (Tok CHR ''('' # concat (map (dep_tokens pkgs) ds) @ [Tok CHR '')'']) (depend_lex pick (Some pkgs) u)"
    by (intro lex_group [OF assms(1)]) auto
  then show ?case by simp
next
  case (D_Use on name ds)
  let ?g = "''( '' @ concat (map (\<lambda>d. dep_text d @ '' '') ds) @ '')'' @ u"
  have "depend_lex pick (Some pkgs) ?g
    = lexed_prepend (Tok CHR ''('' # concat (map (dep_tokens pkgs) ds) @ [Tok CHR '')'']) (depend_lex pick (Some pkgs) u)"
    using D_Use by (intro lex_group [OF assms(1)]) auto
  moreover have "depend_lex pick (Some pkgs) (CHR '' '' # ?g) = depend_lex pick (Some pkgs) ?g"
    by (intro lex_blank [OF assms(1)]) (simp_all add: blanks_def)
  moreover have "name \<noteq> []" "set name \<subseteq> set use_chars" using D_Use.prems(1) by simp_all
  ultimately show ?case
    using lex_select [OF assms(1), of name "Some pkgs" on "CHR '' '' # ?g"] by simp
qed

lemma deps_derive:
  assumes "\<And>d. d \<in> set ds \<Longrightarrow> \<exists>e. g_single (f d) e \<and> R d e" "ds \<noteq> []"
  shows "\<exists>es. g_expr (concat (map f ds)) es \<and> list_all2 R ds es"
  using assms
proof (induction ds)
  case (Cons d ds)
  obtain e where e: "g_single (f d) e" "R d e" using Cons.prems(1) [of d] by auto
  show ?case
  proof (cases "ds = []")
    case True
    then show ?thesis using g_expr_g_single.intros(1) [OF e(1)] e(2) by (intro exI [of _ "[e]"]) simp
  next
    case False
    then obtain es where "g_expr (concat (map f ds)) es" "list_all2 R ds es" using Cons by auto
    then show ?thesis using g_expr_g_single.intros(2) [OF e(1)] e(2) by (intro exI [of _ "e # es"]) simp
  qed
qed simp

lemma dep_derives:
  assumes "lut_size pkgs \<noteq> 0" "dep_ok d"
  shows "\<exists>e. g_single (dep_tokens pkgs d) e \<and> denotes pkgs d e"
  using assms(2)
proof (induction d)
  case (D_Atom w)
  then obtain a where "g_atom (written_tokens pkgs w) a" "atom_denotes pkgs w a"
    using written_derives [OF _ assms(1)] by auto
  then show ?case using g_expr_g_single.intros(3) by (intro exI [of _ "E_Atom a"]) simp
next
  case (D_Use on name ds)
  have name: "name \<noteq> []" "hd name \<noteq> CHR ''!''"
    using D_Use.prems by (cases name; auto simp: use_chars_def letter_def digit_def)+
  obtain es where "g_expr (concat (map (dep_tokens pkgs) ds)) es" "list_all2 (denotes pkgs) ds es"
    using deps_derive [of ds "dep_tokens pkgs" "denotes pkgs"] D_Use by auto
  then show ?case
    using g_expr_g_single.intros(4) [of _ es] use_select_names [OF name]
    by (intro exI [of _ "E_Use (Some (if on then name else name @ ''?'')) (if on then USE_OP_ENABLE else USE_OP_DISABLE) es"])
      simp
next
  case (D_Group ds)
  obtain es where "g_expr (concat (map (dep_tokens pkgs) ds)) es" "list_all2 (denotes pkgs) ds es"
    using deps_derive [of ds "dep_tokens pkgs" "denotes pkgs"] D_Group by auto
  then show ?case
    using g_expr_g_single.intros(5) [of _ es] by (intro exI [of _ "E_Group es"]) simp
qed

lemma lex_deps:
  assumes "rule_choice pick" "lut_size pkgs \<noteq> 0" "\<forall>d \<in> set ds. dep_ok d"
  shows "depend_lex pick (Some pkgs) (deps_text ds) = Lexed (concat (map (dep_tokens pkgs) ds))"
proof (cases "ds = []")
  case True
  then show ?thesis by (simp add: deps_text_def depend_lex_def)
next
  case False
  then have ds: "ds = butlast ds @ [last ds]" "dep_ok (last ds)" "\<forall>d \<in> set (butlast ds). dep_ok d"
    using assms(3) by (auto dest: in_set_butlastD)
  have last: "depend_lex pick (Some pkgs) (dep_text (last ds)) = Lexed (dep_tokens pkgs (last ds))"
    using lex_dep [OF assms(1,2) ds(2), of "[]"] by (simp add: follows_def depend_lex_def)
  have "depend_lex pick (Some pkgs) (deps_text ds)
    = lexed_prepend (concat (map (dep_tokens pkgs) (butlast ds))) (depend_lex pick (Some pkgs) (dep_text (last ds)))"
    unfolding deps_text_def using False ds(3) dep_text_hd [OF ds(2)] lex_dep [OF assms(1,2)]
    by (simp add: lex_elements [OF assms(1)])
  also have "\<dots> = Lexed (concat (map (dep_tokens pkgs) (butlast ds @ [last ds])))"
    by (simp add: last)
  finally show ?thesis using ds(1) by simp
qed

lemma deps_derive_program:
  assumes "lut_size pkgs \<noteq> 0" "\<forall>d \<in> set ds. dep_ok d"
  shows "\<exists>es. g_program (concat (map (dep_tokens pkgs) ds)) es \<and> list_all2 (denotes pkgs) ds es"
proof (cases "ds = []")
  case True
  then show ?thesis using g_program.intros(2) by simp
next
  case False
  then show ?thesis
    using deps_derive [of ds "dep_tokens pkgs" "denotes pkgs"] dep_derives [OF assms(1)] assms(2)
      g_program.intros(1) by blast
qed

section \<open>From a text to the nodes\<close>

definition Dependency_of_text ::
    "(pattern list \<Rightarrow> string \<Rightarrow> (nat \<times> nat) option) \<Rightarrow> LUT \<Rightarrow> (string \<Rightarrow> flag_store \<times> nat \<Rightarrow> flag_store \<times> nat)
      \<Rightarrow> (nat \<Rightarrow> U64) \<Rightarrow> Dependency list \<Rightarrow> string \<Rightarrow> flag_store \<times> nat
      \<Rightarrow> ((int \<times> py_exc option \<times> Dependency list) \<times> flag_store \<times> nat) option" where
  "Dependency_of_text pick pkgs abort addr self input s =
     on_tokens (depend_lex pick (Some pkgs) input)
       (\<lambda>tokens. PyDependency_init (\<lambda>_. tokens) abort addr self [A_Str input] s)"

definition Atom_of_text ::
    "(pattern list \<Rightarrow> string \<Rightarrow> (nat \<times> nat) option) \<Rightarrow> LUT \<Rightarrow> (string \<Rightarrow> flag_store \<times> nat \<Rightarrow> flag_store \<times> nat)
      \<Rightarrow> (nat \<Rightarrow> U64) \<Rightarrow> Atom \<Rightarrow> string \<Rightarrow> flag_store \<times> nat
      \<Rightarrow> ((int \<times> py_exc option \<times> Atom) \<times> flag_store \<times> nat) option" where
  "Atom_of_text pick pkgs abort addr self input s =
     on_tokens (depend_lex pick (Some pkgs) input)
       (\<lambda>tokens. PyAtom_init (\<lambda>_. tokens) abort addr self [A_Str input] s)"

text \<open>The parser on a text, as the constructors and \<open>ebuild_metadata_init\<close> call it.\<close>

definition depend_parse_text ::
    "(pattern list \<Rightarrow> string \<Rightarrow> (nat \<times> nat) option) \<Rightarrow> LUT \<Rightarrow> (string \<Rightarrow> flag_store \<times> nat \<Rightarrow> flag_store \<times> nat)
      \<Rightarrow> (nat \<Rightarrow> U64) \<Rightarrow> string \<Rightarrow> flag_store \<times> nat \<Rightarrow> (Dependency list \<times> flag_store \<times> nat) option" where
  "depend_parse_text pick pkgs abort addr input s =
     on_tokens (depend_lex pick (Some pkgs) input) (\<lambda>tokens. depend_parse (\<lambda>_. tokens) abort addr input s)"

lemma Dependency_of_text_parse:
  "Dependency_of_text pick pkgs abort addr self input s =
     map_option (\<lambda>(d, s). (if d = [] then (- 1, None, self) else (0, None, d), s))
       (depend_parse_text pick pkgs abort addr input s)"
proof -
  have init: "PyDependency_init (\<lambda>_. tokens) abort addr self [A_Str input] s =
      map_option (\<lambda>(d, s). (if d = [] then (- 1, None, self) else (0, None, d), s)) (depend_parse (\<lambda>_. tokens) abort addr input s)"
    for tokens
    by (cases "depend_parse (\<lambda>_. tokens) abort addr input s") (auto simp: PyDependency_init_def)
  show ?thesis
    unfolding Dependency_of_text_def depend_parse_text_def init
    by (cases "depend_lex pick (Some pkgs) input") (simp_all add: on_tokens_def)
qed

lemma Atom_of_text_parse:
  "Atom_of_text pick pkgs abort addr self input s =
     depend_parse_text pick pkgs abort addr input s \<bind> (\<lambda>(out, s).
       if out = [] then Some ((- 1, None, self), s)
       else map_option (\<lambda>atom. ((0, None, atom), s)) (dep_atom (hd out)))"
proof -
  have init: "PyAtom_init (\<lambda>_. tokens) abort addr self [A_Str input] s =
      depend_parse (\<lambda>_. tokens) abort addr input s \<bind> (\<lambda>(out, s).
        if out = [] then Some ((- 1, None, self), s)
        else map_option (\<lambda>atom. ((0, None, atom), s)) (dep_atom (hd out)))" for tokens
    by (cases "depend_parse (\<lambda>_. tokens) abort addr input s") (auto simp: PyAtom_init_def atom_parse_def split: option.split)
  show ?thesis
    unfolding Atom_of_text_def depend_parse_text_def init
    by (cases "depend_lex pick (Some pkgs) input") (simp_all add: on_tokens_def)
qed

lemma depend_text_nodes:
  assumes "rule_choice pick" "lut_size pkgs \<noteq> 0" "ds \<noteq> []" "\<forall>d \<in> set ds. dep_ok d"
    and "flags_ready addr m (length (deps_text ds) + n) p k"
  obtains es p' k' where "list_all2 (denotes pkgs) ds es" "es \<noteq> []"
    "depend_parse_text pick pkgs abort addr (deps_text ds) (p, k) = Some (map (node_of p') es, p', k')"
    "ids_kept p p'" "registered p' (concat (map uses_of es))" "flags_ready addr m n p' k'"
proof -
  let ?ts = "concat (map (dep_tokens pkgs) ds)"
  have lex: "depend_lex pick (Some pkgs) (deps_text ds) = Lexed ?ts"
    using lex_deps assms(1,2,4) by blast
  obtain es where es: "g_program ?ts es" "list_all2 (denotes pkgs) ds es"
    using deps_derive_program assms(2,4) by blast
  have "length ?ts + n \<le> length (deps_text ds) + n"
    using run_lexer_length lex unfolding depend_lex_def by fastforce
  then have ready: "flags_ready addr m (length ?ts + n) p k"
    using flags_ready_less [OF assms(5), of 0] by simp
  obtain p' k' where "depend_parse (\<lambda>_. Some ?ts) abort addr (deps_text ds) (p, k) = Some (map (node_of p') es, p', k')"
      "ids_kept p p'" "registered p' (concat (map uses_of es))" "flags_ready addr m n p' k'"
    by (rule depend_parse_nodes_rest [where lexer = "\<lambda>_. Some ?ts" and input = "deps_text ds" and abort = abort and ts = ?ts,
        OF refl es(1) ready])
  moreover have "es \<noteq> []" using es(2) assms(3) by auto
  ultimately show ?thesis
    using that es(2) by (simp add: depend_parse_text_def on_tokens_def lex)
qed

text \<open>C4. Constructing a \<open>Dependency\<close> from a text in the notation of Gentoo gives, in order, the
  nodes of what is written, for every way the generated lexer may choose between its rules:
  every atom has the category, name, version, range, blocker, slot, repository and flags it is
  written with and the id of its package, every group its elements, and every condition its flag.
  The exceptions are a condition on a disabled flag, whose flag keeps the question mark in its name, and a
  slot with a star or an equals sign, which the sub-slot keeps.\<close>

theorem dependency_from_text:
  assumes "rule_choice pick" "lut_size pkgs \<noteq> 0" "ds \<noteq> []" "\<forall>d \<in> set ds. dep_ok d"
    and "flags_ready addr m (length (deps_text ds)) p k"
  shows "\<exists>es p' k'. list_all2 (denotes pkgs) ds es
    \<and> Dependency_of_text pick pkgs abort addr self (deps_text ds) (p, k) = Some ((0, None, map (node_of p') es), p', k')
    \<and> registered p' (concat (map uses_of es)) \<and> ids_kept p p'"
proof -
  obtain es p' k' where es: "list_all2 (denotes pkgs) ds es" "es \<noteq> []"
      "depend_parse_text pick pkgs abort addr (deps_text ds) (p, k) = Some (map (node_of p') es, p', k')"
      "ids_kept p p'" "registered p' (concat (map uses_of es))"
    using depend_text_nodes [OF assms(1-4), of addr m 0 p k abort] assms(5) by (metis add.right_neutral)
  then show ?thesis
    by (intro exI [of _ es] exI [of _ p'] exI [of _ k']) (simp add: Dependency_of_text_parse)
qed

definition openssl :: written where
  "openssl = \<lparr>wr_blocks = ATOM_BLOCK_NONE, wr_range = ATOM_VERSION_GE, wr_category = ''dev-libs'',
     wr_name = ''openssl'', wr_version = Some ([num 1, num 1, (ATOM_PREFIX_RC, 2)], Some 1),
     wr_slot = Some (''0'', Some ''3''), wr_mark = Some CHR ''='', wr_repository = None, wr_flags = [(''zlib'', ATOM_USE_DISABLE)]\<rparr>"

lemma openssl_text: "deps_text [D_Use True ''ssl'' [D_Atom openssl]] = ''ssl? ( >=dev-libs/openssl-1.1_rc2-r1:0/3=[-zlib] )''"
  by code_simp

lemma openssl_ok: "dep_ok (D_Use True ''ssl'' [D_Atom openssl])"
proof -
  have "accepts pat_identifier ''dev-libs''" "accepts pat_identifier ''openssl''" "accepts pat_slotname ''0''"
    "accepts pat_slotname ''3''" "accepts pat_identifier ''zlib''" "set ''ssl'' \<subseteq> set use_chars"
    "range_text ATOM_VERSION_GE \<noteq> None"
    by code_simp+
  then show ?thesis
    by (simp add: written_ok_def openssl_def bounded_def version_shape_def rev_of_def)
qed

lemma dependency_from_text_witness:
  "\<exists>a p' k'. Dependency_of_text first_rule (lut_new 32) (\<lambda>_ s. s) spaced []
      ''ssl? ( >=dev-libs/openssl-1.1_rc2-r1:0/3=[-zlib] )'' (empty_flags, 0)
    = Some ((0, None, [Dependency USE_OP_ENABLE (target_id p' (Some ''ssl'')) None
        [Dependency USE_OP_DISABLE 0 (Some a) []]]), p', k')
    \<and> atom_name a = Some ''openssl'' \<and> atom_range a = ATOM_VERSION_GE \<and> atom_sub_slot a = Some ''3=''"
proof -
  let ?ds = "[D_Use True ''ssl'' [D_Atom openssl]]"
  have "flags_ready spaced 256 (length (deps_text ?ds)) empty_flags 0"
    by (rule fresh_flags_ready) (simp add: openssl_text)
  moreover have "lut_size (lut_new 32) \<noteq> 0" by (simp add: lut_new_def)
  ultimately obtain es p' k' where es: "list_all2 (denotes (lut_new 32)) ?ds es"
    "Dependency_of_text first_rule (lut_new 32) (\<lambda>_ s. s) spaced [] (deps_text ?ds) (empty_flags, 0)
      = Some ((0, None, map (node_of p') es), p', k')"
    using dependency_from_text [OF first_choice.rule_choice_axioms, of "lut_new 32" ?ds] openssl_ok
    by (metis empty_iff empty_set list.distinct(1) set_ConsD)
  obtain e where e: "es = [e]" "denotes (lut_new 32) (D_Use True ''ssl'' [D_Atom openssl]) e"
    using es(1) by (auto simp: list_all2_Cons1)
  then obtain a where a: "e = E_Use (Some ''ssl'') USE_OP_ENABLE [E_Atom a]" "atom_denotes (lut_new 32) openssl a"
    by (cases e) (auto simp: list_all2_Cons1 elim: denotes.elims)
  then show ?thesis
    using es(2) e(1) unfolding openssl_text
    by (intro exI [of _ a] exI [of _ p'] exI [of _ k']) (simp add: atom_denotes_def openssl_def)
qed

section \<open>Texts the code does not survive\<close>

lemma atom_lex_crash:
  assumes "rule_choice pick" "lut_size pkgs \<noteq> 0" "accepts pat_identifier category"
    and "accepts pat_atom (category @ ''/'' @ rest)" "version_string rest = Some v" "\<not> valid_version v"
    and "follows '' :['' u"
  shows "depend_lex pick (Some pkgs) (category @ ''/'' @ rest @ u) = Lex_Crash"
proof -
  let ?t = "category @ ''/'' @ rest"
  have "CHR ''/'' \<notin> set category"
    using assms(3) identifier_chars [of category "CHR ''/''"] by auto
  then have "strchr ?t CHR ''/'' = Some (length category)"
    using strchr_append [of "CHR ''/''" category rest] by simp
  then have "atom_init (Some pkgs) PyAtom_new ?t = None"
    using atom_init_cases [of ?t "length category" pkgs PyAtom_new] assms(2,5,6) by auto
  then have "depend_lex pick (Some pkgs) (?t @ u) = Lex_Crash"
    using run_lexer_step [OF assms(1) takes_atom [OF assms(4) _ assms(3,7)], of rest "Some pkgs"]
    by (simp add: depend_lex_def depend_rules_def atom_action_def)
  then show ?thesis by simp
qed

text \<open>C25. The pattern of atoms takes names that \<open>atom_init\<close> cannot read: when what it takes for the
  version has a suffix of no known length, the lexer itself dereferences NULL, so a text that begins
  with such an atom, as in \<open>cat/pkg-1_abcdef5\<close>, ends the process whether an atom or a
  dependency is made from it.\<close>

theorem atom_text_crash:
  assumes "rule_choice pick" "lut_size pkgs \<noteq> 0" "accepts pat_identifier category"
    and "accepts pat_atom (category @ ''/'' @ rest)" "version_string rest = Some v" "\<not> valid_version v"
    and "follows '' :['' u"
  shows "Atom_of_text pick pkgs abort addr a (category @ ''/'' @ rest @ u) s = None
    \<and> Dependency_of_text pick pkgs abort addr d (category @ ''/'' @ rest @ u) s = None"
  using atom_lex_crash [OF assms] by (simp add: Atom_of_text_def Dependency_of_text_def on_tokens_def)

lemma atom_text_crash_witness:
  "Atom_of_text longest_rule (lut_new 32) (\<lambda>_ s. s) spaced PyAtom_new ''cat/pkg-1_abcdef5'' (empty_flags, 0) = None"
proof -
  have "accepts pat_identifier ''cat''" "accepts pat_atom (''cat'' @ ''/'' @ ''pkg-1_abcdef5'')"
    "version_string ''pkg-1_abcdef5'' = Some ''1_abcdef5''" "\<not> valid_version ''1_abcdef5''"
    by code_simp+
  moreover have "lut_size (lut_new 32) \<noteq> 0" by (simp add: lut_new_def)
  ultimately show ?thesis
    using atom_text_crash [OF longest_choice.rule_choice_axioms, of "lut_new 32" "''cat''" "''pkg-1_abcdef5''"
        "''1_abcdef5''" "[]"] by (simp add: follows_def)
qed

text \<open>A character that begins no token is an error, which the constructors do not turn into an
  exception.\<close>

lemma stray_character:
  assumes "rule_choice pick" "c \<in> set ''@#$%&*+.;{}'' "
  shows "\<exists>r s'. Dependency_of_text pick pkgs abort addr d (c # text) s = Some (r, s') \<and> raised r = Some SystemError"
proof -
  have "\<not> starts (fst r) c" if "r \<in> set (depend_rules (Some pkgs))" for r
    using that assms(2)
    by (auto simp: depend_rules_def char_rule_def pat_starts use_chars_def letter_def digit_def blanks_def)
  then have "depend_lex pick (Some pkgs) (c # text) = Lex_Error"
    unfolding depend_lex_def by (intro run_lexer_stuck [OF assms(1)]) auto
  then show ?thesis
    by (simp add: Dependency_of_text_def on_tokens_def PyDependency_init_def depend_parse_def raised_def)
qed

text \<open>A package whose name ends like \<open>-100dpi\<close> loses that part to the version.\<close>

lemma name_taken_for_version:
  "accepts pat_atom ''media-fonts/font-adobe-100dpi''" "find_version ''font-adobe-100dpi'' = Some 10"
  "version_string ''font-adobe-100dpi'' = Some ''100dpi''" "valid_version ''100dpi''"
  by code_simp+

end
