(* ===== verification/RequiredUseText.thy ===== *)
theory RequiredUseText
  imports DependLexer
begin

text \<open>
  The lexer of autogentoo/cportage/requireduse.y, and conditions of REQUIRED_USE as they are written:
  their texts, the tokens the lexer cuts them into and the nodes a \<open>RequiredUse\<close> made from the text
  consists of.
\<close>

section \<open>The lexer\<close>

definition pat_ru_identifier :: pattern where
  "pat_ru_identifier = P_Seq (P_In (letter @ ''_'' @ digit)) (P_Star (P_In (letter @ ''_'' @ digit @ ''-+'')))"

definition ru_char_rule :: "char \<Rightarrow> ru_token lex_rule" where
  "ru_char_rule c = (P_Char c, \<lambda>_. emit (R_Char c))"

definition required_use_rules :: "ru_token lex_rule list" where
  "required_use_rules =
     [(P_Char CHR 0x0A, \<lambda>_. Some None),
      (P_Plus (P_In blanks), \<lambda>_. Some None),
      (P_Word ''??'', \<lambda>_. emit (R_Select USE_OP_MOST_ONE)),
      (P_Word ''||'', \<lambda>_. emit (R_Select USE_OP_LEAST_ONE)),
      (P_Word ''^^'', \<lambda>_. emit (R_Select USE_OP_EXACT_ONE)),
      (P_Word ''(+)'', \<lambda>_. emit (R_Default ATOM_DEFAULT_ON)),
      (P_Word ''(-)'', \<lambda>_. emit (R_Default ATOM_DEFAULT_OFF))]
     @ map ru_char_rule ''!?()''
     @ [(pat_ru_identifier, \<lambda>yytext. emit (R_Ident yytext))]"

definition required_use_lex ::
    "(pattern list \<Rightarrow> string \<Rightarrow> (nat \<times> nat) option) \<Rightarrow> string \<Rightarrow> ru_token lexed" where
  "required_use_lex pick = run_lexer pick required_use_rules"

definition RequiredUse_of_text ::
    "(pattern list \<Rightarrow> string \<Rightarrow> (nat \<times> nat) option) \<Rightarrow> (string \<Rightarrow> flag_store \<times> nat \<Rightarrow> flag_store \<times> nat)
      \<Rightarrow> (nat \<Rightarrow> U64) \<Rightarrow> RequiredUse list \<Rightarrow> string \<Rightarrow> flag_store \<times> nat
      \<Rightarrow> ((int \<times> py_exc option \<times> RequiredUse list) \<times> flag_store \<times> nat) option" where
  "RequiredUse_of_text pick abort addr self input s =
     on_tokens (required_use_lex pick input)
       (\<lambda>tokens. PyRequiredUse_init (\<lambda>_. tokens) abort addr self [A_Str input] s)"

text \<open>The alternatives start with characters that differ, but for the default marks and the
  parenthesis, and the two question marks and the one.\<close>

lemma required_use_patterns:
  "map fst required_use_rules = [P_Char CHR 0x0A, P_Plus (P_In blanks), P_Word ''??'', P_Word ''||'', P_Word ''^^'',
     P_Word ''(+)'', P_Word ''(-)'', P_Char CHR ''!'', P_Char CHR ''?'', P_Char CHR ''('', P_Char CHR '')'', pat_ru_identifier]"
  by (simp add: required_use_rules_def ru_char_rule_def)

lemma ru_identifier_starts: "starts pat_ru_identifier c \<longleftrightarrow> c \<in> set (letter @ ''_'' @ digit)"
  by (simp add: pat_ru_identifier_def)

lemma ru_identifier_occurs: "occurs pat_ru_identifier c \<longleftrightarrow> c \<in> set (letter @ digit @ ''_-+'')"
  by (auto simp: pat_ru_identifier_def)

lemma ru_identifier_hd: "accepts pat_ru_identifier s \<Longrightarrow> s \<noteq> [] \<and> hd s \<in> set (letter @ ''_'' @ digit)"
  using accepts_starts [of pat_ru_identifier s] ru_identifier_starts [of "hd s"]
  by (cases s) (auto simp: pat_ru_identifier_def accepts_Seq)

definition ru_patterns_list :: "pattern list" where
  "ru_patterns_list = [P_Char CHR 0x0A, P_Plus (P_In blanks), P_Word ''??'', P_Word ''||'', P_Word ''^^'',
     P_Word ''(+)'', P_Word ''(-)'', P_Char CHR ''!'', P_Char CHR ''?'', P_Char CHR ''('', P_Char CHR '')'', pat_ru_identifier]"

text \<open>The rule a token is taken by, and the rules that start with the same character.\<close>

definition ru_rivals :: "char \<Rightarrow> nat list" where
  "ru_rivals c = [j \<leftarrow> [0..<12]. starts (ru_patterns_list ! j) c]"

lemma ru_rivals_eval:
  "ru_rivals CHR ''!'' = [7]" "ru_rivals CHR ''?'' = [2, 8]" "ru_rivals CHR ''('' = [5, 6, 9]"
  "ru_rivals CHR '')'' = [10]" "ru_rivals CHR ''|'' = [3]" "ru_rivals CHR ''^'' = [4]" "ru_rivals CHR '' '' = [1]"
  "\<forall>c \<in> set (letter @ ''_'' @ digit). ru_rivals c = [11]"
  by code_simp+

lemma ru_takesI:
  assumes "t \<noteq> []" "ru_rivals (hd t) = js" "i < 12" "accepts (map fst required_use_rules ! i) t"
    and "\<And>j. j \<in> set js \<Longrightarrow> j < i \<Longrightarrow> prefix_matches (map fst required_use_rules ! j) (t @ u) = []"
    and "\<And>j m. j \<in> set js \<Longrightarrow> i \<le> j \<Longrightarrow> m \<in> set (prefix_matches (map fst required_use_rules ! j) (t @ u)) \<Longrightarrow> m \<le> length t"
  shows "takes (map fst required_use_rules) t u i"
proof -
  have none: "prefix_matches (map fst required_use_rules ! j) (t @ u) = []" if "j < 12" "j \<notin> set js" for j
  proof (rule no_start)
    show "\<not> starts (map fst required_use_rules ! j) (hd (t @ u))"
      using that assms(1,2) unfolding ru_rivals_def ru_patterns_list_def required_use_patterns by auto
  qed
  have "length (map fst required_use_rules) = 12"
    by (simp add: required_use_rules_def)
  then show ?thesis
    unfolding takes_def using assms none by (metis (no_types, lifting) empty_iff empty_set less_trans)
qed

text \<open>A question mark ends a condition unless another follows it, and a parenthesis opens a group unless
  it opens a default.\<close>

definition apart :: "char \<Rightarrow> string \<Rightarrow> bool" where
  "apart c u \<longleftrightarrow> u = [] \<or> (c = CHR ''?'' \<longrightarrow> hd u \<noteq> CHR ''?'') \<and> (c = CHR ''('' \<longrightarrow> hd u \<noteq> CHR ''+'' \<and> hd u \<noteq> CHR ''-'')"

lemma ru_takes_char:
  assumes "(c, i) \<in> {(CHR ''!'', 7), (CHR ''?'', 8), (CHR ''('', 9), (CHR '')'', 10)}" "apart c u"
  shows "takes (map fst required_use_rules) [c] u i"
proof (rule ru_takesI [OF _ refl])
  show "accepts (map fst required_use_rules ! i) [c]"
    using assms(1) by (auto simp: required_use_patterns)
  fix j
  assume j: "j \<in> set (ru_rivals (hd [c]))"
  show "prefix_matches (map fst required_use_rules ! j) ([c] @ u) = []" if "j < i"
    using that j assms ru_rivals_eval
    by (cases u) (auto simp: required_use_patterns apart_def numeral_eq_Suc intro!: word_needs_all)
  show "m \<le> length [c]" if m: "i \<le> j" "m \<in> set (prefix_matches (map fst required_use_rules ! j) ([c] @ u))" for m
  proof -
    have "map fst required_use_rules ! j = P_Class (\<lambda>d. d = c)"
      using assms(1) j m(1) ru_rivals_eval by (auto simp: required_use_patterns P_Char_def)
    then show ?thesis
      using m(2) class_matches_one [of m _ "[c] @ u"] by simp
  qed
qed (use assms(1) in auto)

lemma ru_takes_select:
  assumes "(w, i) \<in> {(''??'', 2), (''||'', 3), (''^^'', 4)}"
  shows "takes (map fst required_use_rules) w u i"
proof (rule ru_takesI [OF _ refl])
  show "accepts (map fst required_use_rules ! i) w"
    using assms by (auto simp: required_use_patterns)
  fix j
  assume j: "j \<in> set (ru_rivals (hd w))"
  show "prefix_matches (map fst required_use_rules ! j) (w @ u) = []" if "j < i"
    using that j assms ru_rivals_eval by auto
  show "m \<le> length w" if m: "i \<le> j" "m \<in> set (prefix_matches (map fst required_use_rules ! j) (w @ u))" for m
  proof -
    have "map fst required_use_rules ! j = P_Word w \<or> (\<exists>p. map fst required_use_rules ! j = P_Class p)" "length w = 2"
      using assms j m(1) ru_rivals_eval by (auto simp: required_use_patterns P_Char_def)
    then have "m = 2 \<or> m = 1"
      using m(2) word_matches class_matches_one by (metis One_nat_def)
    then show ?thesis using \<open>length w = 2\<close> by auto
  qed
qed (use assms in auto)

lemma ru_takes_identifier:
  assumes "accepts pat_ru_identifier t" "follows '' ?'' u"
  shows "takes (map fst required_use_rules) t u 11"
proof (rule ru_takesI)
  show "ru_rivals (hd t) = [11]" using ru_rivals_eval(8) ru_identifier_hd [OF assms(1)] by blast
  have "u = [] \<or> \<not> occurs pat_ru_identifier (hd u)"
    using assms(2) by (auto simp: follows_def ru_identifier_occurs letter_def digit_def)
  then have "m \<le> length t" if "m \<in> set (prefix_matches pat_ru_identifier (t @ u))" for m
    using that by (rule no_longer_match)
  then show "m \<le> length t" if "j \<in> set [11]" "m \<in> set (prefix_matches (map fst required_use_rules ! j) (t @ u))" for j m
    using that by (simp add: required_use_patterns)
qed (use assms(1) ru_identifier_hd [OF assms(1)] in \<open>simp_all add: required_use_patterns\<close>)

lemma ru_takes_blank:
  assumes "u \<noteq> []" "hd u \<notin> set blanks"
  shows "takes (map fst required_use_rules) '' '' u 1"
proof (rule ru_takesI)
  show "ru_rivals (hd '' '') = [1]" using ru_rivals_eval by simp
  have "m \<le> length '' ''" if "m \<in> set (prefix_matches (P_Plus (P_In blanks)) ('' '' @ u))" for m
    using that assms(2) by (intro no_longer_match [of u]) auto
  then show "m \<le> length '' ''" if "j \<in> set [1]" "m \<in> set (prefix_matches (map fst required_use_rules ! j) ('' '' @ u))" for j m
    using that by (simp add: required_use_patterns)
qed (simp_all add: required_use_patterns blanks_def)

section \<open>The texts\<close>

text \<open>Elements of a group are followed by a blank.\<close>

definition ru_flag_text :: "string \<Rightarrow> use_operator \<Rightarrow> string" where
  "ru_flag_text name opt = (if opt = USE_OP_DISABLE then ''!'' else []) @ name"

fun select_text :: "use_operator \<Rightarrow> string" where
  "select_text USE_OP_LEAST_ONE = ''||''"
| "select_text USE_OP_EXACT_ONE = ''^^''"
| "select_text _ = ''??''"

fun ru_text :: "ru_expr \<Rightarrow> string" where
  "ru_text (U_Flag name opt) = ru_flag_text name opt"
| "ru_text (U_Cond t opt es) = (case t of None \<Rightarrow> select_text opt | Some name \<Rightarrow> ru_flag_text name opt @ ''?'')
     @ '' ( '' @ concat (map (\<lambda>e. ru_text e @ '' '') es) @ '')''"
| "ru_text (U_Group es) = ''( '' @ concat (map (\<lambda>e. ru_text e @ '' '') es) @ '')''"

definition rus_text :: "ru_expr list \<Rightarrow> string" where
  "rus_text es = (if es = [] then [] else concat (map (\<lambda>e. ru_text e @ '' '') (butlast es)) @ ru_text (last es))"

definition ru_flag_ok :: "string \<Rightarrow> use_operator \<Rightarrow> bool" where
  "ru_flag_ok name opt \<longleftrightarrow> accepts pat_ru_identifier name \<and> opt \<in> {USE_OP_ENABLE, USE_OP_DISABLE}"

fun ru_written :: "ru_expr \<Rightarrow> bool" where
  "ru_written (U_Flag name opt) = ru_flag_ok name opt"
| "ru_written (U_Cond t opt es) = ((case t of None \<Rightarrow> opt \<in> {USE_OP_LEAST_ONE, USE_OP_EXACT_ONE, USE_OP_MOST_ONE}
     | Some name \<Rightarrow> ru_flag_ok name opt) \<and> es \<noteq> [] \<and> (\<forall>e \<in> set es. ru_written e))"
| "ru_written (U_Group es) = (es \<noteq> [] \<and> (\<forall>e \<in> set es. ru_written e))"

definition ru_flag_tokens :: "string \<Rightarrow> use_operator \<Rightarrow> ru_token list" where
  "ru_flag_tokens name opt = (if opt = USE_OP_DISABLE then [R_Char CHR ''!''] else []) @ [R_Ident name]"

fun ru_tokens :: "ru_expr \<Rightarrow> ru_token list" where
  "ru_tokens (U_Flag name opt) = ru_flag_tokens name opt"
| "ru_tokens (U_Cond t opt es) =
     (case t of None \<Rightarrow> [R_Select opt] | Some name \<Rightarrow> ru_flag_tokens name opt @ [R_Char CHR ''?''])
     @ R_Char CHR ''('' # concat (map ru_tokens es) @ [R_Char CHR '')'']"
| "ru_tokens (U_Group es) = R_Char CHR ''('' # concat (map ru_tokens es) @ [R_Char CHR '')'']"

section \<open>The tokens of a text\<close>

lemma ru_flag_hd: "ru_flag_ok name opt \<Longrightarrow> ru_flag_text name opt \<noteq> [] \<and> hd (ru_flag_text name opt) \<notin> set blanks"
  using ru_identifier_hd [of name] name_no_mark [of "hd name"]
  by (auto simp: ru_flag_ok_def ru_flag_text_def marks_def blanks_def)

lemma ru_text_hd: "ru_written e \<Longrightarrow> ru_text e \<noteq> [] \<and> hd (ru_text e) \<notin> set blanks"
proof (cases e)
  case (U_Cond t opt es)
  assume "ru_written e"
  then show ?thesis
    using U_Cond ru_flag_hd [of "the t" opt] by (cases t; cases opt) (auto simp: blanks_def)
qed (use ru_flag_hd in \<open>auto simp: blanks_def\<close>)

lemma ru_lex_token:
  assumes "rule_choice pick" "takes (map fst required_use_rules) t u i" "snd (required_use_rules ! i) t = emit x"
  shows "required_use_lex pick (t @ u) = lexed_prepend [x] (required_use_lex pick u)"
  using run_lexer_token [OF assms(1,2)] assms(3) by (simp add: required_use_lex_def emit_def)

lemma ru_lex_char:
  assumes "rule_choice pick" "c \<in> set ''!?()''" "apart c u"
  shows "required_use_lex pick (c # u) = lexed_prepend [R_Char c] (required_use_lex pick u)"
proof -
  obtain i where i: "(c, i) \<in> {(CHR ''!'', 7), (CHR ''?'', 8), (CHR ''('', 9), (CHR '')'', 10 :: nat)}"
    using assms(2) by auto
  show ?thesis
    using ru_lex_token [OF assms(1) ru_takes_char [OF i assms(3)], of "R_Char c"] i
    by (auto simp: required_use_rules_def ru_char_rule_def)
qed

lemma ru_lex_blank:
  assumes "rule_choice pick" "u \<noteq> []" "hd u \<notin> set blanks"
  shows "required_use_lex pick (CHR '' '' # u) = required_use_lex pick u"
  using run_lexer_step [OF assms(1) ru_takes_blank [OF assms(2,3)]]
  by (simp add: required_use_lex_def required_use_rules_def)

lemma ru_lex_flag:
  assumes "rule_choice pick" "ru_flag_ok name opt" "follows '' ?'' u"
  shows "required_use_lex pick (ru_flag_text name opt @ u) = lexed_prepend (ru_flag_tokens name opt) (required_use_lex pick u)"
proof -
  have "accepts pat_ru_identifier name" using assms(2) by (simp add: ru_flag_ok_def)
  then have "required_use_lex pick (name @ u) = lexed_prepend [R_Ident name] (required_use_lex pick u)"
    using assms(3) by (intro ru_lex_token [OF assms(1) ru_takes_identifier]) (simp_all add: required_use_rules_def)
  then show ?thesis
    using ru_lex_char [OF assms(1), of "CHR ''!''" "name @ u"]
    by (simp add: ru_flag_text_def ru_flag_tokens_def apart_def)
qed

lemma ru_lex_select:
  assumes "rule_choice pick" "opt \<in> {USE_OP_LEAST_ONE, USE_OP_EXACT_ONE, USE_OP_MOST_ONE}"
  shows "required_use_lex pick (select_text opt @ u) = lexed_prepend [R_Select opt] (required_use_lex pick u)"
proof -
  obtain i where i: "(select_text opt, i) \<in> {(''??'', 2), (''||'', 3), (''^^'', 4)}"
      "snd (required_use_rules ! i) (select_text opt) = emit (R_Select opt)"
    using assms(2) by (auto simp: required_use_rules_def)
  show ?thesis
    by (rule ru_lex_token [OF assms(1) ru_takes_select [OF i(1)] i(2)])
qed

lemma ru_lex_elements:
  assumes pick: "rule_choice pick" and es: "\<forall>e \<in> set es. ru_written e"
    and each: "\<And>e u. e \<in> set es \<Longrightarrow> follows '' '' u \<Longrightarrow>
      required_use_lex pick (ru_text e @ u) = lexed_prepend (ru_tokens e) (required_use_lex pick u)"
    and u: "u \<noteq> []" "hd u \<notin> set blanks"
  shows "required_use_lex pick (concat (map (\<lambda>e. ru_text e @ '' '') es) @ u)
    = lexed_prepend (concat (map ru_tokens es)) (required_use_lex pick u)"
  using es each
proof (induction es)
  case (Cons e es)
  let ?rest = "concat (map (\<lambda>e. ru_text e @ '' '') es) @ u"
  have "?rest \<noteq> [] \<and> hd ?rest \<notin> set blanks"
    using Cons.prems(1) u ru_text_hd by (cases es) auto
  then have "required_use_lex pick (CHR '' '' # ?rest) = required_use_lex pick ?rest"
    by (intro ru_lex_blank [OF pick]) simp_all
  then show ?case
    using Cons by (simp add: follows_def)
qed simp

lemma ru_lex_group:
  assumes "rule_choice pick" "\<forall>e \<in> set es. ru_written e"
    and "\<And>e u. e \<in> set es \<Longrightarrow> follows '' '' u \<Longrightarrow>
      required_use_lex pick (ru_text e @ u) = lexed_prepend (ru_tokens e) (required_use_lex pick u)"
  shows "required_use_lex pick (''( '' @ concat (map (\<lambda>e. ru_text e @ '' '') es) @ '')'' @ u)
    = lexed_prepend (R_Char CHR ''('' # concat (map ru_tokens es) @ [R_Char CHR '')'']) (required_use_lex pick u)"
proof -
  let ?rest = "concat (map (\<lambda>e. ru_text e @ '' '') es) @ CHR '')'' # u"
  have "required_use_lex pick ?rest = lexed_prepend (concat (map ru_tokens es)) (required_use_lex pick (CHR '')'' # u))"
    using assms by (intro ru_lex_elements) (auto simp: blanks_def)
  moreover have "?rest \<noteq> []" "hd ?rest \<notin> set blanks"
    using assms(2) ru_text_hd by (cases es; auto simp: blanks_def)+
  then have "required_use_lex pick (CHR '' '' # ?rest) = required_use_lex pick ?rest"
    by (rule ru_lex_blank [OF assms(1)])
  ultimately show ?thesis
    using ru_lex_char [OF assms(1), of "CHR ''(''" "CHR '' '' # ?rest"] ru_lex_char [OF assms(1), of "CHR '')''" u]
    by (simp add: apart_def)
qed

lemma ru_lex:
  assumes "rule_choice pick" "ru_written e" "follows '' '' u"
  shows "required_use_lex pick (ru_text e @ u) = lexed_prepend (ru_tokens e) (required_use_lex pick u)"
  using assms(2,3)
proof (induction e arbitrary: u)
  case (U_Flag name opt)
  then show ?case using ru_lex_flag [OF assms(1), of name opt u] by (auto simp: follows_def)
next
  case (U_Group es)
  then have "required_use_lex pick (''( '' @ concat (map (\<lambda>e. ru_text e @ '' '') es) @ '')'' @ u)
    = lexed_prepend (R_Char CHR ''('' # concat (map ru_tokens es) @ [R_Char CHR '')'']) (required_use_lex pick u)"
    by (intro ru_lex_group [OF assms(1)]) auto
  then show ?case by simp
next
  case (U_Cond t opt es)
  let ?g = "''( '' @ concat (map (\<lambda>e. ru_text e @ '' '') es) @ '')'' @ u"
  have "required_use_lex pick ?g
    = lexed_prepend (R_Char CHR ''('' # concat (map ru_tokens es) @ [R_Char CHR '')'']) (required_use_lex pick u)"
    using U_Cond by (intro ru_lex_group [OF assms(1)]) auto
  moreover have "required_use_lex pick (CHR '' '' # ?g) = required_use_lex pick ?g"
    by (intro ru_lex_blank [OF assms(1)]) (simp_all add: blanks_def)
  ultimately have group: "required_use_lex pick (CHR '' '' # ?g)
    = lexed_prepend (R_Char CHR ''('' # concat (map ru_tokens es) @ [R_Char CHR '')'']) (required_use_lex pick u)"
    by simp
  show ?case
  proof (cases t)
    case None
    then show ?thesis
      using U_Cond.prems(1) ru_lex_select [OF assms(1), of opt "CHR '' '' # ?g"] group by simp
  next
    case (Some name)
    then have "ru_flag_ok name opt" using U_Cond.prems(1) by simp
    then show ?thesis
      using Some group ru_lex_flag [OF assms(1), of name opt "''?'' @ CHR '' '' # ?g"]
        ru_lex_char [OF assms(1), of "CHR ''?''" "CHR '' '' # ?g"]
      by (simp add: follows_def apart_def)
  qed
qed

lemma ru_lex_all:
  assumes "rule_choice pick" "\<forall>e \<in> set es. ru_written e"
  shows "required_use_lex pick (rus_text es) = Lexed (concat (map ru_tokens es))"
proof (cases "es = []")
  case True
  then show ?thesis by (simp add: rus_text_def required_use_lex_def)
next
  case False
  then have es: "es = butlast es @ [last es]" "ru_written (last es)" "\<forall>e \<in> set (butlast es). ru_written e"
    using assms(2) by (auto dest: in_set_butlastD)
  have last: "required_use_lex pick (ru_text (last es)) = Lexed (ru_tokens (last es))"
    using ru_lex [OF assms(1) es(2), of "[]"] by (simp add: follows_def required_use_lex_def)
  have "required_use_lex pick (rus_text es)
    = lexed_prepend (concat (map ru_tokens (butlast es))) (required_use_lex pick (ru_text (last es)))"
    unfolding rus_text_def using False es(3) ru_text_hd [OF es(2)] ru_lex [OF assms(1)]
    by (simp add: ru_lex_elements [OF assms(1)])
  also have "\<dots> = Lexed (concat (map ru_tokens (butlast es @ [last es])))"
    by (simp add: last)
  finally show ?thesis using es(1) by simp
qed

section \<open>The tokens derive what is written\<close>

lemma ru_flag_derives: "ru_flag_ok name opt \<Longrightarrow> g_use_expr (ru_flag_tokens name opt) name opt"
  using g_use_expr.intros by (auto simp: ru_flag_ok_def ru_flag_tokens_def)

lemma rus_derive:
  assumes "\<And>e. e \<in> set es \<Longrightarrow> g_ru_single (ru_tokens e) e" "es \<noteq> []"
  shows "g_ru_expr (concat (map ru_tokens es)) es"
  using assms
proof (induction es)
  case (Cons e es)
  then show ?case
    using g_ru_expr_g_ru_single.intros(1) [of "ru_tokens e" e] g_ru_expr_g_ru_single.intros(2) [of "ru_tokens e" e]
    by (cases "es = []") auto
qed simp

lemma ru_derives: "ru_written e \<Longrightarrow> g_ru_single (ru_tokens e) e"
proof (induction e)
  case (U_Flag name opt)
  then show ?case using ru_flag_derives g_ru_expr_g_ru_single.intros(3) by simp
next
  case (U_Cond t opt es)
  have "g_sel (case t of None \<Rightarrow> [R_Select opt] | Some name \<Rightarrow> ru_flag_tokens name opt @ [R_Char CHR ''?'']) t opt"
    using U_Cond.prems ru_flag_derives [of "the t" opt] g_sel.intros by (cases t) simp_all
  moreover have "g_ru_expr (concat (map ru_tokens es)) es"
    using U_Cond by (intro rus_derive) auto
  ultimately show ?case using g_ru_expr_g_ru_single.intros(4) by simp
next
  case (U_Group es)
  then have "g_ru_expr (concat (map ru_tokens es)) es" by (intro rus_derive) auto
  then show ?case using g_ru_expr_g_ru_single.intros(5) by simp
qed

section \<open>From a text to the nodes\<close>

definition required_use_parse_text ::
    "(pattern list \<Rightarrow> string \<Rightarrow> (nat \<times> nat) option) \<Rightarrow> (string \<Rightarrow> flag_store \<times> nat \<Rightarrow> flag_store \<times> nat)
      \<Rightarrow> (nat \<Rightarrow> U64) \<Rightarrow> string \<Rightarrow> flag_store \<times> nat \<Rightarrow> (RequiredUse list \<times> flag_store \<times> nat) option" where
  "required_use_parse_text pick abort addr input s =
     on_tokens (required_use_lex pick input) (\<lambda>tokens. required_use_parse (\<lambda>_. tokens) abort addr input s)"

lemma RequiredUse_of_text_parse:
  "RequiredUse_of_text pick abort addr self input s =
     map_option (\<lambda>(r, s). (if r = [] then (- 1, Some RuntimeError, self) else (0, None, r), s))
       (required_use_parse_text pick abort addr input s)"
proof -
  have init: "PyRequiredUse_init (\<lambda>_. tokens) abort addr self [A_Str input] s =
      map_option (\<lambda>(r, s). (if r = [] then (- 1, Some RuntimeError, self) else (0, None, r), s))
        (required_use_parse (\<lambda>_. tokens) abort addr input s)" for tokens
    by (cases "required_use_parse (\<lambda>_. tokens) abort addr input s") (auto simp: PyRequiredUse_init_def)
  show ?thesis
    unfolding RequiredUse_of_text_def required_use_parse_text_def init
    by (cases "required_use_lex pick input") (simp_all add: on_tokens_def)
qed

lemma required_use_text_nodes:
  assumes "rule_choice pick" "es \<noteq> []" "\<forall>e \<in> set es. ru_written e"
    and "flags_ready addr m (length (rus_text es) + n) p k"
  obtains p' k' where "required_use_parse_text pick abort addr (rus_text es) (p, k) = Some (link (map (ru_nodes p') es), p', k')"
    "ids_kept p p'" "registered p' (concat (map ru_names es))" "flags_ready addr m n p' k'"
    "link (map (ru_nodes p') es) \<noteq> []" "\<And>e. e \<in> set es \<Longrightarrow> ru_ok e"
proof -
  let ?ts = "concat (map ru_tokens es)"
  have lex: "required_use_lex pick (rus_text es) = Lexed ?ts"
    using ru_lex_all assms(1,3) by blast
  have derives: "g_ru_program ?ts es"
    using rus_derive [of es] ru_derives assms(2,3) g_ru_program.intros(1) by blast
  have "length ?ts + n \<le> length (rus_text es) + n"
    using run_lexer_length lex unfolding required_use_lex_def by fastforce
  then have ready: "flags_ready addr m (length ?ts + n) p k"
    using flags_ready_less [OF assms(4), of 0] by simp
  have "\<And>e. e \<in> set es \<Longrightarrow> ru_ok e"
    using derives names_of_tokens(1) [of ?ts es] by (auto elim!: g_ru_program.cases)
  moreover obtain p' k' where "required_use_parse (\<lambda>_. Some ?ts) abort addr (rus_text es) (p, k)
      = Some (link (map (ru_nodes p') es), p', k')"
      "ids_kept p p'" "registered p' (concat (map ru_names es))" "flags_ready addr m n p' k'"
      "es \<noteq> [] \<longrightarrow> link (map (ru_nodes p') es) \<noteq> []"
    by (rule required_use_parse_nodes [where lexer = "\<lambda>_. Some ?ts" and input = "rus_text es" and abort = abort and ts = ?ts,
        OF refl derives ready])
  ultimately show ?thesis
    using that assms(2) by (simp add: required_use_parse_text_def on_tokens_def lex)
qed

text \<open>C23. Constructing a \<open>RequiredUse\<close> from a text in the notation of Gentoo gives the chain the actions link
  from what is written, with the ids of the flags, for every way the generated lexer may choose
  between its rules. The flags of the chain are those of the text in their order exactly if no group
  of several elements is followed by anything; otherwise some are lost.\<close>

theorem required_use_from_text:
  assumes "rule_choice pick" "es \<noteq> []" "\<forall>e \<in> set es. ru_written e"
    and "flags_ready addr m (length (rus_text es)) p k"
  shows "\<exists>chain p' k'. RequiredUse_of_text pick abort addr self (rus_text es) (p, k) = Some ((0, None, chain), p', k')
    \<and> chain = link (map (ru_nodes p') es) \<and> registered p' (concat (map ru_names es))
    \<and> (concat (map node_names chain) = concat (map ru_names es) \<longleftrightarrow>
         (\<forall>e \<in> set es. lossless e) \<and> (\<forall>e \<in> set (butlast es). single e))"
proof -
  obtain p' k' where "required_use_parse_text pick abort addr (rus_text es) (p, k) = Some (link (map (ru_nodes p') es), p', k')"
      "registered p' (concat (map ru_names es))" "link (map (ru_nodes p') es) \<noteq> []" "\<And>e. e \<in> set es \<Longrightarrow> ru_ok e"
    using required_use_text_nodes [OF assms(1-3), of addr m 0 p k abort] assms(4) by (metis add.right_neutral)
  then show ?thesis
    using chain_keeps_names [of es p'] by (simp add: RequiredUse_of_text_parse)
qed

definition some_pair :: "ru_expr list" where
  "some_pair = [U_Cond None USE_OP_LEAST_ONE [U_Flag ''gtk'' USE_OP_ENABLE, U_Flag ''qt5'' USE_OP_DISABLE]]"

definition lost_pair :: "ru_expr list" where
  "lost_pair = [U_Group [U_Flag ''a'' USE_OP_ENABLE, U_Flag ''b'' USE_OP_ENABLE], U_Flag ''c'' USE_OP_ENABLE]"

lemma pair_texts:
  "rus_text some_pair = ''|| ( gtk !qt5 )''" "\<forall>e \<in> set some_pair. ru_written e"
  "rus_text lost_pair = ''( a b ) c''" "\<forall>e \<in> set lost_pair. ru_written e"
  by code_simp+

lemma required_use_from_text_witness:
  "(\<exists>chain p' k'. RequiredUse_of_text first_rule (\<lambda>_ s. s) spaced [] ''|| ( gtk !qt5 )'' (empty_flags, 0)
      = Some ((0, None, chain), p', k') \<and> concat (map node_names chain) = [None, Some ''gtk'', Some ''qt5''])
    \<and> (\<exists>chain p' k'. RequiredUse_of_text longest_rule (\<lambda>_ s. s) spaced [] ''( a b ) c'' (empty_flags, 0)
      = Some ((0, None, chain), p', k') \<and> concat (map node_names chain) \<noteq> [Some ''a'', Some ''b'', Some ''c''])"
proof -
  have "flags_ready spaced 256 (length (rus_text some_pair)) empty_flags 0"
    "flags_ready spaced 256 (length (rus_text lost_pair)) empty_flags 0"
    by (rule fresh_flags_ready, simp add: pair_texts)+
  then show ?thesis
    using required_use_from_text [OF first_choice.rule_choice_axioms _ pair_texts(2), of spaced 256 empty_flags 0 "\<lambda>_ s. s" "[]"]
      required_use_from_text [OF longest_choice.rule_choice_axioms _ pair_texts(4), of spaced 256 empty_flags 0 "\<lambda>_ s. s" "[]"]
    unfolding pair_texts by (auto simp: some_pair_def lost_pair_def simp del: link.simps ru_nodes.simps)
qed

end
