(* ===== verification/MetadataText.thy ===== *)
theory MetadataText
  imports Metadata DependText RequiredUseText
begin

text \<open>
  Reading a cache file with the parsers of depend.y and requireduse.y in the places
  \<open>ebuild_metadata_init\<close> of autogentoo/cportage/ebuild.c calls them: from the bytes of the file to the
  nodes of its dependencies.
\<close>

section \<open>The parsers in the loop\<close>

text \<open>The environment is the table of use flags and the number of flag objects made; None after
  undefined behaviour.\<close>

fun in_env :: "('s \<Rightarrow> ('a list \<times> 's) option) \<Rightarrow> 's option \<Rightarrow> 's option \<times> 'a list" where
  "in_env f None = (None, [])"
| "in_env f (Some s) = (case f s of None \<Rightarrow> (None, []) | Some (r, s) \<Rightarrow> (Some s, r))"

definition text_parsers ::
    "(pattern list \<Rightarrow> string \<Rightarrow> (nat \<times> nat) option) \<Rightarrow> LUT \<Rightarrow> (string \<Rightarrow> flag_store \<times> nat \<Rightarrow> flag_store \<times> nat)
      \<Rightarrow> (nat \<Rightarrow> U64) \<Rightarrow> (flag_store \<times> nat) option parsers" where
  "text_parsers pick pkgs abort addr =
     parsers.make (\<lambda>env v. in_env (depend_parse_text pick pkgs abort addr v) env)
       (\<lambda>env v. in_env (required_use_parse_text pick abort addr v) env)"

definition metadata_of_text ::
    "(string \<Rightarrow> string option) \<Rightarrow> bool \<Rightarrow> (pattern list \<Rightarrow> string \<Rightarrow> (nat \<times> nat) option) \<Rightarrow> LUT
      \<Rightarrow> (string \<Rightarrow> flag_store \<times> nat \<Rightarrow> flag_store \<times> nat) \<Rightarrow> (nat \<Rightarrow> U64) \<Rightarrow> (flag_store \<times> nat) option meta_state
      \<Rightarrow> (int \<times> py_exc option \<times> (flag_store \<times> nat) option meta_state) option" where
  "metadata_of_text fopen fclose_ok pick pkgs abort addr s =
     do { (r, exc, s) \<leftarrow> ebuild_metadata_init fopen fclose_ok (text_parsers pick pkgs abort addr) s;
          if ms_env s = None then None else Some (r, exc, s) }"

section \<open>The lines of a file\<close>

datatype meta_entry = Dep_Line depend_field "dep list" | Use_Line "ru_expr list" | Text_Line string string

fun depend_name :: "depend_field \<Rightarrow> string" where
  "depend_name Depend = ''DEPEND''"
| "depend_name RDepend = ''RDEPEND''"
| "depend_name PDepend = ''PDEPEND''"
| "depend_name BDepend = ''BDEPEND''"

fun entry_line :: "meta_entry \<Rightarrow> string \<times> string" where
  "entry_line (Dep_Line t ds) = (depend_name t, deps_text ds)"
| "entry_line (Use_Line es) = (''REQUIRED_USE'', rus_text es)"
| "entry_line (Text_Line k v) = (k, v)"

fun line_ok :: "meta_entry \<Rightarrow> bool" where
  "line_ok (Dep_Line t ds) = (ds \<noteq> [] \<and> (\<forall>d \<in> set ds. dep_ok d))"
| "line_ok (Use_Line es) = (es \<noteq> [] \<and> (\<forall>e \<in> set es. ru_written e))"
| "line_ok (Text_Line k v) = (clean_line (k, v) \<and> k \<notin> {''DEPEND'', ''RDEPEND'', ''PDEPEND'', ''BDEPEND'', ''REQUIRED_USE''}
     \<and> (k = ''SLOT'' \<longrightarrow> strtok_all ''/'' v \<noteq> []))"

text \<open>What a line leaves in the ebuild, with the flags registered by the end.\<close>

fun entry_read :: "LUT \<Rightarrow> flag_store \<Rightarrow> 'env meta_state \<Rightarrow> 'env meta_state \<Rightarrow> meta_entry \<Rightarrow> bool" where
  "entry_read pkgs p s s' (Dep_Line t ds) =
     (\<exists>es. list_all2 (denotes pkgs) ds es \<and> depend_get t (ms_meta s') = map (node_of p) es
        \<and> registered p (concat (map uses_of es)))"
| "entry_read pkgs p s s' (Use_Line es) =
     (md_required_use (ms_meta s') = link (map (ru_nodes p) es) \<and> registered p (concat (map ru_names es)))"
| "entry_read pkgs p s s' (Text_Line k v) =
     ((k = ''SLOT'' \<longrightarrow> eb_slot (ms_ebuild s') = Some (hd (strtok_all ''/'' v)))
      \<and> (k = ''KEYWORDS'' \<longrightarrow> md_keywords (ms_meta s') = ebuild_keyword_init (md_keywords (ms_meta s)) v)
      \<and> (k = ''IUSE'' \<longrightarrow> md_iuse (ms_meta s') = ebuild_iuse_init (md_iuse (ms_meta s)) v))"

text \<open>The fields no key of a set fills.\<close>

definition kept_but :: "string set \<Rightarrow> 'env meta_state \<Rightarrow> 'env meta_state \<Rightarrow> bool" where
  "kept_but K s s' \<longleftrightarrow> (\<forall>t. depend_name t \<notin> K \<longrightarrow> depend_get t (ms_meta s') = depend_get t (ms_meta s))
     \<and> (''REQUIRED_USE'' \<notin> K \<longrightarrow> md_required_use (ms_meta s') = md_required_use (ms_meta s))
     \<and> (''SLOT'' \<notin> K \<longrightarrow> eb_slot (ms_ebuild s') = eb_slot (ms_ebuild s))
     \<and> (''KEYWORDS'' \<notin> K \<longrightarrow> md_keywords (ms_meta s') = md_keywords (ms_meta s))
     \<and> (''IUSE'' \<notin> K \<longrightarrow> md_iuse (ms_meta s') = md_iuse (ms_meta s))"

lemma kept_but_trans: "kept_but K s s1 \<Longrightarrow> kept_but L s1 s2 \<Longrightarrow> kept_but (K \<union> L) s s2"
  by (simp add: kept_but_def)

lemma depend_name_setup [simp]: "map_of depend_setup (depend_name t) = Some t"
  by (cases t) (simp_all add: depend_setup_def)

lemma depend_name_no_other [simp]:
  "depend_name t \<noteq> ''REQUIRED_USE''" "depend_name t \<noteq> ''SLOT''" "depend_name t \<noteq> ''KEYWORDS''" "depend_name t \<noteq> ''IUSE''"
  "depend_name t = depend_name u \<longleftrightarrow> t = u"
  by (cases t; cases u; simp)+

lemma kept_butD:
  assumes "kept_but K s s'"
  shows "depend_name t \<notin> K \<Longrightarrow> depend_get t (ms_meta s') = depend_get t (ms_meta s)"
    "''REQUIRED_USE'' \<notin> K \<Longrightarrow> md_required_use (ms_meta s') = md_required_use (ms_meta s)"
    "''SLOT'' \<notin> K \<Longrightarrow> eb_slot (ms_ebuild s') = eb_slot (ms_ebuild s)"
    "''KEYWORDS'' \<notin> K \<Longrightarrow> md_keywords (ms_meta s') = md_keywords (ms_meta s)"
    "''IUSE'' \<notin> K \<Longrightarrow> md_iuse (ms_meta s') = md_iuse (ms_meta s)"
  using assms unfolding kept_but_def by blast+

lemma entry_read_later:
  assumes "entry_read pkgs p s s1 e" "kept_but K s1 s2" "fst (entry_line e) \<notin> K" "ids_kept p p'"
  shows "entry_read pkgs p' s s2 e"
proof (cases e)
  case (Dep_Line t ds)
  then obtain es where es: "list_all2 (denotes pkgs) ds es" "depend_get t (ms_meta s1) = map (node_of p) es"
      "registered p (concat (map uses_of es))"
    using assms(1) by auto
  moreover have "depend_get t (ms_meta s2) = depend_get t (ms_meta s1)"
    using kept_butD(1) [OF assms(2)] assms(3) Dep_Line by simp
  ultimately show ?thesis
    using Dep_Line nodes_kept [OF assms(4) es(3)] registered_kept [OF assms(4) es(3)] by (simp only: entry_read.simps) metis
next
  case (Use_Line es)
  then have es: "md_required_use (ms_meta s1) = link (map (ru_nodes p) es)" "registered p (concat (map ru_names es))"
    using assms(1) by simp_all
  then show ?thesis
    using Use_Line kept_butD(2) [OF assms(2)] assms(3) ru_seq_kept [OF assms(4) es(2)] registered_kept [OF assms(4) es(2)]
    by (simp only: entry_read.simps entry_line.simps fst_conv) metis
next
  case (Text_Line key v)
  then show ?thesis
    using assms(1,3) kept_butD(3-5) [OF assms(2)] by (simp only: entry_read.simps entry_line.simps fst_conv) metis
qed

lemma entry_read_earlier:
  assumes "entry_read pkgs p s1 s2 e" "kept_but K s s1" "fst (entry_line e) \<notin> K"
  shows "entry_read pkgs p s s2 e"
proof (cases e)
  case (Text_Line key v)
  then show ?thesis
    using assms(1,3) kept_butD(3-5) [OF assms(2)] by (simp only: entry_read.simps entry_line.simps fst_conv) metis
qed (use assms(1) in simp_all)

section \<open>One line\<close>

lemma depend_set_other [simp]:
  "md_required_use (depend_set t x m) = md_required_use m" "md_keywords (depend_set t x m) = md_keywords m"
  "md_iuse (depend_set t x m) = md_iuse m"
  by (cases t; simp)+

lemma entry_line_read:
  assumes pick: "rule_choice pick" "lut_size pkgs \<noteq> 0" and e: "line_ok e"
    and ready: "ms_env s = Some (p, k)" "flags_ready addr m (length (snd (entry_line e)) + n) p k"
    and new: "\<And>t. fst (entry_line e) = depend_name t \<Longrightarrow> depend_get t (ms_meta s) = []"
  shows "\<exists>s' p' k'. metadata_line (text_parsers pick pkgs abort addr) (fst (entry_line e)) (snd (entry_line e)) s = Some (True, s')
    \<and> ms_env s' = Some (p', k') \<and> flags_ready addr m n p' k' \<and> ids_kept p p' \<and> ms_error s' = ms_error s
    \<and> entry_read pkgs p' s s' e \<and> kept_but {fst (entry_line e)} s s'"
proof (cases e)
  case (Dep_Line t ds)
  have ds: "ds \<noteq> []" "\<forall>d \<in> set ds. dep_ok d" and new': "depend_get t (ms_meta s) = []"
    and ready': "flags_ready addr m (length (deps_text ds) + n) p k"
    using e new [of t] ready(2) Dep_Line by simp_all
  obtain es p' k' where es: "list_all2 (denotes pkgs) ds es" "es \<noteq> []"
      "depend_parse_text pick pkgs abort addr (deps_text ds) (p, k) = Some (map (node_of p') es, p', k')"
      "ids_kept p p'" "registered p' (concat (map uses_of es))" "flags_ready addr m n p' k'"
    by (rule depend_text_nodes [OF pick ds ready'])
  let ?s = "s\<lparr>ms_env := Some (p', k'), ms_meta := depend_set t (map (node_of p') es) (ms_meta s)\<rparr>"
  have "metadata_line (text_parsers pick pkgs abort addr) (depend_name t) (deps_text ds) s = Some (True, ?s)"
    using ready(1) es(2,3) new' by (simp add: metadata_line_def metadata_depend_def text_parsers_def parsers.make_def)
  then show ?thesis
    using Dep_Line es by (intro exI [of _ ?s] exI [of _ p'] exI [of _ k']) (auto simp: kept_but_def depend_get_set)
next
  case (Use_Line es)
  have es: "es \<noteq> []" "\<forall>e \<in> set es. ru_written e" and ready': "flags_ready addr m (length (rus_text es) + n) p k"
    using e ready(2) Use_Line by simp_all
  obtain p' k' where p': "required_use_parse_text pick abort addr (rus_text es) (p, k) = Some (link (map (ru_nodes p') es), p', k')"
      "ids_kept p p'" "registered p' (concat (map ru_names es))" "flags_ready addr m n p' k'"
      "link (map (ru_nodes p') es) \<noteq> []"
    by (rule required_use_text_nodes [OF pick(1) es ready'])
  let ?s = "s\<lparr>ms_env := Some (p', k'), ms_meta := (ms_meta s)\<lparr>md_required_use := link (map (ru_nodes p') es)\<rparr>\<rparr>"
  have "map_of depend_setup ''REQUIRED_USE'' = None" by (simp add: depend_setup_def)
  then have "metadata_line (text_parsers pick pkgs abort addr) ''REQUIRED_USE'' (rus_text es) s = Some (True, ?s)"
    using ready(1) p'(1,5) by (simp add: metadata_line_def metadata_depend_def text_parsers_def parsers.make_def)
  then show ?thesis
    using Use_Line p' by (intro exI [of _ ?s] exI [of _ p'] exI [of _ k']) (auto simp: kept_but_def)
next
  case (Text_Line key v)
  have dep: "metadata_depend q key v s = (False, s)" for q
    using e Text_Line by (simp add: metadata_depend_def depend_setup_def)
  have "\<exists>s'. metadata_line (text_parsers pick pkgs abort addr) key v s = Some (True, s') \<and> ms_env s' = ms_env s
      \<and> ms_error s' = ms_error s \<and> entry_read pkgs p s s' (Text_Line key v) \<and> kept_but {key} s s'"
    using e Text_Line unfolding metadata_line_def dep
    by (cases "strtok_all ''/'' v") (auto simp: Let_def kept_but_def split: list.splits)
  moreover have "flags_ready addr m n p k"
    using flags_ready_less [OF ready(2), of 0 n] by simp
  ultimately show ?thesis
    using Text_Line ready(1) by fastforce
qed

section \<open>The lines are clean\<close>

definition one_line :: "string \<Rightarrow> bool" where
  "one_line s \<longleftrightarrow> CHR 0x0A \<notin> set s \<and> CHR 0x00 \<notin> set s"

lemma one_line_simps [simp]:
  "one_line []" "one_line (s @ u) \<longleftrightarrow> one_line s \<and> one_line u"
  "one_line (c # s) \<longleftrightarrow> c \<noteq> CHR 0x0A \<and> c \<noteq> CHR 0x00 \<and> one_line s"
  by (auto simp: one_line_def)

lemma one_line_concat [simp]: "one_line (concat xs) \<longleftrightarrow> (\<forall>x \<in> set xs. one_line x)"
  by (induction xs) auto

lemma accepted_one_line:
  assumes "accepts q s" "q \<in> {pat_identifier, pat_slotname, pat_slot, pat_atom, pat_atomflags, pat_ru_identifier}"
  shows "one_line s"
proof -
  have "\<not> occurs q CHR 0x0A \<and> \<not> occurs q CHR 0x00"
  proof -
    have "\<forall>r \<in> set [pat_identifier, pat_slotname, pat_slot, pat_atom, pat_atomflags, pat_ru_identifier].
      \<not> occurs r CHR 0x0A \<and> \<not> occurs r CHR 0x00" by code_simp
    then show ?thesis using assms(2) by auto
  qed
  then show ?thesis
    using accepts_occurs [OF assms(1)] by (auto simp: one_line_def)
qed

lemma written_one_line:
  assumes "written_ok w"
  shows "one_line (written_text w)"
proof -
  obtain rng where rng: "range_text (wr_range w) = Some rng" using assms by (auto simp: written_ok_def)
  have "one_line (block_text (wr_blocks w))" "one_line rng"
    using rng by (cases "wr_blocks w"; auto simp: range_text_def split: if_splits)+
  moreover have "one_line (written_key w)"
    using accepted_one_line [OF key_accepted [OF assms]] by simp
  moreover have "one_line (slot_text (wr_slot w) (wr_mark w))"
    using accepted_one_line [OF slot_accepted [OF written_slot_ok [OF assms]]]
    by (cases "wr_slot w = None \<and> wr_mark w = None") (auto simp: slot_text_def)
  moreover have "one_line (repository_text (wr_repository w))"
    using assms accepted_one_line [of pat_identifier]
    by (cases "wr_repository w") (simp_all add: written_ok_def)
  moreover have "one_line (flags_text (wr_flags w))"
    using assms accepted_one_line [OF flags_accepted, of "wr_flags w"]
    by (cases "wr_flags w = []") (simp_all add: written_ok_def flags_text_def)
  ultimately show ?thesis
    using rng by (simp add: written_text_def)
qed

lemma dep_one_line: "dep_ok d \<Longrightarrow> one_line (dep_text d)"
proof (induction d)
  case (D_Use on name ds)
  then have "set name \<subseteq> set use_chars" by simp
  moreover have "CHR 0x0A \<notin> set use_chars" "CHR 0x00 \<notin> set use_chars" by code_simp+
  ultimately have "one_line name" by (auto simp: one_line_def)
  then show ?case using D_Use by simp
qed (use written_one_line in simp_all)

lemma ru_one_line: "ru_written e \<Longrightarrow> one_line (ru_text e)"
proof -
  have flag: "one_line (ru_flag_text name opt)" if "ru_flag_ok name opt" for name opt
    using that accepted_one_line [of pat_ru_identifier name] by (simp add: ru_flag_ok_def ru_flag_text_def)
  show "ru_written e \<Longrightarrow> one_line (ru_text e)"
  proof (induction e)
    case (U_Cond t opt es)
    then show ?case using flag by (cases t; cases opt) simp_all
  qed (use flag in simp_all)
qed

lemma line_ok_clean: "line_ok e \<Longrightarrow> clean_line (entry_line e)"
proof (cases e)
  case (Dep_Line t ds)
  assume "line_ok e"
  then have "one_line (deps_text ds)"
    using Dep_Line dep_one_line by (auto simp: deps_text_def dest: in_set_butlastD)
  then show ?thesis using Dep_Line by (cases t) (simp_all add: clean_line_def one_line_def)
next
  case (Use_Line es)
  assume "line_ok e"
  then have "one_line (rus_text es)"
    using Use_Line ru_one_line by (auto simp: rus_text_def dest: in_set_butlastD)
  then show ?thesis using Use_Line by (simp add: clean_line_def one_line_def)
qed simp

section \<open>A whole file\<close>

definition lines_file :: "meta_entry list \<Rightarrow> string" where
  "lines_file xs = meta_file (map entry_line xs)"

lemma entries_read:
  assumes pick: "rule_choice pick" "lut_size pkgs \<noteq> 0"
    and "\<forall>e \<in> set xs. line_ok e" "distinct (map (\<lambda>e. fst (entry_line e)) xs)"
    and "ms_env s = Some (p, k)" "flags_ready addr m (sum_list (map (\<lambda>e. length (snd (entry_line e))) xs)) p k"
    and "\<And>e t. e \<in> set xs \<Longrightarrow> fst (entry_line e) = depend_name t \<Longrightarrow> depend_get t (ms_meta s) = []"
  shows "\<exists>s' p' k'. metadata_lines (text_parsers pick pkgs abort addr) (map entry_line xs) s = Some s'
    \<and> ms_env s' = Some (p', k') \<and> ids_kept p p' \<and> ms_error s' = ms_error s
    \<and> (\<forall>e \<in> set xs. entry_read pkgs p' s s' e) \<and> kept_but ((\<lambda>e. fst (entry_line e)) ` set xs) s s'"
  using assms(3-7)
proof (induction xs arbitrary: s p k)
  case Nil
  then show ?case by (simp add: kept_but_def)
next
  case (Cons e xs)
  let ?key = "\<lambda>e. fst (entry_line e)" and ?n = "sum_list (map (\<lambda>e. length (snd (entry_line e))) xs)"
  have ok: "line_ok e" and new: "?key e \<notin> ?key ` set xs"
    and ready: "flags_ready addr m (length (snd (entry_line e)) + ?n) p k"
    using Cons.prems(1,2,4) by auto
  obtain s1 p1 k1 where s1: "metadata_line (text_parsers pick pkgs abort addr) (?key e) (snd (entry_line e)) s = Some (True, s1)"
      "ms_env s1 = Some (p1, k1)" "flags_ready addr m ?n p1 k1" "ids_kept p p1" "ms_error s1 = ms_error s"
      "entry_read pkgs p1 s s1 e" "kept_but {?key e} s s1"
    using entry_line_read [OF pick ok Cons.prems(3) ready, of abort] Cons.prems(5) [of e] by auto
  have "depend_get t (ms_meta s1) = []" if "x \<in> set xs" "?key x = depend_name t" for x t
  proof -
    have "?key x \<noteq> ?key e" using new that(1) by (auto simp: image_iff)
    then have "depend_name t \<notin> {?key e}" using that(2) by simp
    then have "depend_get t (ms_meta s1) = depend_get t (ms_meta s)" by (rule kept_butD(1) [OF s1(7)])
    then show ?thesis using Cons.prems(5) [of x t] that by simp
  qed
  then obtain s2 p2 k2 where s2: "metadata_lines (text_parsers pick pkgs abort addr) (map entry_line xs) s1 = Some s2"
      "ms_env s2 = Some (p2, k2)" "ids_kept p1 p2" "ms_error s2 = ms_error s1"
      "\<forall>e \<in> set xs. entry_read pkgs p2 s1 s2 e" "kept_but (?key ` set xs) s1 s2"
    using Cons.IH [OF _ _ s1(2,3)] Cons.prems(1,2) by auto
  have "entry_read pkgs p2 s s2 e"
    by (rule entry_read_later [OF s1(6) s2(6) new s2(3)])
  moreover have "entry_read pkgs p2 s s2 x" if "x \<in> set xs" for x
    using entry_read_earlier [OF bspec [OF s2(5) that] s1(7)] that new by (auto simp: image_iff)
  moreover have "kept_but (?key ` set (e # xs)) s s2"
    using kept_but_trans [OF s1(7) s2(6)] by simp
  ultimately show ?case
    using s1(1,5) s2(1,2,4) ids_kept_trans [OF s1(4) s2(3)] by auto
qed


text \<open>The lines of data/test-repo/metadata/sys-devel/gcc-9.3.0-r1 the code looks at.\<close>

definition gcc_dep :: "U32 \<Rightarrow> string \<Rightarrow> string \<Rightarrow> nat list \<Rightarrow> bool \<Rightarrow> dep" where
  "gcc_dep rng category name version rebuild = D_Atom \<lparr>wr_blocks = ATOM_BLOCK_NONE, wr_range = rng,
     wr_category = category, wr_name = name,
     wr_version = (if version = [] then None else Some (map num version, None)),
     wr_slot = (if rebuild then Some (''0'', None) else None), wr_mark = (if rebuild then Some CHR ''='' else None),
     wr_repository = None, wr_flags = []\<rparr>"

definition gcc_common :: "dep list" where
  "gcc_common =
     [gcc_dep ATOM_VERSION_ALL ''sys-libs'' ''zlib'' [] False,
      D_Use True ''nls'' [gcc_dep ATOM_VERSION_ALL ''virtual'' ''libintl'' [] False],
      gcc_dep ATOM_VERSION_ALL ''virtual'' ''libiconv'' [] False,
      gcc_dep ATOM_VERSION_GE ''dev-libs'' ''gmp'' [4, 3, 2] True,
      gcc_dep ATOM_VERSION_GE ''dev-libs'' ''mpfr'' [2, 4, 2] True,
      gcc_dep ATOM_VERSION_GE ''dev-libs'' ''mpc'' [0, 8, 1] True,
      D_Use True ''objc-gc'' [gcc_dep ATOM_VERSION_GE ''dev-libs'' ''boehm-gc'' [7, 4, 2] False],
      D_Use True ''graphite'' [gcc_dep ATOM_VERSION_GE ''dev-libs'' ''isl'' [0, 14] True]]"

fun gcc_depend :: "depend_field \<Rightarrow> dep list" where
  "gcc_depend BDepend =
     [gcc_dep ATOM_VERSION_GE ''app-portage'' ''elt-patches'' [20170815] False,
      gcc_dep ATOM_VERSION_GE ''sys-devel'' ''bison'' [1, 875] False,
      gcc_dep ATOM_VERSION_GE ''sys-devel'' ''flex'' [2, 5, 4] False,
      D_Use True ''nls'' [gcc_dep ATOM_VERSION_ALL ''sys-devel'' ''gettext'' [] False],
      D_Use True ''test'' [gcc_dep ATOM_VERSION_GE ''dev-util'' ''dejagnu'' [1, 4, 4] False,
        gcc_dep ATOM_VERSION_GE ''sys-devel'' ''autogen'' [5, 5, 4] False]]"
| "gcc_depend Depend =
     [D_Use True ''elibc_glibc'' [gcc_dep ATOM_VERSION_GE ''sys-libs'' ''glibc'' [2, 13] False],
      gcc_dep ATOM_VERSION_GE ''sys-devel'' ''binutils'' [2, 20] False,
      gcc_dep ATOM_VERSION_ALL ''sys-devel'' ''gnuconfig'' [] False] @ gcc_common
     @ [D_Use True ''systemtap'' [gcc_dep ATOM_VERSION_ALL ''dev-util'' ''systemtap'' [] False]]"
| "gcc_depend PDepend =
     [D_Use True ''elibc_glibc'' [gcc_dep ATOM_VERSION_GE ''sys-libs'' ''glibc'' [2, 13] False],
      gcc_dep ATOM_VERSION_GE ''sys-devel'' ''gcc-config'' [2, 3] False]"
| "gcc_depend RDepend = gcc_common"

definition gcc_entries :: "meta_entry list" where
  "gcc_entries =
     [Dep_Line BDepend (gcc_depend BDepend), Dep_Line Depend (gcc_depend Depend),
      Text_Line ''KEYWORDS'' ''~alpha amd64 arm arm64 hppa ~ia64 ~m68k ~mips ppc ppc64 ~riscv s390 sparc x86'',
      Dep_Line PDepend (gcc_depend PDepend), Dep_Line RDepend (gcc_depend RDepend),
      Text_Line ''SLOT'' ''9.3.0'']"

lemma gcc_text: "map (\<lambda>e. meta_text (entry_line e)) gcc_entries =
  [''BDEPEND=>=app-portage/elt-patches-20170815 >=sys-devel/bison-1.875 >=sys-devel/flex-2.5.4 nls? ( sys-devel/gettext ) test? ( >=dev-util/dejagnu-1.4.4 >=sys-devel/autogen-5.5.4 )'',
   ''DEPEND=elibc_glibc? ( >=sys-libs/glibc-2.13 ) >=sys-devel/binutils-2.20 sys-devel/gnuconfig sys-libs/zlib nls? ( virtual/libintl ) virtual/libiconv >=dev-libs/gmp-4.3.2:0= >=dev-libs/mpfr-2.4.2:0= >=dev-libs/mpc-0.8.1:0= objc-gc? ( >=dev-libs/boehm-gc-7.4.2 ) graphite? ( >=dev-libs/isl-0.14:0= ) systemtap? ( dev-util/systemtap )'',
   ''KEYWORDS=~alpha amd64 arm arm64 hppa ~ia64 ~m68k ~mips ppc ppc64 ~riscv s390 sparc x86'',
   ''PDEPEND=elibc_glibc? ( >=sys-libs/glibc-2.13 ) >=sys-devel/gcc-config-2.3'',
   ''RDEPEND=sys-libs/zlib nls? ( virtual/libintl ) virtual/libiconv >=dev-libs/gmp-4.3.2:0= >=dev-libs/mpfr-2.4.2:0= >=dev-libs/mpc-0.8.1:0= objc-gc? ( >=dev-libs/boehm-gc-7.4.2 ) graphite? ( >=dev-libs/isl-0.14:0= )'',
   ''SLOT=9.3.0'']"
  by (simp add: gcc_entries_def gcc_common_def gcc_dep_def meta_text_def deps_text_def written_text_def written_key_def
      version_text_eval range_text_def range_consts slot_text_def flags_text_def)


definition gcc_plain :: "(string \<times> string) list" where
  "gcc_plain = [(''sys-libs'', ''zlib''), (''virtual'', ''libintl''), (''virtual'', ''libiconv''),
    (''sys-devel'', ''gettext''), (''sys-devel'', ''gnuconfig''), (''dev-util'', ''systemtap'')]"

definition gcc_bounded :: "(string \<times> string) list" where
  "gcc_bounded = [(''dev-libs'', ''gmp''), (''dev-libs'', ''mpfr''), (''dev-libs'', ''mpc''), (''dev-libs'', ''boehm-gc''),
    (''dev-libs'', ''isl''), (''app-portage'', ''elt-patches''), (''sys-devel'', ''bison''), (''sys-devel'', ''flex''),
    (''dev-util'', ''dejagnu''), (''sys-devel'', ''autogen''), (''sys-libs'', ''glibc''), (''sys-devel'', ''binutils''),
    (''sys-devel'', ''gcc-config'')]"

lemma gcc_names:
  "\<forall>(c, n) \<in> set gcc_plain. accepts pat_identifier c \<and> accepts pat_identifier n \<and> find_version n = None"
  "\<forall>(c, n) \<in> set gcc_bounded. accepts pat_identifier c \<and> accepts pat_identifier n"
  "\<forall>x \<in> set [''nls'', ''objc-gc'', ''graphite'', ''test'', ''elibc_glibc'', ''systemtap'']. set x \<subseteq> set use_chars"
  by code_simp+

lemma gcc_dep_ok:
  "(c, n) \<in> set gcc_plain \<Longrightarrow> dep_ok (gcc_dep ATOM_VERSION_ALL c n [] False)"
  "(c, n) \<in> set gcc_bounded \<Longrightarrow> version \<noteq> [] \<Longrightarrow> \<forall>k \<in> set version. k < 2 ^ 31 \<Longrightarrow>
    dep_ok (gcc_dep ATOM_VERSION_GE c n version rebuild)"
proof -
  assume "(c, n) \<in> set gcc_plain"
  then have "accepts pat_identifier c \<and> accepts pat_identifier n \<and> find_version n = None"
    using gcc_names(1) by blast
  then show "dep_ok (gcc_dep ATOM_VERSION_ALL c n [] False)"
    by (simp add: gcc_dep_def written_ok_def range_text_def)
next
  assume "(c, n) \<in> set gcc_bounded" and v: "version \<noteq> []" "\<forall>k \<in> set version. k < 2 ^ 31"
  then have names: "accepts pat_identifier c \<and> accepts pat_identifier n"
    using gcc_names(2) by blast
  have "dropWhile (\<lambda>c. fst c = ATOM_PREFIX_NONE) (map num version) = []"
    by (simp add: dropWhile_eq_Nil_conv)
  then have "version_shape (map num version)"
    unfolding version_shape_def by (simp only: list.set ball_empty)
  moreover have "bounded (map num version) None"
    using v by (simp add: bounded_def rev_of_def hd_map)
  moreover have "accepts pat_slotname ''0''" "range_text ATOM_VERSION_GE \<noteq> None" by code_simp+
  ultimately show "dep_ok (gcc_dep ATOM_VERSION_GE c n version rebuild)"
    using names v(1) by (simp add: gcc_dep_def written_ok_def del: not_None_eq)
qed

lemma gcc_use_ok:
  "x \<in> set [''nls'', ''objc-gc'', ''graphite'', ''test'', ''elibc_glibc'', ''systemtap''] \<Longrightarrow> ds \<noteq> [] \<Longrightarrow>
    list_all dep_ok ds \<Longrightarrow> dep_ok (D_Use True x ds)"
  using gcc_names(3) by (fastforce simp: list_all_iff)

lemma gcc_ok: "\<forall>e \<in> set gcc_entries. line_ok e"
proof -
  have "list_all dep_ok gcc_common"
    by (simp add: gcc_common_def gcc_dep_ok gcc_use_ok gcc_plain_def gcc_bounded_def del: dep_ok.simps)
  then show ?thesis
    by (simp add: gcc_entries_def gcc_dep_ok gcc_use_ok gcc_plain_def gcc_bounded_def list_all_iff clean_line_def
        strtok_all.simps del: dep_ok.simps)
       (simp add: gcc_common_def)
qed

definition fresh_meta :: "(flag_store \<times> nat) option meta_state" where
  "fresh_meta = \<lparr>ms_env = Some (empty_flags, 0), ms_ebuild = ms_ebuild demo_meta, ms_meta = ms_meta demo_meta, ms_error = 0\<rparr>"

lemma gcc_file_length: "length (lines_file gcc_entries) \<le> 2 ^ 16"
proof -
  have "length (lines_file gcc_entries) = length (concat (map (\<lambda>t. t @ [CHR 0x0A]) (map (\<lambda>e. meta_text (entry_line e)) gcc_entries)))"
    by (simp add: lines_file_def meta_file_def o_def)
  then show ?thesis unfolding gcc_text by simp
qed


section \<open>A file the code does not survive\<close>

lemma crashed_line:
  assumes "metadata_line (text_parsers pick pkgs abort addr) key v s = Some (b, s')" "ms_env s = None"
  shows "ms_env s' = None"
  using assms
  by (auto simp: metadata_line_def metadata_depend_def text_parsers_def parsers.make_def Let_def
      split: option.splits if_splits list.splits)

lemma crashed_lines:
  "metadata_lines (text_parsers pick pkgs abort addr) kvs s = Some s' \<Longrightarrow> ms_env s = None \<Longrightarrow> ms_env s' = None"
proof (induction kvs arbitrary: s)
  case (Cons kv kvs)
  then show ?case
    using crashed_line [of pick pkgs abort addr "fst kv" "snd kv" s]
    by (auto split: option.splits prod.splits if_splits)
qed simp

text \<open>A cache file whose first line is a dependency on an atom \<open>atom_init\<close> cannot read, as in
  \<open>DEPEND=cat/pkg-1_abcdef5\<close>, ends the process.\<close>

lemma metadata_text_crash:
  assumes cache: "eb_cache_file (ms_ebuild s) = Some f"
      "fopen f = Some (meta_file ((depend_name t, category @ ''/'' @ rest @ u) # kvs))"
    and lines: "\<forall>kv \<in> set ((depend_name t, category @ ''/'' @ rest @ u) # kvs). clean_line kv"
    and atom: "rule_choice pick" "lut_size pkgs \<noteq> 0" "accepts pat_identifier category"
      "accepts pat_atom (category @ ''/'' @ rest)" "version_string rest = Some v" "\<not> valid_version v" "follows '' :['' u"
    and new: "depend_get t (ms_meta s) = []"
  shows "metadata_of_text fopen True pick pkgs abort addr s = None"
proof -
  let ?p = "text_parsers pick pkgs abort addr" and ?v = "category @ ''/'' @ rest @ u"
  have "depend_parse_text pick pkgs abort addr ?v = (\<lambda>_. None)"
    using atom_lex_crash [OF atom] by (auto simp: depend_parse_text_def on_tokens_def)
  then have in_env: "in_env (depend_parse_text pick pkgs abort addr ?v) x = (None, [])" for x
    by (cases x) simp_all
  have "depend_get t (ms_meta (metadata_start s)) = []" using new by (simp add: metadata_start_def)
  then have "metadata_depend ?p (depend_name t) ?v (metadata_start s)
      = (False, (metadata_start s)\<lparr>ms_env := None, ms_meta := depend_set t [] (ms_meta (metadata_start s)), ms_error := 2\<rparr>)"
    using in_env by (simp add: metadata_depend_def text_parsers_def parsers.make_def)
  then obtain s1 where line: "metadata_line ?p (depend_name t) ?v (metadata_start s) = Some (True, s1)" "ms_env s1 = None"
    by (simp add: metadata_line_def)
  have "ms_env s' = None" if "metadata_lines ?p ((depend_name t, ?v) # kvs) (metadata_start s) = Some s'" for s'
    using that line crashed_lines [of pick pkgs abort addr kvs s1 s'] by simp
  then show ?thesis
    unfolding metadata_of_text_def metadata_init_loop [where fopen = fopen, OF cache] metadata_loop_lines [OF lines]
    by (cases "metadata_lines ?p ((depend_name t, ?v) # kvs) (metadata_start s)") (simp_all add: metadata_finish_def)
qed

end
