(* ===== verification/Linked.thy ===== *)
theory Linked
  imports Objects
begin

text \<open>
  The doubly linked list of autogentoo/hacksaw/linked_vector.c and the queue, stack and queue set
  on top of it (queue.c, stack.c, queue_set.c). Nodes live in a store indexed by their address; a
  new node gets the address the allocator returns, which is a parameter. The lemmas show that the
  pointer structure implements a list, that the queue is first in, first out and the stack last
  in, first out although popping leaves \<open>prev\<close> and \<open>tail\<close> pointers dangling, and that a popped
  object is handed over with its reference count unchanged.
\<close>

section \<open>Nodes and lists\<close>

record LinkedNode =
  ln_data :: U64
  ln_prev :: U64
  ln_next :: U64

text \<open>The tail of a new list is not initialised.\<close>

record LinkedVector =
  lv_nodes :: "U64 \<rightharpoonup> LinkedNode"
  lv_head :: U64
  lv_tail :: "U64 option"

definition linked_vector_new :: LinkedVector where
  "linked_vector_new = \<lparr>lv_nodes = Map.empty, lv_head = 0, lv_tail = None\<rparr>"

definition linked_node_new :: "U64 \<Rightarrow> U64 \<Rightarrow> LinkedVector \<Rightarrow> world \<Rightarrow> (LinkedVector \<times> world) option" where
  "linked_node_new out object l w =
     do { w \<leftarrow> object_incref object w;
          Some (l\<lparr>lv_nodes := (lv_nodes l)(out \<mapsto> \<lparr>ln_data = object, ln_prev = 0, ln_next = 0\<rparr>)\<rparr>, w) }"

definition linked_node_free :: "U64 \<Rightarrow> LinkedVector \<Rightarrow> world \<Rightarrow> (LinkedVector \<times> world) option" where
  "linked_node_free self l w =
     do { node \<leftarrow> lv_nodes l self;
          w \<leftarrow> object_decref (ln_data node) w;
          Some (l\<lparr>lv_nodes := (lv_nodes l)(self := None)\<rparr>, w) }"

text \<open>A walk that frees every node on its way; it may not end, then it is None.\<close>

partial_function (option) linked_free_walk :: "U64 \<Rightarrow> LinkedVector \<Rightarrow> world \<Rightarrow> (LinkedVector \<times> world) option" where
  "linked_free_walk current_ref l w =
     (if current_ref = 0 then Some (l, w)
      else Option.bind (lv_nodes l current_ref) (\<lambda>node.
        Option.bind (linked_node_free current_ref l w) (\<lambda>(l, w).
          linked_free_walk (ln_next node) l w)))"

definition linked_vector_free :: "LinkedVector \<Rightarrow> world \<Rightarrow> world option" where
  "linked_vector_free self w = map_option snd (linked_free_walk (lv_head self) self w)"

text \<open>The index is compared as an unsigned number; the result is the address of a node or NULL.\<close>

fun linked_walk :: "nat \<Rightarrow> LinkedVector \<Rightarrow> U64 \<Rightarrow> U64 option" where
  "linked_walk 0 l current_ref = Some current_ref"
| "linked_walk (Suc i) l current_ref =
     (if current_ref = 0 then Some 0
      else do { node \<leftarrow> lv_nodes l current_ref; linked_walk i l (ln_next node) })"

definition linked_vector_get :: "LinkedVector \<Rightarrow> int \<Rightarrow> U64 option" where
  "linked_vector_get self index = linked_walk (unat (word_of_int index :: U32)) self (lv_head self)"

definition no_tail :: "LinkedVector \<Rightarrow> bool option" where
  "no_tail self = (if lv_head self = 0 then Some True else map_option (\<lambda>t. t = 0) (lv_tail self))"

definition set_node :: "U64 \<Rightarrow> (LinkedNode \<Rightarrow> LinkedNode) \<Rightarrow> LinkedVector \<Rightarrow> LinkedVector option" where
  "set_node p f l =
     map_option (\<lambda>node. l\<lparr>lv_nodes := (lv_nodes l)(p \<mapsto> f node)\<rparr>) (lv_nodes l p)"

definition linked_vector_append ::
    "U64 \<Rightarrow> LinkedVector \<Rightarrow> world \<Rightarrow> U64 \<Rightarrow> (LinkedVector \<times> world) option" where
  "linked_vector_append new_node self w data =
     do { (self, w) \<leftarrow> linked_node_new new_node data self w;
          empty \<leftarrow> no_tail self;
          if empty then Some (self\<lparr>lv_head := new_node, lv_tail := Some new_node\<rparr>, w)
          else do { tail \<leftarrow> lv_tail self;
                    self \<leftarrow> set_node tail (ln_next_update (\<lambda>_. new_node)) self;
                    self \<leftarrow> set_node new_node (ln_prev_update (\<lambda>_. tail)) self;
                    Some (self\<lparr>lv_tail := Some new_node\<rparr>, w) } }"

definition linked_vector_prepend ::
    "U64 \<Rightarrow> LinkedVector \<Rightarrow> world \<Rightarrow> U64 \<Rightarrow> (LinkedVector \<times> world) option" where
  "linked_vector_prepend new_node self w data =
     do { (self, w) \<leftarrow> linked_node_new new_node data self w;
          empty \<leftarrow> no_tail self;
          if empty then Some (self\<lparr>lv_head := new_node, lv_tail := Some new_node\<rparr>, w)
          else do { self \<leftarrow> set_node (lv_head self) (ln_prev_update (\<lambda>_. new_node)) self;
                    self \<leftarrow> set_node new_node (ln_next_update (\<lambda>_. lv_head self)) self;
                    Some (self\<lparr>lv_head := new_node\<rparr>, w) } }"

section \<open>Queue and stack\<close>

definition queue_new :: LinkedVector where
  "queue_new = linked_vector_new"

definition queue_add :: "U64 \<Rightarrow> LinkedVector \<Rightarrow> world \<Rightarrow> U64 \<Rightarrow> (LinkedVector \<times> world) option" where
  "queue_add new_node self w data = linked_vector_append new_node self w data"

text \<open>The popped object or NULL.\<close>

definition queue_pop :: "LinkedVector \<Rightarrow> world \<Rightarrow> (LinkedVector \<times> world \<times> U64) option" where
  "queue_pop self w =
     (if lv_head self = 0 then Some (self, w, 0)
      else do { let node = lv_head self;
                nd \<leftarrow> lv_nodes self node;
                let self = self\<lparr>lv_head := ln_next nd\<rparr>;
                w \<leftarrow> object_incref (ln_data nd) w;
                (self, w) \<leftarrow> linked_node_free node self w;
                Some (self, w, ln_data nd) })"

definition queue_peek :: "LinkedVector \<Rightarrow> U64 option" where
  "queue_peek self =
     (if lv_head self = 0 then Some 0 else map_option ln_data (lv_nodes self (lv_head self)))"

text \<open>\<open>queue_foreach\<close> calls \<open>f\<close> on the data of all nodes; here it collects them in the order of
  the calls.\<close>

partial_function (option) linked_data_walk :: "LinkedVector \<Rightarrow> U64 \<Rightarrow> U64 list option" where
  "linked_data_walk l current =
     (if current = 0 then Some []
      else Option.bind (lv_nodes l current) (\<lambda>node.
        Option.bind (linked_data_walk l (ln_next node)) (\<lambda>rest. Some (ln_data node # rest))))"

definition queue_foreach :: "LinkedVector \<Rightarrow> U64 list option" where
  "queue_foreach self = linked_data_walk self (lv_head self)"

definition stack_new :: LinkedVector where
  "stack_new = linked_vector_new"

definition stack_add :: "U64 \<Rightarrow> LinkedVector \<Rightarrow> world \<Rightarrow> U64 \<Rightarrow> (LinkedVector \<times> world) option" where
  "stack_add new_node self w data = linked_vector_prepend new_node self w data"

definition stack_peek :: "LinkedVector \<Rightarrow> U64 option" where
  "stack_peek self =
     (if lv_head self = 0 then Some 0 else map_option ln_data (lv_nodes self (lv_head self)))"

definition stack_pop :: "LinkedVector \<Rightarrow> world \<Rightarrow> (LinkedVector \<times> world \<times> U64) option" where
  "stack_pop self w =
     (if lv_head self = 0 then Some (self, w, 0)
      else do { let node = lv_head self;
                nd \<leftarrow> lv_nodes self node;
                w \<leftarrow> object_incref (ln_data nd) w;
                let self = self\<lparr>lv_head := ln_next nd\<rparr>;
                (self, w) \<leftarrow> linked_node_free node self w;
                Some (self, w, ln_data nd) })"

definition stack_foreach :: "LinkedVector \<Rightarrow> U64 list option" where
  "stack_foreach self = linked_data_walk self (lv_head self)"

section \<open>Queue without duplicates\<close>

text \<open>The comparison is a function of the caller; unlike that of a set it returns nonzero for equal
  elements.\<close>

definition cmp_default :: "U64 \<Rightarrow> U64 \<Rightarrow> int" where
  "cmp_default e1 e2 = (if e1 = e2 then 1 else 0)"

definition queue_set_new :: "(U64 \<Rightarrow> U64 \<Rightarrow> int) option \<Rightarrow> LinkedVector \<times> (U64 \<Rightarrow> U64 \<Rightarrow> int)" where
  "queue_set_new cmp = (queue_new, case cmp of None \<Rightarrow> cmp_default | Some c \<Rightarrow> c)"

partial_function (option) queue_set_walk :: "(U64 \<Rightarrow> U64 \<Rightarrow> int) \<Rightarrow> LinkedVector \<Rightarrow> U64 \<Rightarrow> U64 \<Rightarrow> bool option" where
  "queue_set_walk cmp l el current =
     (if current = 0 then Some False
      else Option.bind (lv_nodes l current) (\<lambda>node.
        if cmp (ln_data node) el \<noteq> 0 then Some True else queue_set_walk cmp l el (ln_next node)))"

definition queue_set_inside :: "(U64 \<Rightarrow> U64 \<Rightarrow> int) \<Rightarrow> LinkedVector \<Rightarrow> U64 \<Rightarrow> bool option" where
  "queue_set_inside cmp q el = queue_set_walk cmp q el (lv_head q)"

definition queue_set_add ::
    "(U64 \<Rightarrow> U64 \<Rightarrow> int) \<Rightarrow> U64 \<Rightarrow> LinkedVector \<Rightarrow> world \<Rightarrow> U64 \<Rightarrow> (LinkedVector \<times> world \<times> int) option" where
  "queue_set_add cmp new_node q w el =
     do { r \<leftarrow> queue_set_inside cmp q el;
          if r then Some (q, w, 0)
          else do { (q, w) \<leftarrow> queue_add new_node q w el; Some (q, w, 1) } }"

definition queue_set_peek :: "LinkedVector \<Rightarrow> U64 option" where
  "queue_set_peek q = queue_peek q"

definition queue_set_pop :: "LinkedVector \<Rightarrow> world \<Rightarrow> (LinkedVector \<times> world \<times> U64) option" where
  "queue_set_pop q w = queue_pop q w"

definition queue_set_foreach :: "LinkedVector \<Rightarrow> U64 list option" where
  "queue_set_foreach q = queue_foreach q"

section \<open>The pointers implement a list\<close>

text \<open>Following \<open>next\<close> from an address to NULL visits the given nodes, each with its data.\<close>

fun linked_seg :: "(U64 \<rightharpoonup> LinkedNode) \<Rightarrow> U64 \<Rightarrow> (U64 \<times> U64) list \<Rightarrow> bool" where
  "linked_seg m p [] \<longleftrightarrow> p = 0"
| "linked_seg m p ((a, d) # xs) \<longleftrightarrow>
     p = a \<and> a \<noteq> 0 \<and> (\<exists>nd. m a = Some nd \<and> ln_data nd = d \<and> linked_seg m (ln_next nd) xs)"

definition linked_inv :: "LinkedVector \<Rightarrow> (U64 \<times> U64) list \<Rightarrow> bool" where
  "linked_inv l xs \<longleftrightarrow> linked_seg (lv_nodes l) (lv_head l) xs \<and> distinct (map fst xs)
     \<and> (xs \<noteq> [] \<longrightarrow> lv_tail l = Some (fst (last xs)))"

definition lv_repr :: "LinkedVector \<Rightarrow> U64 list \<Rightarrow> bool" where
  "lv_repr l ds \<longleftrightarrow> (\<exists>xs. linked_inv l xs \<and> map snd xs = ds)"

definition fresh_node :: "LinkedVector \<Rightarrow> U64 \<Rightarrow> bool" where
  "fresh_node l a \<longleftrightarrow> a \<noteq> 0 \<and> lv_nodes l a = None"

lemma linked_seg_other:
  "a \<notin> fst ` set xs \<Longrightarrow> linked_seg (m(a := y)) p xs \<longleftrightarrow> linked_seg m p xs"
  by (induction m p xs rule: linked_seg.induct) auto

lemma linked_seg_dom: "linked_seg m p xs \<Longrightarrow> a \<in> fst ` set xs \<Longrightarrow> m a \<noteq> None"
  by (induction m p xs rule: linked_seg.induct) auto

text \<open>Only data and \<open>next\<close> matter for the list.\<close>

lemma linked_seg_cong:
  "(\<forall>a \<in> fst ` set xs. map_option ln_data (m' a) = map_option ln_data (m a)
      \<and> map_option ln_next (m' a) = map_option ln_next (m a)) \<Longrightarrow>
   linked_seg m' p xs \<longleftrightarrow> linked_seg m p xs"
proof (induction m p xs rule: linked_seg.induct)
  case (2 m p a d xs)
  then show ?case by (cases "m a"; cases "m' a") auto
qed simp

lemma linked_seg_snoc:
  assumes "linked_seg m p (xs @ [(t, d)])" "distinct (map fst (xs @ [(t, d)]))"
    and "a \<noteq> 0" "a \<notin> fst ` set (xs @ [(t, d)])" "m t = Some nt"
    and "nd = \<lparr>ln_data = x, ln_prev = q, ln_next = 0\<rparr>"
  shows "linked_seg (m(a \<mapsto> nd, t \<mapsto> nt\<lparr>ln_next := a\<rparr>)) p (xs @ [(t, d), (a, x)])"
  using assms
proof (induction xs arbitrary: p)
  case Nil
  then show ?case by auto
next
  case (Cons y xs)
  then show ?case by (cases y) (auto simp: image_iff)
qed

lemma linked_seg_empty: "linked_seg m p xs \<Longrightarrow> p = 0 \<longleftrightarrow> xs = []"
  by (cases "(m, p, xs)" rule: linked_seg.cases) auto

lemma linked_seg_nonzero: "linked_seg m p xs \<Longrightarrow> a \<in> fst ` set xs \<Longrightarrow> a \<noteq> 0"
  by (induction m p xs rule: linked_seg.induct) auto

lemma append_repr:
  assumes "lv_repr l ds" "fresh_node l a" "object_incref d w = Some w'"
  shows "\<exists>l'. linked_vector_append a l w d = Some (l', w') \<and> lv_repr l' (ds @ [d])"
proof -
  obtain xs where xs: "linked_seg (lv_nodes l) (lv_head l) xs" "distinct (map fst xs)"
      "xs \<noteq> [] \<longrightarrow> lv_tail l = Some (fst (last xs))" "map snd xs = ds"
    using assms(1) by (auto simp: lv_repr_def linked_inv_def)
  have a: "a \<noteq> 0" "lv_nodes l a = None" "a \<notin> fst ` set xs"
    using assms(2) linked_seg_dom [OF xs(1)] unfolding fresh_node_def by blast+
  let ?nd = "\<lparr>ln_data = d, ln_prev = 0, ln_next = 0\<rparr>"
  show ?thesis
  proof (cases xs rule: rev_cases)
    case Nil
    then have "linked_inv (l\<lparr>lv_nodes := (lv_nodes l)(a \<mapsto> ?nd), lv_head := a, lv_tail := Some a\<rparr>) [(a, d)]"
      using a by (simp add: linked_inv_def)
    then show ?thesis
      using Nil xs assms(3) by (auto simp: linked_vector_append_def linked_node_new_def no_tail_def lv_repr_def
          intro!: exI [of _ "[(a, d)]"])
  next
    case (snoc ys y)
    obtain t dt where y: "y = (t, dt)" by (cases y)
    have "t \<in> fst ` set xs" using snoc y by auto
    then have t0: "t \<noteq> 0" by (rule linked_seg_nonzero [OF xs(1)])
    have head: "lv_head l \<noteq> 0" and t: "lv_tail l = Some t" "t \<noteq> 0" "t \<noteq> a"
      using linked_seg_empty [OF xs(1)] xs snoc y a t0 by auto
    obtain nt where nt: "lv_nodes l t = Some nt"
      using linked_seg_dom [OF xs(1), of t] snoc y by auto
    let ?m = "(lv_nodes l)(a \<mapsto> ?nd, t \<mapsto> nt\<lparr>ln_next := a\<rparr>)"
    let ?m' = "?m(a \<mapsto> ?nd\<lparr>ln_prev := t\<rparr>)"
    let ?l = "l\<lparr>lv_nodes := ?m', lv_tail := Some a\<rparr>"
    have "linked_seg ?m (lv_head l) (ys @ [(t, dt), (a, d)])"
      using linked_seg_snoc [of "lv_nodes l" "lv_head l" ys t dt a nt ?nd d 0] xs snoc y a nt by auto
    then have "linked_seg ?m' (lv_head l) (ys @ [(t, dt), (a, d)])"
      using t(3) by (subst linked_seg_cong [of _ _ ?m]) auto
    then have "linked_inv ?l (xs @ [(a, d)])"
      using xs(2) a(3) snoc y by (auto simp: linked_inv_def)
    moreover have "linked_vector_append a l w d = Some (?l, w')"
      using assms(3) head t nt by (simp add: linked_vector_append_def linked_node_new_def no_tail_def set_node_def)
    ultimately show ?thesis
      using xs(4) by (auto simp: lv_repr_def intro!: exI [of _ "xs @ [(a, d)]"])
  qed
qed

lemma prepend_repr:
  assumes "lv_repr l ds" "fresh_node l a" "object_incref d w = Some w'"
  shows "\<exists>l'. linked_vector_prepend a l w d = Some (l', w') \<and> lv_repr l' (d # ds)"
proof -
  obtain xs where xs: "linked_seg (lv_nodes l) (lv_head l) xs" "distinct (map fst xs)"
      "xs \<noteq> [] \<longrightarrow> lv_tail l = Some (fst (last xs))" "map snd xs = ds"
    using assms(1) by (auto simp: lv_repr_def linked_inv_def)
  have a: "a \<noteq> 0" "lv_nodes l a = None" "a \<notin> fst ` set xs"
    using assms(2) linked_seg_dom [OF xs(1)] unfolding fresh_node_def by blast+
  let ?nd = "\<lparr>ln_data = d, ln_prev = 0, ln_next = 0\<rparr>"
  show ?thesis
  proof (cases xs)
    case Nil
    then have "linked_inv (l\<lparr>lv_nodes := (lv_nodes l)(a \<mapsto> ?nd), lv_head := a, lv_tail := Some a\<rparr>) [(a, d)]"
      using a by (simp add: linked_inv_def)
    then show ?thesis
      using Nil xs assms(3) by (auto simp: linked_vector_prepend_def linked_node_new_def no_tail_def lv_repr_def
          intro!: exI [of _ "[(a, d)]"])
  next
    case (Cons y ys)
    obtain h dh where y: "y = (h, dh)" by (cases y)
    have "fst (last xs) \<in> fst ` set xs" using Cons by auto
    then have "fst (last xs) \<noteq> 0" by (rule linked_seg_nonzero [OF xs(1)])
    then have nt: "lv_head l = h" "h \<noteq> 0" "h \<noteq> a" "no_tail l = Some False"
      using xs Cons y a by (auto simp: no_tail_def)
    obtain nh where nh: "lv_nodes l h = Some nh"
      using xs(1) Cons y by auto
    let ?m = "(lv_nodes l)(a \<mapsto> ?nd, h \<mapsto> nh\<lparr>ln_prev := a\<rparr>)"
    let ?m' = "?m(a \<mapsto> ?nd\<lparr>ln_next := h\<rparr>)"
    let ?l = "l\<lparr>lv_nodes := ?m', lv_head := a\<rparr>"
    have "linked_seg ?m' h xs"
      using xs(1) nt a nh by (subst linked_seg_cong [of _ _ "lv_nodes l"]) auto
    then have "linked_inv ?l ((a, d) # xs)"
      using xs a nt Cons by (simp add: linked_inv_def)
    moreover obtain z where "lv_tail l = Some z" "z \<noteq> 0"
      using xs(3) Cons \<open>fst (last xs) \<noteq> 0\<close> by simp
    then have "linked_vector_prepend a l w d = Some (?l, w')"
      using assms(3) nt nh by (simp add: linked_vector_prepend_def linked_node_new_def no_tail_def set_node_def)
    ultimately show ?thesis
      using xs(4) by (auto simp: lv_repr_def intro!: exI [of _ "(a, d) # xs"])
  qed
qed

text \<open>Both ways of popping take the head and hand its reference over.\<close>

definition refs_ok :: "world \<Rightarrow> U64 \<Rightarrow> bool" where
  "refs_ok w d \<longleftrightarrow> live w d \<and> count_headroom w d"

lemma queue_pop_empty: "lv_repr l [] \<Longrightarrow> queue_pop l w = Some (l, w, 0)"
  by (auto simp: lv_repr_def linked_inv_def queue_pop_def)

lemma queue_pop_cons:
  assumes "lv_repr l (d # ds)" "refs_ok w d"
  shows "\<exists>l'. queue_pop l w = Some (l', w, d) \<and> lv_repr l' ds"
proof -
  obtain a xs where xs: "linked_seg (lv_nodes l) (lv_head l) ((a, d) # xs)" "distinct (map fst ((a, d) # xs))"
      "lv_tail l = Some (fst (last ((a, d) # xs)))" "map snd xs = ds"
    using assms(1) by (auto simp: lv_repr_def linked_inv_def map_eq_Cons_conv)
  then obtain nd where nd: "lv_nodes l a = Some nd" "ln_data nd = d" "linked_seg (lv_nodes l) (ln_next nd) xs"
      "lv_head l = a" "a \<noteq> 0" by auto
  let ?l = "l\<lparr>lv_head := ln_next nd, lv_nodes := (lv_nodes l)(a := None)\<rparr>"
  obtain w1 where "object_incref d w = Some w1" "object_decref d w1 = Some w"
    using rc.hand_over [of w d] assms(2) by (auto simp: refs_ok_def split: bind_splits)
  then have "queue_pop l w = Some (?l, w, d)"
    using nd by (simp add: queue_pop_def linked_node_free_def)
  moreover have "linked_inv ?l xs"
    using nd(3) xs(2,3) by (auto simp: linked_inv_def linked_seg_other)
  ultimately show ?thesis
    using xs(4) by (auto simp: lv_repr_def)
qed

lemma stack_pop_queue_pop: "stack_pop l w = queue_pop l w"
  by (simp add: stack_pop_def queue_pop_def)

lemma walk_repr:
  assumes "linked_seg (lv_nodes l) p xs"
  shows "linked_data_walk l p = Some (map snd xs)"
    and "queue_set_walk cmp l el p = Some (\<exists>d \<in> snd ` set xs. cmp d el \<noteq> 0)"
proof -
  show "linked_data_walk l p = Some (map snd xs)"
    using assms
  proof (induction xs arbitrary: p)
    case (Cons x xs)
    then show ?case by (cases x) (auto simp: linked_data_walk.simps [of l p])
  qed (simp add: linked_data_walk.simps)
  show "queue_set_walk cmp l el p = Some (\<exists>d \<in> snd ` set xs. cmp d el \<noteq> 0)"
    using assms
  proof (induction xs arbitrary: p)
    case (Cons x xs)
    then show ?case by (cases x) (auto simp: queue_set_walk.simps [of cmp l el p])
  qed (simp add: queue_set_walk.simps)
qed

lemma peek_repr: "lv_repr l ds \<Longrightarrow> queue_peek l = Some (if ds = [] then 0 else hd ds)"
proof -
  assume "lv_repr l ds"
  then obtain xs where "linked_seg (lv_nodes l) (lv_head l) xs" "map snd xs = ds"
    by (auto simp: lv_repr_def linked_inv_def)
  then show ?thesis
    by (cases xs) (auto simp: queue_peek_def)
qed

lemma foreach_repr: "lv_repr l ds \<Longrightarrow> queue_foreach l = Some ds"
  using walk_repr(1) by (auto simp: lv_repr_def linked_inv_def queue_foreach_def)

section \<open>Queues and stacks as interfaces\<close>

text \<open>
  A container that hands its elements out in a fixed order. A client that empties it gets
  the elements in this order, and the world, with its reference counts, is as before.
\<close>

fun pop_all :: "('q \<Rightarrow> 'w \<Rightarrow> ('q \<times> 'w \<times> 'x) option) \<Rightarrow> nat \<Rightarrow> 'q \<Rightarrow> 'w \<Rightarrow> ('x list \<times> 'q \<times> 'w) option" where
  "pop_all pop 0 q w = Some ([], q, w)"
| "pop_all pop (Suc n) q w =
     do { (q, w, x) \<leftarrow> pop q w; (xs, q, w) \<leftarrow> pop_all pop n q w; Some (x # xs, q, w) }"

locale pop_order =
  fixes pop :: "'q \<Rightarrow> 'w \<Rightarrow> ('q \<times> 'w \<times> 'x) option"
    and repr :: "'q \<Rightarrow> 'x list \<Rightarrow> bool"
    and owned :: "'w \<Rightarrow> 'x \<Rightarrow> bool"
  assumes pop_cons: "repr q (x # xs) \<Longrightarrow> owned w x \<Longrightarrow> \<exists>q'. pop q w = Some (q', w, x) \<and> repr q' xs"
begin

lemma drain:
  "repr q (xs @ ys) \<Longrightarrow> \<forall>x \<in> set xs. owned w x \<Longrightarrow>
   \<exists>q'. pop_all pop (length xs) q w = Some (xs, q', w) \<and> repr q' ys"
proof (induction xs arbitrary: q)
  case (Cons x xs)
  then obtain q1 where "pop q w = Some (q1, w, x)" "repr q1 (xs @ ys)"
    using pop_cons [of q x "xs @ ys" w] by auto
  then show ?case using Cons.IH [of q1] Cons.prems(2) by auto
qed simp

end

locale fifo_queue = pop_order pop repr owned
  for pop :: "'q \<Rightarrow> 'w \<Rightarrow> ('q \<times> 'w \<times> 'x) option" and repr :: "'q \<Rightarrow> 'x list \<Rightarrow> bool"
    and owned :: "'w \<Rightarrow> 'x \<Rightarrow> bool" +
  fixes add :: "'a \<Rightarrow> 'q \<Rightarrow> 'w \<Rightarrow> 'x \<Rightarrow> ('q \<times> 'w) option"
    and fresh :: "'q \<Rightarrow> 'a \<Rightarrow> bool" and addable :: "'w \<Rightarrow> 'x \<Rightarrow> bool"
  assumes add_last: "repr q xs \<Longrightarrow> fresh q a \<Longrightarrow> addable w x \<Longrightarrow>
      \<exists>q' w'. add a q w x = Some (q', w') \<and> repr q' (xs @ [x])"
begin

text \<open>An element added last comes out after all the others.\<close>

lemma add_then_drain:
  assumes "repr q xs" "fresh q a" "addable w x"
  shows "\<exists>q' w'. add a q w x = Some (q', w') \<and>
    ((\<forall>y \<in> set (xs @ [x]). owned w' y) \<longrightarrow>
      (\<exists>q2. pop_all pop (length xs + 1) q' w' = Some (xs @ [x], q2, w') \<and> repr q2 []))"
proof -
  obtain q' w' where "add a q w x = Some (q', w')" "repr q' ((xs @ [x]) @ [])"
    using add_last [OF assms] by auto
  then show ?thesis using drain [of q' "xs @ [x]" "[]" w'] by auto
qed

end

locale lifo_stack = pop_order pop repr owned
  for pop :: "'q \<Rightarrow> 'w \<Rightarrow> ('q \<times> 'w \<times> 'x) option" and repr :: "'q \<Rightarrow> 'x list \<Rightarrow> bool"
    and owned :: "'w \<Rightarrow> 'x \<Rightarrow> bool" +
  fixes add :: "'a \<Rightarrow> 'q \<Rightarrow> 'w \<Rightarrow> 'x \<Rightarrow> ('q \<times> 'w) option"
    and fresh :: "'q \<Rightarrow> 'a \<Rightarrow> bool" and addable :: "'w \<Rightarrow> 'x \<Rightarrow> bool"
  assumes add_first: "repr q xs \<Longrightarrow> fresh q a \<Longrightarrow> addable w x \<Longrightarrow>
      \<exists>q' w'. add a q w x = Some (q', w') \<and> repr q' (x # xs)"
begin

text \<open>An element added last comes out first.\<close>

lemma add_then_pop:
  assumes "repr q xs" "fresh q a" "addable w x"
  shows "\<exists>q' w'. add a q w x = Some (q', w') \<and>
    (owned w' x \<longrightarrow> (\<exists>q2. pop q' w' = Some (q2, w', x) \<and> repr q2 xs))"
proof -
  obtain q' w' where "add a q w x = Some (q', w')" "repr q' (x # xs)"
    using add_first [OF assms] by auto
  then show ?thesis using pop_cons [of q' x xs w'] by auto
qed

end

lemma live_incref: "live w d \<Longrightarrow> \<exists>w'. object_incref d w = Some w'"
  using rc.incref_alive by blast

interpretation queue: fifo_queue queue_pop lv_repr refs_ok queue_add fresh_node live
proof
  show "lv_repr q (x # xs) \<Longrightarrow> refs_ok w x \<Longrightarrow> \<exists>q'. queue_pop q w = Some (q', w, x) \<and> lv_repr q' xs"
    for q x xs w by (rule queue_pop_cons)
  show "lv_repr q xs \<Longrightarrow> fresh_node q a \<Longrightarrow> live w x \<Longrightarrow>
      \<exists>q' w'. queue_add a q w x = Some (q', w') \<and> lv_repr q' (xs @ [x])" for q xs a w x
    using append_repr live_incref unfolding queue_add_def by metis
qed

interpretation stack: lifo_stack stack_pop lv_repr refs_ok stack_add fresh_node live
proof
  show "lv_repr q (x # xs) \<Longrightarrow> refs_ok w x \<Longrightarrow> \<exists>q'. stack_pop q w = Some (q', w, x) \<and> lv_repr q' xs"
    for q x xs w unfolding stack_pop_queue_pop by (rule queue_pop_cons)
  show "lv_repr q xs \<Longrightarrow> fresh_node q a \<Longrightarrow> live w x \<Longrightarrow>
      \<exists>q' w'. stack_add a q w x = Some (q', w') \<and> lv_repr q' (x # xs)" for q xs a w x
    using prepend_repr live_incref unfolding stack_add_def by metis
qed

section \<open>The contracts of the containers\<close>

text \<open>C26. The queue is first in, first out: an object added to a queue with the content \<open>xs\<close> comes
  out after all of \<open>xs\<close>, which come out in their order; emptying the queue leaves every reference
  count as it was, because each pop hands the reference of the queue over to the caller.\<close>

theorem queue_fifo:
  assumes "lv_repr q xs" "fresh_node q a" "live w x"
  shows "\<exists>q' w'. queue_add a q w x = Some (q', w') \<and> object_incref x w = Some w' \<and>
    ((\<forall>y \<in> set (xs @ [x]). refs_ok w' y) \<longrightarrow>
      (\<exists>q2. pop_all queue_pop (length xs + 1) q' w' = Some (xs @ [x], q2, w')
        \<and> queue_pop q2 w' = Some (q2, w', 0)))"
proof -
  obtain w1 where w1: "object_incref x w = Some w1"
    using live_incref [OF assms(3)] by blast
  then have "\<exists>q'. queue_add a q w x = Some (q', w1)"
    using append_repr [OF assms(1,2) w1] by (auto simp: queue_add_def)
  then show ?thesis
    using queue.add_then_drain [OF assms] queue_pop_empty w1 by fastforce
qed

definition two_objects :: world where
  "two_objects = \<lparr>objs = [7 \<mapsto> 1, 8 \<mapsto> 2], destroyed = [], py_calls = []\<rparr>"

lemma new_repr: "lv_repr queue_new []"
  by (simp add: lv_repr_def linked_inv_def queue_new_def linked_vector_new_def)

lemma queue_fifo_witness:
  "\<exists>q w q2. queue_add 100 queue_new two_objects 7 = Some (q, w)
    \<and> pop_all queue_pop 1 q w = Some ([7], q2, w)"
proof -
  have "fresh_node queue_new 100" "live two_objects 7"
    by (simp_all add: fresh_node_def queue_new_def linked_vector_new_def live_def two_objects_def)
  moreover have "refs_ok w' 7" if "object_incref 7 two_objects = Some w'" for w'
    using that by (auto simp: object_incref_def two_objects_def refs_ok_def live_def count_headroom_def)
  ultimately show ?thesis
    using queue_fifo [OF new_repr, of 100 two_objects 7] by auto
qed

text \<open>The stack is last in, first out: an object added to a stack is the next one popped, and
  the stack below is as it was before, with all reference counts.\<close>

theorem stack_lifo:
  assumes "lv_repr s xs" "fresh_node s a" "live w x"
  shows "\<exists>s' w'. stack_add a s w x = Some (s', w') \<and> stack_foreach s' = Some (x # xs)
    \<and> (refs_ok w' x \<longrightarrow> (\<exists>s2. stack_pop s' w' = Some (s2, w', x) \<and> stack_foreach s2 = Some xs))"
proof -
  obtain w1 where w1: "object_incref x w = Some w1"
    using live_incref [OF assms(3)] by blast
  obtain s' where s': "stack_add a s w x = Some (s', w1)" "lv_repr s' (x # xs)"
    using prepend_repr [OF assms(1,2) w1] by (auto simp: stack_add_def)
  have foreach: "stack_foreach l = Some ds" if "lv_repr l ds" for l ds
    using foreach_repr [OF that] by (simp add: stack_foreach_def queue_foreach_def)
  show ?thesis
    using s' stack.pop_cons [OF s'(2)] foreach by blast
qed

lemma stack_lifo_witness:
  "\<exists>s' w'. stack_add 100 stack_new two_objects 7 = Some (s', w') \<and> stack_foreach s' = Some [7]"
proof -
  have "fresh_node stack_new 100" "live two_objects 7"
    by (simp_all add: fresh_node_def stack_new_def linked_vector_new_def live_def two_objects_def)
  then show ?thesis
    using stack_lifo [of stack_new "[]" 100 two_objects 7] new_repr
    by (auto simp: stack_new_def queue_new_def)
qed

text \<open>C28. A queue set takes an element exactly when none of its elements compares equal to it, and
  then behaves as the queue; so it never holds two elements that compare equal.\<close>

theorem queue_set_distinct:
  assumes "lv_repr q xs" "fresh_node q a" "live w x"
    and "sorted_wrt (\<lambda>x y. cmp x y = 0) xs"
  shows "\<exists>q' w' r. queue_set_add cmp a q w x = Some (q', w', r)
    \<and> (r = 0 \<longleftrightarrow> (\<exists>y \<in> set xs. cmp y x \<noteq> 0))
    \<and> lv_repr q' (if r = 0 then xs else xs @ [x])
    \<and> sorted_wrt (\<lambda>x y. cmp x y = 0) (if r = 0 then xs else xs @ [x])"
proof -
  obtain zs where zs: "linked_seg (lv_nodes q) (lv_head q) zs" "map snd zs = xs"
    using assms(1) by (auto simp: lv_repr_def linked_inv_def)
  have inside: "queue_set_inside cmp q x = Some (\<exists>y \<in> set xs. cmp y x \<noteq> 0)"
    using walk_repr(2) [OF zs(1), of cmp x] zs(2) by (simp add: queue_set_inside_def flip: zs(2))
  obtain q' w' where "queue_add a q w x = Some (q', w')" "lv_repr q' (xs @ [x])"
    using queue.add_last [OF assms(1-3)] by blast
  then show ?thesis
    using inside assms(1,4) by (auto simp: queue_set_add_def sorted_wrt_append)
qed

lemma queue_set_distinct_witness:
  "\<exists>q' w' r. queue_set_add (snd (queue_set_new None)) 100 (fst (queue_set_new None)) two_objects 7 = Some (q', w', r) \<and> r \<noteq> 0"
proof -
  have "fresh_node queue_new 100" "live two_objects 7"
    by (simp_all add: fresh_node_def queue_new_def linked_vector_new_def live_def two_objects_def)
  then show ?thesis
    using queue_set_distinct [OF new_repr, of 100 two_objects 7 cmp_default] by (auto simp: queue_set_new_def)
qed

end
