(* ===== verification/Message.thy ===== *)
theory Message
  imports Prelude
begin

text \<open>
  The message protocol of autogentoo/network: message.c (conversion between Python tuples and
  frames), tcp_client.c, the handling of one request by a worker of tcp_server.c, and the Python
  function of module.c. A connection is the bytes that will arrive, the number of bytes each
  \<open>read\<close> call finds, and the peer's answer to the bytes written; these, the callback and the
  contents of uninitialised memory are parameters. A struct whose bytes were not all read is
  indeterminate, which counts as undefined behaviour. The lemmas show that a request and its reply
  arrive unchanged, and when a reply is followed by a double free.
\<close>

section \<open>Frames on the wire\<close>

record Message =
  token :: U32
  val1 :: U64
  val2 :: U64
  val3 :: U64
  val4 :: U64
  val5 :: U64
  val6 :: U64

record MessageFrame =
  parent :: Message
  fr_size :: U64
  fr_data :: "U8 list option"

definition sizeof_Message :: nat where "sizeof_Message = 56"

text \<open>The struct in memory; the four bytes behind the token are padding.\<close>

definition message_bytes :: "U8 list \<Rightarrow> Message \<Rightarrow> U8 list" where
  "message_bytes pad m =
     le_bytes 4 (token m) @ pad @ le_bytes 8 (val1 m) @ le_bytes 8 (val2 m) @ le_bytes 8 (val3 m)
       @ le_bytes 8 (val4 m) @ le_bytes 8 (val5 m) @ le_bytes 8 (val6 m)"

definition message_of :: "U8 list \<Rightarrow> Message" where
  "message_of bs =
     (let v = (\<lambda>i. le_word (take 8 (drop (8 * i) bs)))
      in \<lparr>token = le_word (take 4 bs), val1 = v 1, val2 = v 2, val3 = v 3, val4 = v 4, val5 = v 5, val6 = v 6\<rparr>)"

text \<open>The end of a connection that receives: \<open>arrivals\<close> limits what the next calls of \<open>read\<close> return,
  behind them every call returns all it asks for.\<close>

record conn =
  in_bytes :: "U8 list"
  arrivals :: "nat list"

definition sock_read :: "nat \<Rightarrow> conn \<Rightarrow> U8 list \<times> conn" where
  "sock_read n c =
     (let k = (case arrivals c of [] \<Rightarrow> n | a # _ \<Rightarrow> min a n)
      in (take k (in_bytes c), c\<lparr>in_bytes := drop k (in_bytes c), arrivals := tl (arrivals c)\<rparr>))"

text \<open>One call of \<open>read\<close> into an object of \<open>n\<close> bytes that is used afterwards.\<close>

definition read_object :: "nat \<Rightarrow> conn \<Rightarrow> (U8 list \<times> conn) option" where
  "read_object n c = (let (bs, c) = sock_read n c in if length bs = n then Some (bs, c) else None)"

definition recv_frame :: "conn \<Rightarrow> (MessageFrame \<times> conn) option" where
  "recv_frame c =
     do { (m, c) \<leftarrow> read_object sizeof_Message c;
          (s, c) \<leftarrow> read_object 8 c;
          let sz = (le_word s :: U64);
          if sz \<noteq> 0
          then do { (d, c) \<leftarrow> read_object (unat sz) c;
                    Some (\<lparr>parent = message_of m, fr_size = sz, fr_data = Some d\<rparr>, c) }
          else Some (\<lparr>parent = message_of m, fr_size = sz, fr_data = None\<rparr>, c) }"

text \<open>The three \<open>write\<close> calls; data shorter than its size is read past its end.\<close>

definition frame_bytes :: "U8 list \<Rightarrow> MessageFrame \<Rightarrow> U8 list option" where
  "frame_bytes pad f =
     (if fr_size f = 0 then Some (message_bytes pad (parent f) @ le_bytes 8 (fr_size f))
      else do { d \<leftarrow> fr_data f;
                if length d < unat (fr_size f) then None
                else Some (message_bytes pad (parent f) @ le_bytes 8 (fr_size f) @ take (unat (fr_size f)) d) })"

section \<open>Frames and Python objects\<close>

datatype pyval = PyNone | PyInt int | PyBytes "U8 list" | PyStr string | PyTuple "pyval list"

text \<open>\<open>PyLong_AsLong\<close> returns -1 for what is no integer of the range of long.\<close>

fun PyLong_AsLong :: "pyval \<Rightarrow> int" where
  "PyLong_AsLong (PyInt i) = (if - (2 ^ 63) \<le> i \<and> i < 2 ^ 63 then i else - 1)"
| "PyLong_AsLong v = - 1"

fun PyBytes_AsLong :: "pyval \<Rightarrow> U64" where
  "PyBytes_AsLong (PyBytes b) = (if length b \<noteq> 8 then 0 else le_word b)"
| "PyBytes_AsLong v = 0"

definition PyMessage_FromMessageFrame :: "MessageFrame \<Rightarrow> pyval option" where
  "PyMessage_FromMessageFrame self =
     do { data \<leftarrow> (if fr_size self \<noteq> 0
            then do { d \<leftarrow> fr_data self;
                      if length d < unat (fr_size self) then None
                      else Some (PyBytes (take (unat (fr_size self)) d)) }
            else Some PyNone);
          let m = parent self;
          Some (PyTuple [PyInt (uint (token m)), PyBytes (le_bytes 8 (val1 m)), PyBytes (le_bytes 8 (val2 m)),
                 PyBytes (le_bytes 8 (val3 m)), PyBytes (le_bytes 8 (val4 m)), PyBytes (le_bytes 8 (val5 m)),
                 PyBytes (le_bytes 8 (val6 m)), data]) }"

text \<open>Items are read without a check of the type or the length of the tuple; data that is neither
  None nor bytes makes the code copy from NULL.\<close>

definition PyMessage_AsMessageFrame :: "pyval \<Rightarrow> MessageFrame option" where
  "PyMessage_AsMessageFrame self =
     (case self of
        PyTuple xs \<Rightarrow>
          if length xs < 8 then None
          else let m = \<lparr>token = word_of_int (PyLong_AsLong (xs ! 0)), val1 = PyBytes_AsLong (xs ! 1),
                 val2 = PyBytes_AsLong (xs ! 2), val3 = PyBytes_AsLong (xs ! 3), val4 = PyBytes_AsLong (xs ! 4),
                 val5 = PyBytes_AsLong (xs ! 5), val6 = PyBytes_AsLong (xs ! 6)\<rparr>
               in (case xs ! 7 of
                     PyNone \<Rightarrow> Some \<lparr>parent = m, fr_size = 0, fr_data = None\<rparr>
                   | PyBytes b \<Rightarrow> Some \<lparr>parent = m, fr_size = word_of_nat (length b), fr_data = Some b\<rparr>
                   | _ \<Rightarrow> None)
      | _ \<Rightarrow> None)"

section \<open>The worker and the client\<close>

text \<open>The handling of one request by \<open>TCPServer_worker_run\<close>. The callback is None when it is not set,
  and returns None when it raises. The result has the bytes of the reply and whether the memory is
  freed correctly afterwards: the code frees the request's data a second time when the reply has
  data, and looks at an uninitialised reply when there is none.\<close>

definition worker_handle ::
    "(pyval \<Rightarrow> pyval option) option \<Rightarrow> U8 list \<Rightarrow> MessageFrame \<Rightarrow> conn \<Rightarrow> (U8 list \<times> bool) option" where
  "worker_handle callback pad garbage c =
     do { (message, c) \<leftarrow> recv_frame c;
          response \<leftarrow> (case callback of
              None \<Rightarrow> Some None
            | Some f \<Rightarrow>
                do { arg \<leftarrow> PyMessage_FromMessageFrame message;
                     case f arg of
                       None \<Rightarrow> Some None
                     | Some py_response \<Rightarrow> map_option Some (PyMessage_AsMessageFrame py_response) });
          out \<leftarrow> (case response of
              Some r \<Rightarrow> frame_bytes pad r
            | None \<Rightarrow> Some (replicate (sizeof_Message + 8) 0));
          let response_size = fr_size (case response of None \<Rightarrow> garbage | Some r \<Rightarrow> r);
          Some (out, fr_size message = 0 \<or> response_size = 0) }"

datatype Address = Net_Addr U16 U32 | Unix_Path string

datatype sockaddr = Sockaddr_in U16 U32 | Sockaddr_un string

text \<open>A peer answers the bytes it gets with bytes and their arrival. A failed connection to a network
  address makes the code print the address as if it were a path.\<close>

type_synonym peer = "U8 list \<Rightarrow> conn"

definition client_sockaddr :: "Address \<Rightarrow> sockaddr" where
  "client_sockaddr address =
     (case address of Unix_Path path \<Rightarrow> Sockaddr_un (take 107 path) | Net_Addr port ip \<Rightarrow> Sockaddr_in port ip)"

definition tcp_client_send_message ::
    "(sockaddr \<Rightarrow> peer option) \<Rightarrow> U8 list \<Rightarrow> Address \<Rightarrow> MessageFrame \<Rightarrow> (int \<times> MessageFrame option) option" where
  "tcp_client_send_message connect pad address message =
     (case connect (client_sockaddr address) of
        None \<Rightarrow> (case address of Unix_Path path \<Rightarrow> Some (- 1, None) | Net_Addr port ip \<Rightarrow> None)
      | Some peer \<Rightarrow>
          do { out \<leftarrow> frame_bytes pad message;
               (reply, c) \<leftarrow> recv_frame (peer out);
               Some (0, Some reply) })"

text \<open>\<open>send_message(address, message)\<close>. An address of another type sets an exception and returns
  None, which the interpreter turns into a SystemError.\<close>

datatype py_reply = Reply pyval | Reply_None | Raise_TypeError | Raise_SystemError

fun parse_address :: "pyval \<Rightarrow> Address + py_reply" where
  "parse_address (PyTuple [ip, port]) =
     Inl (Net_Addr (word_of_int (PyLong_AsLong port)) (word_of_int (PyLong_AsLong ip)))"
| "parse_address (PyTuple xs) = Inr Raise_TypeError"
| "parse_address (PyStr path) = Inl (Unix_Path path)"
| "parse_address v = Inr Raise_SystemError"

definition Py_send_message ::
    "(sockaddr \<Rightarrow> peer option) \<Rightarrow> U8 list \<Rightarrow> pyval list \<Rightarrow> py_reply option" where
  "Py_send_message connect pad args =
     (case args of
        [py_address, PyTuple xs] \<Rightarrow>
          (case parse_address py_address of
             Inr r \<Rightarrow> Some r
           | Inl address \<Rightarrow>
               do { message \<leftarrow> PyMessage_AsMessageFrame (PyTuple xs);
                    (res, reply) \<leftarrow> tcp_client_send_message connect pad address message;
                    if res \<noteq> 0 then Some Reply_None
                    else do { r \<leftarrow> reply; py \<leftarrow> PyMessage_FromMessageFrame r; Some (Reply py) } })
      | _ \<Rightarrow> Some Raise_TypeError)"

section \<open>What arrives is what was sent\<close>

definition frame_ok :: "MessageFrame \<Rightarrow> bool" where
  "frame_ok f \<longleftrightarrow> (if fr_size f = 0 then fr_data f = None
     else \<exists>d. fr_data f = Some d \<and> length d = unat (fr_size f))"

lemma message_roundtrip: "length pad = 4 \<Longrightarrow> message_of (message_bytes pad m) = m"
  by (simp add: message_of_def message_bytes_def le_word_bytes Let_def)

lemma length_message_bytes: "length pad = 4 \<Longrightarrow> length (message_bytes pad m) = sizeof_Message"
  by (simp add: message_bytes_def sizeof_Message_def)

lemma read_object_all:
  "length bs = n \<Longrightarrow> read_object n \<lparr>in_bytes = bs @ rest, arrivals = []\<rparr> = Some (bs, \<lparr>in_bytes = rest, arrivals = []\<rparr>)"
  by (simp add: read_object_def sock_read_def)

lemma frame_roundtrip:
  assumes "frame_ok f" "length pad = 4"
  shows "\<exists>out. frame_bytes pad f = Some out \<and>
    recv_frame \<lparr>in_bytes = out, arrivals = []\<rparr> = Some (f, \<lparr>in_bytes = [], arrivals = []\<rparr>)"
proof (cases "fr_size f = 0")
  case True
  have out: "frame_bytes pad f = Some (message_bytes pad (parent f) @ le_bytes 8 (fr_size f) @ [])"
    using True by (simp add: frame_bytes_def)
  have "f = \<lparr>parent = parent f, fr_size = 0, fr_data = None\<rparr>"
    using True assms(1) by (cases f) (simp add: frame_ok_def)
  then show ?thesis
    using out True assms(2)
    by (simp add: recv_frame_def read_object_all [OF length_message_bytes] read_object_all [OF length_le_bytes]
        le_word_bytes message_roundtrip del: append_Nil2)
next
  case False
  then obtain d where d: "fr_data f = Some d" "length d = unat (fr_size f)"
    using assms(1) by (auto simp: frame_ok_def)
  have out: "frame_bytes pad f = Some (message_bytes pad (parent f) @ le_bytes 8 (fr_size f) @ d @ [])"
    using False d by (simp add: frame_bytes_def)
  have "f = \<lparr>parent = parent f, fr_size = fr_size f, fr_data = Some d\<rparr>"
    using d(1) by (cases f) simp
  then show ?thesis
    using out False assms(2)
    by (simp add: recv_frame_def read_object_all [OF length_message_bytes] read_object_all [OF length_le_bytes]
        read_object_all [OF d(2)] le_word_bytes message_roundtrip del: append_Nil2)
qed

section \<open>Python objects across the connection\<close>

definition message_tuple :: "int \<Rightarrow> U8 list \<Rightarrow> U8 list \<Rightarrow> U8 list \<Rightarrow> U8 list \<Rightarrow> U8 list \<Rightarrow> U8 list \<Rightarrow> pyval \<Rightarrow> pyval" where
  "message_tuple t b1 b2 b3 b4 b5 b6 d =
     PyTuple [PyInt t, PyBytes b1, PyBytes b2, PyBytes b3, PyBytes b4, PyBytes b5, PyBytes b6, d]"

text \<open>A message with a 32-bit token, six parameters of eight bytes and data or none.\<close>

definition is_message :: "pyval \<Rightarrow> bool" where
  "is_message v \<longleftrightarrow> (\<exists>t b1 b2 b3 b4 b5 b6 d. v = message_tuple t b1 b2 b3 b4 b5 b6 d \<and> 0 \<le> t \<and> t < 2 ^ 32
     \<and> (\<forall>b \<in> {b1, b2, b3, b4, b5, b6}. length b = 8)
     \<and> (d = PyNone \<or> (\<exists>b. d = PyBytes b \<and> b \<noteq> [] \<and> length b < 2 ^ 64)))"

lemma bytes_long: "length b = 8 \<Longrightarrow> le_bytes 8 (PyBytes_AsLong (PyBytes b)) = b"
  by (simp add: le_bytes_word)

lemma token_word: "0 \<le> t \<Longrightarrow> t < 2 ^ 32 \<Longrightarrow> uint (word_of_int (PyLong_AsLong (PyInt t)) :: U32) = t"
  by (simp add: uint_word_of_int)

lemma data_size: "b \<noteq> [] \<Longrightarrow> length b < 2 ^ 64 \<Longrightarrow> (word_of_nat (length b) :: U64) \<noteq> 0
    \<and> unat (word_of_nat (length b) :: U64) = length b"
proof -
  assume "b \<noteq> []" "length b < 2 ^ 64"
  then have "unat (word_of_nat (length b) :: U64) = length b" by (simp add: unat_of_nat)
  then show ?thesis using \<open>b \<noteq> []\<close> by auto
qed

lemma message_python:
  assumes "is_message v"
  shows "\<exists>f. PyMessage_AsMessageFrame v = Some f \<and> frame_ok f \<and> PyMessage_FromMessageFrame f = Some v"
proof -
  obtain t b1 b2 b3 b4 b5 b6 d where v: "v = message_tuple t b1 b2 b3 b4 b5 b6 d" "0 \<le> t" "t < 2 ^ 32"
      "\<forall>b \<in> {b1, b2, b3, b4, b5, b6}. length b = 8"
      "d = PyNone \<or> (\<exists>b. d = PyBytes b \<and> b \<noteq> [] \<and> length b < 2 ^ 64)"
    using assms unfolding is_message_def by blast
  have b: "le_bytes 8 (PyBytes_AsLong (PyBytes c)) = c" if "c \<in> {b1, b2, b3, b4, b5, b6}" for c
    using v(4) that by (intro bytes_long) blast
  note bytes = b [of b1] b [of b2] b [of b3] b [of b4] b [of b5] b [of b6]
  show ?thesis
  proof (cases "d = PyNone")
    case True
    then show ?thesis
      using v(1) bytes token_word [OF v(2,3)]
      by (simp add: PyMessage_AsMessageFrame_def PyMessage_FromMessageFrame_def message_tuple_def frame_ok_def
          Let_def del: PyBytes_AsLong.simps PyLong_AsLong.simps)
  next
    case False
    then obtain c where c: "d = PyBytes c" "(word_of_nat (length c) :: U64) \<noteq> 0"
        "unat (word_of_nat (length c) :: U64) = length c"
      using v(5) data_size by blast
    then show ?thesis
      using v(1) bytes token_word [OF v(2,3)]
      by (simp add: PyMessage_AsMessageFrame_def PyMessage_FromMessageFrame_def message_tuple_def frame_ok_def
          Let_def del: PyBytes_AsLong.simps PyLong_AsLong.simps)
  qed
qed

text \<open>A peer that is the server: what a worker answers to the bytes it gets, all of which arrive.\<close>

definition server_peer :: "(pyval \<Rightarrow> pyval option) option \<Rightarrow> U8 list \<Rightarrow> MessageFrame \<Rightarrow> peer" where
  "server_peer callback pad garbage req =
     (case worker_handle callback pad garbage \<lparr>in_bytes = req, arrivals = []\<rparr> of
        None \<Rightarrow> \<lparr>in_bytes = [], arrivals = []\<rparr>
      | Some (out, ok) \<Rightarrow> \<lparr>in_bytes = out, arrivals = []\<rparr>)"

text \<open>What the worker sends when the callback sees \<open>x\<close> and its outcome is \<open>r\<close>.\<close>

lemma worker_answers:
  assumes "PyMessage_AsMessageFrame x = Some m" "frame_ok m" "PyMessage_FromMessageFrame m = Some x" "length pad = 4"
    and "f x = Some y" "PyMessage_AsMessageFrame y = Some r" "frame_ok r" "length pad' = 4"
  shows "\<exists>req out. frame_bytes pad m = Some req \<and> frame_bytes pad' r = Some out
    \<and> worker_handle (Some f) pad' garbage \<lparr>in_bytes = req, arrivals = []\<rparr>
        = Some (out, fr_size m = 0 \<or> fr_size r = 0)"
proof -
  obtain req where req: "frame_bytes pad m = Some req"
      "recv_frame \<lparr>in_bytes = req, arrivals = []\<rparr> = Some (m, \<lparr>in_bytes = [], arrivals = []\<rparr>)"
    using frame_roundtrip [OF assms(2,4)] by blast
  obtain out where out: "frame_bytes pad' r = Some out"
    using frame_roundtrip [OF assms(7,8)] by blast
  show ?thesis
    using req out assms(3,5,6) by (simp add: worker_handle_def)
qed

lemma worker_answers_zeros:
  assumes "PyMessage_AsMessageFrame x = Some m" "frame_ok m" "PyMessage_FromMessageFrame m = Some x" "length pad = 4"
    and "case callback of None \<Rightarrow> True | Some f \<Rightarrow> f x = None"
  shows "\<exists>req. frame_bytes pad m = Some req
    \<and> worker_handle callback pad' garbage \<lparr>in_bytes = req, arrivals = []\<rparr>
        = Some (replicate 64 0, fr_size m = 0 \<or> fr_size garbage = 0)"
proof -
  obtain req where req: "frame_bytes pad m = Some req"
      "recv_frame \<lparr>in_bytes = req, arrivals = []\<rparr> = Some (m, \<lparr>in_bytes = [], arrivals = []\<rparr>)"
    using frame_roundtrip [OF assms(2,4)] by blast
  show ?thesis
    using req assms(3,5) by (cases callback) (simp_all add: worker_handle_def sizeof_Message_def)
qed


definition demo_message :: "int \<Rightarrow> pyval \<Rightarrow> pyval" where
  "demo_message t d = message_tuple t [1, 2, 3, 4, 5, 6, 7, 8] (replicate 8 9) (replicate 8 0) (replicate 8 255)
     (replicate 8 1) (replicate 8 2) d"

lemma demo_is_message: "is_message (demo_message 7 PyNone)" "is_message (demo_message 9 (PyBytes [1, 2]))"
  by (simp_all add: is_message_def demo_message_def message_tuple_def)

definition demo_garbage :: MessageFrame where
  "demo_garbage = \<lparr>parent = message_of [], fr_size = 12, fr_data = None\<rparr>"


text \<open>A callback that raises, and a server without a callback, answer with a message of zeros, so
  the caller gets a regular message with token 0 instead of an error.\<close>

theorem rpc_failure_is_zero_message:
  assumes "is_message x" "case callback of None \<Rightarrow> True | Some f \<Rightarrow> f x = None"
    and "parse_address a = Inl address" "connect (client_sockaddr address) = Some (server_peer callback pad' garbage)"
    and "length pad = 4"
  shows "Py_send_message connect pad [a, x] = Some (Reply (message_tuple 0 (replicate 8 0) (replicate 8 0)
    (replicate 8 0) (replicate 8 0) (replicate 8 0) (replicate 8 0) PyNone))"
proof -
  obtain m where m: "PyMessage_AsMessageFrame x = Some m" "frame_ok m" "PyMessage_FromMessageFrame m = Some x"
    using message_python [OF assms(1)] by blast
  let ?zero = "\<lparr>parent = \<lparr>token = 0, val1 = 0, val2 = 0, val3 = 0, val4 = 0, val5 = 0, val6 = 0\<rparr>,
    fr_size = 0, fr_data = None\<rparr>"
  have zeros: "le_bytes k (0 :: 'a::len word) = replicate k 0" for k
    by (simp add: le_bytes_def map_replicate_const)
  have "frame_bytes (replicate 4 0) ?zero = Some (replicate 64 0)"
    by (simp add: frame_bytes_def message_bytes_def zeros flip: replicate_add)
  then have zero: "recv_frame \<lparr>in_bytes = replicate 64 0, arrivals = []\<rparr> = Some (?zero, \<lparr>in_bytes = [], arrivals = []\<rparr>)"
    using frame_roundtrip [of ?zero "replicate 4 0"] by (simp add: frame_ok_def)
  obtain req where w: "frame_bytes pad m = Some req"
      "worker_handle callback pad' garbage \<lparr>in_bytes = req, arrivals = []\<rparr>
        = Some (replicate 64 0, fr_size m = 0 \<or> fr_size garbage = 0)"
    using worker_answers_zeros [where callback = callback, OF m assms(5,2)] by blast
  have "tcp_client_send_message connect pad address m = Some (0, Some ?zero)"
    using assms(4) w zero by (simp add: tcp_client_send_message_def server_peer_def)
  moreover obtain xs where "x = PyTuple xs"
    using assms(1) by (auto simp: is_message_def message_tuple_def)
  ultimately show ?thesis
    using assms(3) m(1)
    by (simp add: Py_send_message_def PyMessage_FromMessageFrame_def message_tuple_def zeros)
qed

lemma rpc_failure_is_zero_message_witness:
  "\<exists>y. Py_send_message (\<lambda>_. Some (server_peer None [0, 0, 0, 0] demo_garbage)) [9, 9, 9, 9]
     [PyStr ''/run/agd.sock'', demo_message 7 PyNone] = Some (Reply y)"
  by (rule exI, rule rpc_failure_is_zero_message [OF demo_is_message(1) _ _ refl]) simp_all

text \<open>When both the request and the reply carry data the worker sends the right reply and then
  frees the request's data twice.\<close>

theorem worker_double_free:
  assumes x: "x = message_tuple t b1 b2 b3 b4 b5 b6 (PyBytes d)" "is_message x"
    and y: "y = message_tuple t' c1 c2 c3 c4 c5 c6 (PyBytes e)" "is_message y"
    and "f x = Some y" "length pad = 4" "length pad' = 4"
  shows "\<exists>m r req out. PyMessage_AsMessageFrame x = Some m \<and> PyMessage_AsMessageFrame y = Some r
    \<and> frame_bytes pad m = Some req \<and> frame_bytes pad' r = Some out
    \<and> worker_handle (Some f) pad' garbage \<lparr>in_bytes = req, arrivals = []\<rparr> = Some (out, False)"
proof -
  obtain m where m: "PyMessage_AsMessageFrame x = Some m" "frame_ok m" "PyMessage_FromMessageFrame m = Some x"
    using message_python [OF x(2)] by blast
  obtain r where r: "PyMessage_AsMessageFrame y = Some r" "frame_ok r" "PyMessage_FromMessageFrame r = Some y"
    using message_python [OF y(2)] by blast
  have "fr_size g \<noteq> 0" if "PyMessage_FromMessageFrame g = Some (message_tuple s a1 a2 a3 a4 a5 a6 (PyBytes z))"
    for g s a1 a2 a3 a4 a5 a6 z
    using that by (auto simp: PyMessage_FromMessageFrame_def message_tuple_def Let_def)
  then show ?thesis
    using worker_answers [where f = f, OF m assms(6,5) r(1,2) assms(7), of garbage] m r x(1) y(1) by auto
qed

lemma worker_double_free_witness:
  "\<exists>req out. worker_handle (Some (\<lambda>_. Some (demo_message 9 (PyBytes [1, 2])))) [0, 0, 0, 0] demo_garbage
     \<lparr>in_bytes = req, arrivals = []\<rparr> = Some (out, False)"
  using worker_double_free [where f = "\<lambda>_. Some (demo_message 9 (PyBytes [1, 2]))",
      OF demo_message_def demo_is_message(2) demo_message_def demo_is_message(2) refl,
      of "[9, 9, 9, 9]" "[0, 0, 0, 0]" demo_garbage]
  by auto

text \<open>\<open>read\<close> is called once for every object: a request whose first bytes arrive apart from the rest
  leaves the message unfilled, whatever arrives later.\<close>

theorem split_message_lost:
  assumes "k < sizeof_Message"
  shows "recv_frame \<lparr>in_bytes = bs, arrivals = k # ks\<rparr> = None"
  using assms by (simp add: recv_frame_def read_object_def sock_read_def Let_def)

lemma split_message_lost_witness:
  "recv_frame \<lparr>in_bytes = replicate 64 0, arrivals = [32, 32]\<rparr> = None"
  by (rule split_message_lost) (simp add: sizeof_Message_def)

text \<open>A Python object becomes a frame exactly when it is a tuple of at least eight items whose last
  one is None or bytes (a callback that returns None makes the code read outside the object); the
  frame then owns as many bytes as its size says, and a parameter that is not eight bytes becomes 0.\<close>

theorem message_conversion_typed:
  "(case v of PyTuple xs \<Rightarrow> 8 \<le> length xs \<and> (case xs ! 7 of PyNone \<Rightarrow> True | PyBytes b \<Rightarrow> length b < 2 ^ 64 | _ \<Rightarrow> False)
     | _ \<Rightarrow> False)
   \<longleftrightarrow> (\<exists>f xs. PyMessage_AsMessageFrame v = Some f \<and> v = PyTuple xs
      \<and> (case fr_data f of None \<Rightarrow> fr_size f = 0 | Some d \<Rightarrow> unat (fr_size f) = length d)
      \<and> val1 (parent f) = (case xs ! 1 of PyBytes b \<Rightarrow> if length b = 8 then le_word b else 0 | _ \<Rightarrow> 0))"
proof -
  have val: "PyBytes_AsLong w = (case w of PyBytes b \<Rightarrow> if length b = 8 then le_word b else 0 | _ \<Rightarrow> 0)" for w
    by (cases w) auto
  have size: "unat (word_of_nat n :: U64) = n \<longleftrightarrow> n < 2 ^ 64" for n
    using unsigned_less [of "word_of_nat n :: U64"] by (auto simp: unat_of_nat)
  show ?thesis
  proof (cases v)
    case (PyTuple xs)
    then show ?thesis
      using val [of "xs ! 1"] size
      by (cases "xs ! 7") (auto simp: PyMessage_AsMessageFrame_def Let_def not_less)
  qed (simp_all add: PyMessage_AsMessageFrame_def)
qed

end
