(* ===== verification/Server.thy ===== *)
theory Server
  imports Message
begin

text \<open>
  The threads of autogentoo/network/tcp_server.c as a transition system: the workers, the thread
  that accepts connections, and the Python thread that calls \<open>stop\<close>. A step is what a thread does
  between two points where another thread can interfere; a thread that is blocked has no step.
  The mutex, the condition variable, the interpreter lock, and \<open>accept\<close> are modelled by what POSIX
  and CPython promise of them, spurious wake-ups included; clients are the environment. The queue
  of requests is a list, as the queue of linked_vector.c implements it. What a worker does with a
  request is in the theory of messages. The lemmas show that requests are taken in the order of
  their arrival, each once, what a returned \<open>stop\<close> guarantees, that it returns when the server is
  idle, and when it never does.
\<close>

section \<open>Configuration\<close>

text \<open>\<open>TCPServer(address)\<close>: a string is a path, an integer a port, cut to 16 bits.\<close>

definition TCPServer_init :: "pyval \<Rightarrow> Address + py_reply" where
  "TCPServer_init py_address =
     (case py_address of
        PyStr path \<Rightarrow> Inl (Unix_Path path)
      | PyInt i \<Rightarrow> Inl (Net_Addr (word_of_int (PyLong_AsLong (PyInt i))) 0)
      | _ \<Rightarrow> Inr Raise_TypeError)"

text \<open>The calls that open the socket: the new descriptor or -1, and the results of \<open>bind\<close> and
  \<open>listen\<close>. The result has the descriptor the code goes on with and those it has left open.\<close>

record socket_calls =
  os_socket :: int
  os_bind :: "sockaddr \<Rightarrow> int"
  os_listen :: "nat \<Rightarrow> int"

definition open_socket :: "socket_calls \<Rightarrow> sockaddr \<Rightarrow> nat \<Rightarrow> int \<times> int list" where
  "open_socket os addr backlog =
     (let listenfd = os_socket os in
      if listenfd = - 1 then (- 1, [])
      else if os_bind os addr \<noteq> 0 then (- 1, [listenfd])
      else if os_listen os backlog \<noteq> 0 then (- 1, [listenfd])
      else (listenfd, [listenfd]))"

definition TCPServer_init_network_socket :: "socket_calls \<Rightarrow> U16 \<Rightarrow> int \<times> int list" where
  "TCPServer_init_network_socket os port = open_socket os (Sockaddr_in port 0) 64"

definition TCPServer_init_unix_socket :: "socket_calls \<Rightarrow> string \<Rightarrow> int \<times> int list" where
  "TCPServer_init_unix_socket os path = open_socket os (Sockaddr_un (take 107 path)) 32"

definition TCP_WORKER_COUNT :: nat where "TCP_WORKER_COUNT = 8"

section \<open>Threads\<close>

datatype thread = Worker nat | Main | Stopper

text \<open>Where a worker is: at the test of the loop, before the lock, with the lock in front of
  \<open>queue_peek\<close>, in \<open>pthread_cond_wait\<close>, woken up but without the lock, before the unlock that
  continues the loop, before the unlock with a request, reading the request, waiting for the
  interpreter, in the callback, replying, and returned.\<close>

datatype worker_pc =
  W_Check | W_Lock | W_Peek | W_Wait | W_Relock | W_Continue | W_Popped int | W_Read int | W_Gil int
| W_Call int | W_Reply int | W_Done

datatype main_pc = M_Start | M_Check | M_Accept | M_Lock int | M_Add int | M_Unlock | M_Broadcast | M_Done

datatype stop_pc =
  S_Idle | S_Lock | S_Set | S_Unlock | S_Broadcast | S_Join nat | S_Shutdown | S_JoinMain | S_Returned

text \<open>The last three fields only record what has happened: the clients accepted, those whose
  request a worker has taken, and those it has answered, in that order.\<close>

record server =
  keep_alive :: bool
  is_alive :: bool
  sock_open :: bool
  worker_n :: nat
  requests :: "int list"
  lock :: "thread option"
  gil :: "thread option"
  wpc :: "nat \<Rightarrow> worker_pc"
  mpc :: main_pc
  spc :: stop_pc
  accepted :: "int list"
  started :: "int list"
  answered :: "int list"

definition TCPServer_new :: server where
  "TCPServer_new = \<lparr>keep_alive = False, is_alive = False, sock_open = False, worker_n = TCP_WORKER_COUNT,
     requests = [], lock = None, gil = None, wpc = (\<lambda>_. W_Done), mpc = M_Done, spc = S_Idle,
     accepted = [], started = [], answered = []\<rparr>"

text \<open>\<open>start\<close>, with the descriptor that opening the socket returned; it is not looked at.\<close>

definition TCPServer_start :: "int \<Rightarrow> server \<Rightarrow> server" where
  "TCPServer_start socket self = self\<lparr>keep_alive := True, wpc := (\<lambda>_. W_Check),
     sock_open := (socket \<noteq> - 1), mpc := M_Start\<rparr>"

definition goto :: "nat \<Rightarrow> worker_pc \<Rightarrow> server \<Rightarrow> server" where
  "goto i p s = s\<lparr>wpc := (wpc s)(i := p)\<rparr>"

definition broadcast :: "server \<Rightarrow> server" where
  "broadcast s = s\<lparr>wpc := (\<lambda>i. if wpc s i = W_Wait then W_Relock else wpc s i)\<rparr>"

text \<open>\<open>TCPServer_worker_run\<close>.\<close>

definition worker_step :: "nat \<Rightarrow> server \<Rightarrow> server option" where
  "worker_step i s =
     (case wpc s i of
        W_Check \<Rightarrow> Some (goto i (if keep_alive s then W_Lock else W_Done) s)
      | W_Lock \<Rightarrow> if lock s = None then Some (goto i W_Peek (s\<lparr>lock := Some (Worker i)\<rparr>)) else None
      | W_Peek \<Rightarrow>
          (case requests s of
             [] \<Rightarrow> Some (goto i W_Wait (s\<lparr>lock := None\<rparr>))
           | req # rest \<Rightarrow> Some (goto i (W_Popped req) (s\<lparr>requests := rest, started := started s @ [req]\<rparr>)))
      | W_Wait \<Rightarrow> None
      | W_Relock \<Rightarrow> if lock s = None then Some (goto i W_Continue (s\<lparr>lock := Some (Worker i)\<rparr>)) else None
      | W_Continue \<Rightarrow> Some (goto i W_Check (s\<lparr>lock := None\<rparr>))
      | W_Popped req \<Rightarrow> Some (goto i (W_Read req) (s\<lparr>lock := None\<rparr>))
      | W_Read req \<Rightarrow> Some (goto i (W_Gil req) s)
      | W_Gil req \<Rightarrow> if gil s = None then Some (goto i (W_Call req) (s\<lparr>gil := Some (Worker i)\<rparr>)) else None
      | W_Call req \<Rightarrow> Some (goto i (W_Reply req) (s\<lparr>gil := None\<rparr>))
      | W_Reply req \<Rightarrow> Some (goto i W_Check (s\<lparr>answered := answered s @ [req]\<rparr>))
      | W_Done \<Rightarrow> None)"

text \<open>\<open>TCPServer_run\<close>; \<open>accept\<close> on a socket that has been shut down fails at once.\<close>

definition main_step :: "server \<Rightarrow> server option" where
  "main_step s =
     (case mpc s of
        M_Start \<Rightarrow> Some (s\<lparr>is_alive := True, mpc := M_Check\<rparr>)
      | M_Check \<Rightarrow> Some (if keep_alive s then s\<lparr>mpc := M_Accept\<rparr> else s\<lparr>mpc := M_Done, is_alive := False\<rparr>)
      | M_Accept \<Rightarrow> if sock_open s then None else Some (s\<lparr>mpc := M_Check\<rparr>)
      | M_Lock c \<Rightarrow> if lock s = None then Some (s\<lparr>mpc := M_Add c, lock := Some Main\<rparr>) else None
      | M_Add c \<Rightarrow> Some (s\<lparr>mpc := M_Unlock, requests := requests s @ [c]\<rparr>)
      | M_Unlock \<Rightarrow> Some (s\<lparr>mpc := M_Broadcast, lock := None\<rparr>)
      | M_Broadcast \<Rightarrow> Some ((broadcast s)\<lparr>mpc := M_Check\<rparr>)
      | M_Done \<Rightarrow> None)"

text \<open>\<open>TCPServer_stop\<close>, which keeps the interpreter lock of its caller; \<open>pthread_join\<close> waits for the
  end of a thread.\<close>

definition stop_step :: "server \<Rightarrow> server option" where
  "stop_step s =
     (case spc s of
        S_Idle \<Rightarrow> None
      | S_Lock \<Rightarrow> if lock s = None then Some (s\<lparr>spc := S_Set, lock := Some Stopper\<rparr>) else None
      | S_Set \<Rightarrow> Some (s\<lparr>spc := S_Unlock, keep_alive := False\<rparr>)
      | S_Unlock \<Rightarrow> Some (s\<lparr>spc := S_Broadcast, lock := None\<rparr>)
      | S_Broadcast \<Rightarrow> Some ((broadcast s)\<lparr>spc := S_Join 0\<rparr>)
      | S_Join i \<Rightarrow>
          if i < worker_n s then (if wpc s i = W_Done then Some (s\<lparr>spc := S_Join (Suc i)\<rparr>) else None)
          else Some (s\<lparr>spc := S_Shutdown\<rparr>)
      | S_Shutdown \<Rightarrow> Some (s\<lparr>spc := S_JoinMain, sock_open := False\<rparr>)
      | S_JoinMain \<Rightarrow> if mpc s = M_Done then Some (s\<lparr>spc := S_Returned, gil := None\<rparr>) else None
      | S_Returned \<Rightarrow> None)"

text \<open>Steps of the threads, and what the environment can do: a Python thread calls \<open>stop\<close>, a client
  connects, \<open>accept\<close> fails, a waiting worker wakes up without a reason.\<close>

datatype event = Ev_Worker nat | Ev_Main | Ev_Stop | Ev_CallStop | Ev_Connect int | Ev_AcceptFails | Ev_Spurious nat

inductive step :: "server \<Rightarrow> event \<Rightarrow> server \<Rightarrow> bool" where
  step_worker: "i < worker_n s \<Longrightarrow> worker_step i s = Some s' \<Longrightarrow> step s (Ev_Worker i) s'"
| step_main: "main_step s = Some s' \<Longrightarrow> step s Ev_Main s'"
| step_stop: "stop_step s = Some s' \<Longrightarrow> step s Ev_Stop s'"
| step_call: "spc s = S_Idle \<Longrightarrow> gil s = None \<Longrightarrow> step s Ev_CallStop (s\<lparr>spc := S_Lock, gil := Some Stopper\<rparr>)"
| step_connect: "mpc s = M_Accept \<Longrightarrow> sock_open s \<Longrightarrow>
    step s (Ev_Connect c) (s\<lparr>mpc := M_Lock c, accepted := accepted s @ [c]\<rparr>)"
| step_fails: "mpc s = M_Accept \<Longrightarrow> step s Ev_AcceptFails (s\<lparr>mpc := M_Check\<rparr>)"
| step_spurious: "i < worker_n s \<Longrightarrow> wpc s i = W_Wait \<Longrightarrow> step s (Ev_Spurious i) (goto i W_Relock s)"

inductive reachable :: "server \<Rightarrow> bool" where
  reachable_start: "reachable (TCPServer_start socket TCPServer_new)"
| reachable_step: "reachable s \<Longrightarrow> step s e s' \<Longrightarrow> reachable s'"

inductive_cases step_cases: "step s e s'"

section \<open>Invariants\<close>

text \<open>Who holds the locks, and what a thread has in its hands.\<close>

fun locks :: "worker_pc \<Rightarrow> bool" where
  "locks W_Peek = True"
| "locks W_Continue = True"
| "locks (W_Popped req) = True"
| "locks _ = False"

fun taken :: "worker_pc \<Rightarrow> int list" where
  "taken (W_Popped req) = [req]"
| "taken (W_Read req) = [req]"
| "taken (W_Gil req) = [req]"
| "taken (W_Call req) = [req]"
| "taken (W_Reply req) = [req]"
| "taken _ = []"

fun adding :: "main_pc \<Rightarrow> int list" where
  "adding (M_Lock c) = [c]"
| "adding (M_Add c) = [c]"
| "adding _ = []"

fun has_lock :: "server \<Rightarrow> thread \<Rightarrow> bool" where
  "has_lock s (Worker i) = (i < worker_n s \<and> locks (wpc s i))"
| "has_lock s Main = (case mpc s of M_Add c \<Rightarrow> True | M_Unlock \<Rightarrow> True | _ \<Rightarrow> False)"
| "has_lock s Stopper = (spc s \<in> {S_Set, S_Unlock})"

fun has_gil :: "server \<Rightarrow> thread \<Rightarrow> bool" where
  "has_gil s (Worker i) = (i < worker_n s \<and> (case wpc s i of W_Call c \<Rightarrow> True | _ \<Rightarrow> False))"
| "has_gil s Main = False"
| "has_gil s Stopper = (spc s \<notin> {S_Idle, S_Returned})"

definition owned :: "thread option \<Rightarrow> (thread \<Rightarrow> bool) \<Rightarrow> bool" where
  "owned l h \<longleftrightarrow> (\<forall>t. l = Some t \<longleftrightarrow> h t)"

definition inv_lock :: "server \<Rightarrow> bool" where
  "inv_lock s \<longleftrightarrow> owned (lock s) (has_lock s) \<and> owned (gil s) (has_gil s)"

definition inv_order :: "server \<Rightarrow> bool" where
  "inv_order s \<longleftrightarrow> accepted s = started s @ requests s @ adding (mpc s)"

definition inv_answers :: "server \<Rightarrow> bool" where
  "inv_answers s \<longleftrightarrow> mset (started s) = mset (answered s) + (\<Sum>i < worker_n s. mset (taken (wpc s i)))"

definition joined :: "server \<Rightarrow> nat" where
  "joined s = (case spc s of S_Join i \<Rightarrow> min i (worker_n s) | S_Shutdown \<Rightarrow> worker_n s | S_JoinMain \<Rightarrow> worker_n s
     | S_Returned \<Rightarrow> worker_n s | _ \<Rightarrow> 0)"

definition inv_stop :: "server \<Rightarrow> bool" where
  "inv_stop s \<longleftrightarrow> (keep_alive s \<longleftrightarrow> spc s \<in> {S_Idle, S_Lock, S_Set})
     \<and> (\<forall>i < joined s. wpc s i = W_Done) \<and> (mpc s = M_Done \<longrightarrow> \<not> is_alive s)
     \<and> (spc s = S_Returned \<longrightarrow> mpc s = M_Done)"

lemmas step_defs = worker_step_def main_step_def stop_step_def goto_def broadcast_def

lemma owned_change:
  assumes "owned l h" "h' = h(t := b)"
    and "b = h t \<and> l' = l \<or> l = None \<and> b \<and> l' = Some t \<or> h t \<and> \<not> b \<and> l' = None"
  shows "owned l' h'"
  using assms unfolding owned_def by (metis fun_upd_apply option.inject option.distinct(1))

lemma fun_eq_thread: "f = g \<longleftrightarrow> (\<forall>i. f (Worker i) = g (Worker i)) \<and> f Main = g Main \<and> f Stopper = g Stopper"
  by (metis ext thread.exhaust)

lemma worker_locks:
  assumes "worker_step i s = Some s'" "i < worker_n s"
  shows "has_lock s' = (has_lock s)(Worker i := has_lock s' (Worker i))"
    and "has_gil s' = (has_gil s)(Worker i := has_gil s' (Worker i))"
  using assms by (auto simp: fun_eq_thread step_defs split: worker_pc.splits if_splits list.splits)

text \<open>The three ways in which a step of a thread changes a lock.\<close>

definition lock_move :: "thread \<Rightarrow> thread option \<Rightarrow> bool \<Rightarrow> thread option \<Rightarrow> bool \<Rightarrow> bool" where
  "lock_move t l h l' h' \<longleftrightarrow> h' = h \<and> l' = l \<or> l = None \<and> h' \<and> l' = Some t \<or> h \<and> \<not> h' \<and> l' = None"

lemma worker_lock_moves:
  assumes "worker_step i s = Some s'" "i < worker_n s"
  shows "lock_move (Worker i) (lock s) (has_lock s (Worker i)) (lock s') (has_lock s' (Worker i))"
    and "lock_move (Worker i) (gil s) (has_gil s (Worker i)) (gil s') (has_gil s' (Worker i))"
  using assms by (auto simp: lock_move_def step_defs split: worker_pc.splits if_splits list.splits)

lemma main_locks:
  assumes "main_step s = Some s'"
  shows "has_lock s' = (has_lock s)(Main := has_lock s' Main)" "has_gil s' = has_gil s" "gil s' = gil s"
    and "lock_move Main (lock s) (has_lock s Main) (lock s') (has_lock s' Main)"
  using assms by (auto simp: fun_eq_thread lock_move_def step_defs split: main_pc.splits if_splits worker_pc.splits)

lemma stop_locks:
  assumes "stop_step s = Some s'"
  shows "has_lock s' = (has_lock s)(Stopper := has_lock s' Stopper)"
    and "has_gil s' = (has_gil s)(Stopper := has_gil s' Stopper)"
    and "lock_move Stopper (lock s) (has_lock s Stopper) (lock s') (has_lock s' Stopper)"
    and "lock_move Stopper (gil s) (has_gil s Stopper) (gil s') (has_gil s' Stopper)"
  using assms by (auto simp: fun_eq_thread lock_move_def step_defs split: stop_pc.splits if_splits worker_pc.splits)

lemma inv_lock_step:
  assumes "step s e s'" "inv_lock s"
  shows "inv_lock s'"
  using assms
proof (cases rule: step.cases)
  case (step_worker i)
  note own = owned_change [OF _ worker_locks(1) [OF step_worker(3,2)]] owned_change [OF _ worker_locks(2) [OF step_worker(3,2)]]
  show ?thesis
    using assms(2) own worker_lock_moves [OF step_worker(3,2)] unfolding inv_lock_def lock_move_def by blast
next
  case step_main
  then show ?thesis
    using assms(2) owned_change [OF _ main_locks(1) [OF step_main(2)]] main_locks [OF step_main(2)]
    unfolding inv_lock_def lock_move_def by metis
next
  case step_stop
  then show ?thesis
    using assms(2) owned_change [OF _ stop_locks(1) [OF step_stop(2)]] owned_change [OF _ stop_locks(2) [OF step_stop(2)]]
      stop_locks(3,4) [OF step_stop(2)] unfolding inv_lock_def lock_move_def by blast
next
  case step_call
  have "has_lock s' = has_lock s" "has_gil s' = (has_gil s)(Stopper := True)"
    using step_call by (auto simp: fun_eq_thread)
  then show ?thesis
    using assms(2) step_call owned_change [of "gil s" "has_gil s" "has_gil s'" Stopper True "gil s'"]
    by (auto simp: inv_lock_def)
next
  case (step_connect c)
  have "has_lock s' = has_lock s" "has_gil s' = has_gil s"
    using step_connect by (auto simp: fun_eq_thread)
  then show ?thesis using assms(2) step_connect by (simp add: inv_lock_def)
next
  case step_fails
  have "has_lock s' = has_lock s" "has_gil s' = has_gil s"
    using step_fails by (auto simp: fun_eq_thread)
  then show ?thesis using assms(2) step_fails by (simp add: inv_lock_def)
next
  case (step_spurious i)
  have "has_lock s' = has_lock s" "has_gil s' = has_gil s"
    using step_spurious by (auto simp: fun_eq_thread goto_def)
  then show ?thesis using assms(2) step_spurious by (simp add: inv_lock_def goto_def)
qed

lemma inv_order_step:
  assumes "step s e s'" "inv_order s"
  shows "inv_order s'"
  using assms
proof (cases rule: step.cases)
  case (step_worker i)
  then show ?thesis
    using assms(2) by (auto simp: inv_order_def step_defs split: worker_pc.splits if_splits list.splits)
next
  case step_main
  then show ?thesis
    using assms(2) by (auto simp: inv_order_def step_defs split: main_pc.splits if_splits)
next
  case step_stop
  then show ?thesis
    using assms(2) by (auto simp: inv_order_def step_defs split: stop_pc.splits if_splits)
qed (auto simp: inv_order_def goto_def)

lemma taken_relock: "taken (if p = W_Wait then W_Relock else p) = taken p"
  by (cases p) auto

lemma taken_sum:
  fixes i n :: nat
  assumes "i < n"
  shows "(\<Sum>j < n. mset (taken ((w(i := p)) j))) + mset (taken (w i)) = (\<Sum>j < n. mset (taken (w j))) + mset (taken p)"
proof -
  have "(\<Sum>j < n. mset (taken (v j))) = mset (taken (v i)) + (\<Sum>j \<in> {..<n} - {i}. mset (taken (v j)))" for v
    by (rule sum.remove) (use assms in auto)
  from this [of w] this [of "w(i := p)"] show ?thesis
    by simp
qed

lemma mset_balance:
  fixes a b c :: "'a multiset"
  assumes "a' + b + p = a + b' + p'" "c' + p = c + p'" "a = b + c"
  shows "a' = b' + c'"
proof -
  have "a' + (b + p + c) = (a + b' + p') + c"
    unfolding assms(1) [symmetric] by (simp add: ac_simps)
  also have "\<dots> = a + b' + (c' + p)"
    unfolding assms(2) by (simp add: ac_simps)
  also have "\<dots> = (b' + c') + (b + p + c)"
    unfolding assms(3) by (simp add: ac_simps)
  finally show ?thesis by simp
qed

lemma inv_answers_step:
  assumes "step s e s'" "inv_answers s"
  shows "inv_answers s'"
  using assms
proof (cases rule: step.cases)
  case (step_worker i)
  have moved: "mset (started s') + mset (answered s) + mset (taken (wpc s i))
      = mset (started s) + mset (answered s') + mset (taken (wpc s' i))"
    and wpc: "wpc s' = (wpc s)(i := wpc s' i)" "worker_n s' = worker_n s"
    using step_worker(3) by (auto simp: step_defs split: worker_pc.splits if_splits list.splits)
  have "(\<Sum>j < worker_n s. mset (taken (wpc s' j))) + mset (taken (wpc s i))
      = (\<Sum>j < worker_n s. mset (taken (wpc s j))) + mset (taken (wpc s' i))"
    by (subst wpc(1)) (rule taken_sum [OF step_worker(2)])
  from mset_balance [OF moved this] show ?thesis
    using assms(2) wpc(2) unfolding inv_answers_def by simp
next
  case step_main
  then show ?thesis
    using assms(2) by (auto simp: inv_answers_def step_defs taken_relock split: main_pc.splits if_splits)
next
  case step_stop
  then show ?thesis
    using assms(2) by (auto simp: inv_answers_def step_defs taken_relock split: stop_pc.splits if_splits)
next
  case (step_spurious i)
  have "taken (((wpc s)(i := W_Relock)) j) = taken (wpc s j)" for j
    using step_spurious by simp
  then show ?thesis
    using assms(2) step_spurious by (simp add: inv_answers_def goto_def)
qed (auto simp: inv_answers_def goto_def)

lemma worker_done: "worker_step i s = Some s' \<Longrightarrow> wpc s i \<noteq> W_Done"
  by (auto simp: step_defs)

lemma relock_done [simp]: "(if p = W_Wait then W_Relock else p) = W_Done \<longleftrightarrow> p = W_Done"
  by auto

lemma worker_frame:
  assumes "worker_step i s = Some s'"
  shows "keep_alive s' = keep_alive s \<and> spc s' = spc s \<and> mpc s' = mpc s \<and> is_alive s' = is_alive s
    \<and> worker_n s' = worker_n s \<and> sock_open s' = sock_open s \<and> (\<forall>j. j \<noteq> i \<longrightarrow> wpc s' j = wpc s j)"
  using assms by (auto simp: step_defs split: worker_pc.splits if_splits list.splits)

lemma main_frame:
  assumes "main_step s = Some s'"
  shows "keep_alive s' = keep_alive s \<and> spc s' = spc s \<and> worker_n s' = worker_n s \<and> sock_open s' = sock_open s
    \<and> (\<forall>j. wpc s' j = W_Done \<longleftrightarrow> wpc s j = W_Done)"
  using assms by (auto simp: step_defs split: main_pc.splits if_splits)

lemma inv_stop_step:
  assumes "step s e s'" "inv_stop s"
  shows "inv_stop s'"
  using assms
proof (cases rule: step.cases)
  case (step_worker i)
  have "joined s' = joined s"
    using worker_frame [OF step_worker(3)] by (auto simp: joined_def split: stop_pc.split)
  moreover have "wpc s' j = W_Done" if "j < joined s" for j
    using that assms(2) worker_done [OF step_worker(3)] worker_frame [OF step_worker(3)]
    by (cases "j = i") (auto simp: inv_stop_def)
  ultimately show ?thesis
    using assms(2) worker_frame [OF step_worker(3)] by (auto simp: inv_stop_def)
next
  case step_main
  have "joined s' = joined s"
    using main_frame [OF step_main(2)] by (auto simp: joined_def split: stop_pc.split)
  moreover have "(mpc s' = M_Done \<longrightarrow> \<not> is_alive s') \<and> mpc s \<noteq> M_Done"
    using step_main(2) by (auto simp: step_defs split: main_pc.splits if_splits)
  ultimately show ?thesis
    using assms(2) main_frame [OF step_main(2)] by (auto simp: inv_stop_def)
next
  case step_stop
  then show ?thesis
    using assms(2)
    by (cases "spc s") (auto simp: inv_stop_def joined_def step_defs min_def less_Suc_eq split: if_splits)
next
  case (step_spurious i)
  then show ?thesis
    using assms(2) by (auto simp: inv_stop_def goto_def joined_def split: stop_pc.splits)
qed (auto simp: inv_stop_def joined_def split: stop_pc.splits)

definition server_inv :: "server \<Rightarrow> bool" where
  "server_inv s \<longleftrightarrow> inv_lock s \<and> inv_order s \<and> inv_answers s \<and> inv_stop s"

lemma server_inv_step: "server_inv s \<Longrightarrow> step s e s' \<Longrightarrow> server_inv s'"
  unfolding server_inv_def
  by (blast intro: inv_lock_step inv_order_step inv_answers_step inv_stop_step)

lemma server_inv_start: "server_inv (TCPServer_start socket TCPServer_new)"
proof -
  let ?s = "TCPServer_start socket TCPServer_new"
  have none: "\<not> has_lock ?s t" "\<not> has_gil ?s t" for t
    by (cases t; simp add: TCPServer_start_def TCPServer_new_def)+
  have "lock ?s = None" "gil ?s = None"
    by (simp_all add: TCPServer_start_def TCPServer_new_def)
  then have "inv_lock ?s"
    using none by (simp add: inv_lock_def owned_def)
  then show ?thesis
    by (simp add: server_inv_def TCPServer_start_def TCPServer_new_def inv_order_def inv_answers_def
        inv_stop_def joined_def)
qed

lemma reachable_inv: "reachable s \<Longrightarrow> server_inv s"
  by (induction rule: reachable.induct) (blast intro: server_inv_start server_inv_step)+

section \<open>Runs\<close>

text \<open>The steps as a function of the event, to compute runs.\<close>

definition exec :: "event \<Rightarrow> server \<Rightarrow> server option" where
  "exec e s =
     (case e of
        Ev_Worker i \<Rightarrow> if i < worker_n s then worker_step i s else None
      | Ev_Main \<Rightarrow> main_step s
      | Ev_Stop \<Rightarrow> stop_step s
      | Ev_CallStop \<Rightarrow> if spc s = S_Idle \<and> gil s = None then Some (s\<lparr>spc := S_Lock, gil := Some Stopper\<rparr>) else None
      | Ev_Connect c \<Rightarrow> if mpc s = M_Accept \<and> sock_open s
          then Some (s\<lparr>mpc := M_Lock c, accepted := accepted s @ [c]\<rparr>) else None
      | Ev_AcceptFails \<Rightarrow> if mpc s = M_Accept then Some (s\<lparr>mpc := M_Check\<rparr>) else None
      | Ev_Spurious i \<Rightarrow> if i < worker_n s \<and> wpc s i = W_Wait then Some (goto i W_Relock s) else None)"

lemma step_iff: "step s e s' \<longleftrightarrow> exec e s = Some s'"
  by (auto simp: exec_def step.simps split: event.splits if_splits)

fun run :: "event list \<Rightarrow> server \<Rightarrow> server option" where
  "run [] s = Some s"
| "run (e # es) s = Option.bind (exec e s) (run es)"

lemma run_reachable: "reachable s \<Longrightarrow> run es s = Some s' \<Longrightarrow> reachable s'"
  by (induction es arbitrary: s) (auto simp: step_iff [symmetric] split: bind_splits intro: reachable_step)

text \<open>The start, up to the first state in which all threads wait, and the same server when one
  client has connected and worker 0 waits for the interpreter.\<close>

definition warm_up :: "event list" where
  "warm_up = [Ev_Main, Ev_Main] @ concat (map (\<lambda>i. [Ev_Worker i, Ev_Worker i, Ev_Worker i]) [0..<TCP_WORKER_COUNT])"

definition idle_server :: server where
  "idle_server = the (run warm_up (TCPServer_start 3 TCPServer_new))"

lemma idle_server_reachable: "reachable idle_server"
proof -
  have "run warm_up (TCPServer_start 3 TCPServer_new) \<noteq> None"
    by code_simp
  then show ?thesis
    using run_reachable [OF reachable_start] by (auto simp: idle_server_def)
qed

lemma idle_server_state: "spc idle_server = S_Idle \<and> gil idle_server = None \<and> lock idle_server = None
    \<and> worker_n idle_server = 8 \<and> mpc idle_server = M_Accept \<and> sock_open idle_server
    \<and> list_all (\<lambda>i. wpc idle_server i = W_Wait) [0..<8]"
  by code_simp

definition one_request :: "event list" where
  "one_request = [Ev_Connect 7, Ev_Main, Ev_Main, Ev_Main, Ev_Main] @ replicate 7 (Ev_Worker 0)"

definition busy_server :: server where
  "busy_server = the (run (warm_up @ one_request @ [Ev_CallStop]) (TCPServer_start 3 TCPServer_new))"

lemma busy_server_reachable: "reachable busy_server"
proof -
  have "run (warm_up @ one_request @ [Ev_CallStop]) (TCPServer_start 3 TCPServer_new) \<noteq> None"
    by code_simp
  then show ?thesis
    using run_reachable [OF reachable_start] by (auto simp: busy_server_def)
qed

lemma busy_server_state: "wpc busy_server 0 = W_Gil 7 \<and> gil busy_server = Some Stopper \<and> spc busy_server = S_Lock
    \<and> accepted busy_server = [7] \<and> worker_n busy_server = 8"
  by code_simp

text \<open>A server that has been stopped after it answered one request.\<close>

definition shutdown :: "event list" where
  "shutdown = [Ev_CallStop] @ replicate 4 Ev_Stop
     @ concat (map (\<lambda>i. [Ev_Worker i, Ev_Worker i, Ev_Worker i]) [0..<TCP_WORKER_COUNT])
     @ replicate 10 Ev_Stop @ [Ev_Main, Ev_Stop]"

definition served_server :: server where
  "served_server = the (run (warm_up @ one_request @ replicate 6 (Ev_Worker 0) @ shutdown) (TCPServer_start 3 TCPServer_new))"

lemma served_server_reachable: "reachable served_server"
proof -
  have "run (warm_up @ one_request @ replicate 6 (Ev_Worker 0) @ shutdown) (TCPServer_start 3 TCPServer_new) \<noteq> None"
    by code_simp
  then show ?thesis
    using run_reachable [OF reachable_start] by (auto simp: served_server_def)
qed

lemma served_server_state: "spc served_server = S_Returned \<and> answered served_server = [7]"
  by code_simp

section \<open>What the server guarantees\<close>

text \<open>C7. In every reachable state requests have been taken in the order in which the clients were
  accepted, and no request is lost or doubled: the accepted ones are those taken, then those in
  the queue, then the one the accepting thread is about to add; and those taken are the answered
  ones and those in the hands of a worker.\<close>

theorem server_serves_in_order:
  assumes "reachable s"
  shows "accepted s = started s @ requests s @ adding (mpc s)
    \<and> mset (started s) = mset (answered s) + (\<Sum>i < worker_n s. mset (taken (wpc s i)))"
  using reachable_inv [OF assms] by (simp add: server_inv_def inv_order_def inv_answers_def)

lemma server_serves_in_order_witness:
  "accepted busy_server = started busy_server @ requests busy_server @ adding (mpc busy_server)
    \<and> accepted busy_server = [7]"
  using server_serves_in_order [OF busy_server_reachable] busy_server_state by blast

text \<open>The queue and the interpreter are each used by one thread at a time: two threads that are
  in the sections the mutex protects, or hold the interpreter lock, are the same thread.\<close>

theorem server_mutual_exclusion:
  assumes "reachable s" "has_lock s t \<and> has_lock s u \<or> has_gil s t \<and> has_gil s u"
  shows "t = u"
proof -
  have "owned (lock s) (has_lock s)" "owned (gil s) (has_gil s)"
    using reachable_inv [OF assms(1)] by (simp_all add: server_inv_def inv_lock_def)
  then show ?thesis
    using assms(2) unfolding owned_def by (metis option.inject)
qed

lemma server_mutual_exclusion_witness: "has_gil busy_server Stopper \<and> \<not> has_gil busy_server (Worker 0)"
proof -
  have "has_gil busy_server Stopper"
    using busy_server_state by simp
  then show ?thesis
    using server_mutual_exclusion [OF busy_server_reachable, of Stopper "Worker 0"] by blast
qed

text \<open>C29. When \<open>stop\<close> has returned all threads have ended and the server counts as dead; every request
  that was taken has been answered, exactly once. The requests left in the queue are dropped.\<close>

theorem server_stopped:
  assumes "reachable s" "spc s = S_Returned"
  shows "(\<forall>i < worker_n s. wpc s i = W_Done) \<and> mpc s = M_Done \<and> \<not> is_alive s \<and> \<not> keep_alive s
    \<and> accepted s = started s @ requests s \<and> mset (started s) = mset (answered s)"
proof -
  note inv = reachable_inv [OF assms(1)]
  have done_all: "\<forall>i < worker_n s. wpc s i = W_Done" and main: "mpc s = M_Done"
    using inv assms(2) by (auto simp: server_inv_def inv_stop_def joined_def)
  then show ?thesis
    using inv assms(2) by (auto simp: server_inv_def inv_stop_def inv_order_def inv_answers_def)
qed

lemma server_stopped_witness: "mpc served_server = M_Done \<and> mset (started served_server) = {#7#}"
  using server_stopped [OF served_server_reachable] served_server_state by simp

inductive steps :: "server \<Rightarrow> server \<Rightarrow> bool" where
  steps_refl: "steps s s"
| steps_step: "steps s s1 \<Longrightarrow> step s1 e s2 \<Longrightarrow> steps s s2"

section \<open>When stop does not return\<close>

text \<open>A worker that will need the interpreter lock.\<close>

definition wants_gil :: "worker_pc \<Rightarrow> bool" where
  "wants_gil p \<longleftrightarrow> (\<exists>c. p = W_Popped c \<or> p = W_Read c \<or> p = W_Gil c)"

lemma wants_gil_step:
  assumes step: "step s e s'" and inv: "server_inv s"
    and i: "i < worker_n s" "wants_gil (wpc s i)" and gil: "gil s = Some Stopper"
  shows "i < worker_n s' \<and> wants_gil (wpc s' i) \<and> gil s' = Some Stopper"
proof -
  have own: "owned (gil s) (has_gil s)" and inv': "server_inv s'"
    using inv server_inv_step [OF inv step] by (simp_all add: server_inv_def inv_lock_def)
  have "has_gil s Stopper"
    using own gil unfolding owned_def by blast
  then have called: "spc s \<noteq> S_Idle" by auto
  have keep: "i < worker_n s' \<and> wants_gil (wpc s' i) \<and> spc s' \<noteq> S_Idle"
    using step
  proof (cases rule: step.cases)
    case (step_worker j)
    then show ?thesis
      using i gil called worker_frame [OF step_worker(3)]
      by (cases "j = i") (auto simp: step_defs wants_gil_def split: if_splits)
  next
    case step_main
    then show ?thesis
      using i called main_frame [OF step_main(2)]
      by (auto simp: step_defs wants_gil_def split: main_pc.splits if_splits)
  next
    case step_stop
    then show ?thesis
      using i called by (auto simp: step_defs wants_gil_def split: stop_pc.splits if_splits)
  next
    case (step_spurious j)
    then show ?thesis
      using i called by (cases "j = i") (auto simp: goto_def wants_gil_def)
  qed (use i called in auto)
  then have "wpc s' i \<noteq> W_Done" by (auto simp: wants_gil_def)
  then have "spc s' \<noteq> S_Returned"
    using inv' keep by (auto simp: server_inv_def inv_stop_def joined_def)
  then have "has_gil s' Stopper"
    using keep by simp
  then have "gil s' = Some Stopper"
    using inv' unfolding server_inv_def inv_lock_def owned_def by blast
  then show ?thesis using keep by simp
qed

lemma wants_gil_steps:
  assumes "steps s s'" "server_inv s" "i < worker_n s" "wants_gil (wpc s i)" "gil s = Some Stopper"
  shows "server_inv s' \<and> i < worker_n s' \<and> wants_gil (wpc s' i) \<and> gil s' = Some Stopper"
  using assms
proof (induction rule: steps.induct)
  case (steps_refl s)
  then show ?case by simp
next
  case (steps_step s s1 e s2)
  then have "server_inv s1 \<and> i < worker_n s1 \<and> wants_gil (wpc s1 i) \<and> gil s1 = Some Stopper" by blast
  then show ?case
    using wants_gil_step [OF steps_step.hyps(2)] server_inv_step [OF _ steps_step.hyps(2)] by blast
qed

text \<open>C30. \<open>stop\<close> keeps the interpreter lock while it waits for the workers: once it has been called
  while a worker has a request whose callback has not started, it never returns, whatever the
  threads and the environment do.\<close>

theorem stop_waits_for_itself:
  assumes "reachable s" "gil s = Some Stopper" "i < worker_n s" "wants_gil (wpc s i)" "steps s s'"
  shows "spc s' \<noteq> S_Returned \<and> wants_gil (wpc s' i)"
proof -
  have end_inv: "server_inv s'" and wants: "wants_gil (wpc s' i)" and held: "gil s' = Some Stopper"
    using wants_gil_steps [OF assms(5) reachable_inv [OF assms(1)] assms(3,4,2)] by simp_all
  have "has_gil s' Stopper"
    using end_inv held unfolding server_inv_def inv_lock_def owned_def by blast
  then show ?thesis using wants by simp
qed

lemma stop_waits_for_itself_witness:
  "\<exists>s. steps busy_server s \<and> mpc s = M_Accept \<and> spc s \<noteq> S_Returned"
proof -
  have main: "mpc busy_server = M_Check \<and> keep_alive busy_server"
    by code_simp
  let ?s = "busy_server\<lparr>mpc := M_Accept\<rparr>"
  have "step busy_server Ev_Main ?s"
    using main by (intro step_main) (simp add: main_step_def)
  then have "steps busy_server ?s"
    by (blast intro: steps_refl steps_step)
  moreover from this have "spc ?s \<noteq> S_Returned"
    using stop_waits_for_itself [OF busy_server_reachable, of 0 ?s] busy_server_state
    by (simp add: wants_gil_def)
  moreover have "mpc ?s = M_Accept" by simp
  ultimately show ?thesis by blast
qed

end
