(* ===== verification/Stop.thy ===== *)
theory Stop
  imports Server
begin

text \<open>
  When \<open>TCPServer_stop\<close> of autogentoo/network/tcp_server.c returns: from an idle server every run of
  the threads is finite and ends with its return; and a run in which it waits for ever because
  a worker has looked at \<open>keep_alive\<close> before it was cleared and waits for the signal afterwards.
\<close>

section \<open>Runs of the threads\<close>

text \<open>The steps of the threads alone: no client connects, \<open>accept\<close> does not fail, and no worker
  wakes up without a signal. The number counts the steps.\<close>

fun thread_event :: "event \<Rightarrow> bool" where
  "thread_event (Ev_Worker i) = True"
| "thread_event Ev_Main = True"
| "thread_event Ev_Stop = True"
| "thread_event _ = False"

inductive thread_run :: "server \<Rightarrow> nat \<Rightarrow> server \<Rightarrow> bool" where
  thread_run_refl: "thread_run s 0 s"
| thread_run_step: "thread_run s k s1 \<Longrightarrow> thread_event e \<Longrightarrow> step s1 e s2 \<Longrightarrow> thread_run s (Suc k) s2"

text \<open>All workers wait for a request, and the accepting thread for a client.\<close>

definition idle :: "server \<Rightarrow> bool" where
  "idle s \<longleftrightarrow> (\<forall>i < worker_n s. wpc s i = W_Wait) \<and> mpc s = M_Accept \<and> sock_open s"

section \<open>The shutdown of an idle server\<close>

definition called :: "stop_pc \<Rightarrow> bool" where
  "called p \<longleftrightarrow> p = S_Lock \<or> p = S_Set \<or> p = S_Unlock \<or> p = S_Broadcast"

fun leaving :: "worker_pc \<Rightarrow> bool" where
  "leaving W_Relock = True"
| "leaving W_Continue = True"
| "leaving W_Check = True"
| "leaving W_Done = True"
| "leaving _ = False"

definition stopping :: "server \<Rightarrow> bool" where
  "stopping s \<longleftrightarrow> spc s \<noteq> S_Idle
     \<and> (\<forall>i < worker_n s. if called (spc s) then wpc s i = W_Wait else leaving (wpc s i))
     \<and> (case spc s of S_Join i \<Rightarrow> i \<le> worker_n s | _ \<Rightarrow> True)
     \<and> (sock_open s \<longleftrightarrow> spc s \<noteq> S_JoinMain \<and> spc s \<noteq> S_Returned)
     \<and> (mpc s = M_Accept \<or> \<not> sock_open s \<and> (mpc s = M_Check \<or> mpc s = M_Done))"

fun stop_rank :: "nat \<Rightarrow> stop_pc \<Rightarrow> nat" where
  "stop_rank n S_Lock = n + 8"
| "stop_rank n S_Set = n + 7"
| "stop_rank n S_Unlock = n + 6"
| "stop_rank n S_Broadcast = n + 5"
| "stop_rank n (S_Join i) = n + 4 - i"
| "stop_rank n S_Shutdown = 3"
| "stop_rank n S_JoinMain = 2"
| "stop_rank n _ = 0"

fun worker_rank :: "worker_pc \<Rightarrow> nat" where
  "worker_rank W_Wait = 4"
| "worker_rank W_Relock = 3"
| "worker_rank W_Continue = 2"
| "worker_rank W_Check = 1"
| "worker_rank _ = 0"

fun main_rank :: "main_pc \<Rightarrow> nat" where
  "main_rank M_Accept = 2"
| "main_rank M_Check = 1"
| "main_rank _ = 0"

definition rank :: "server \<Rightarrow> nat" where
  "rank s = stop_rank (worker_n s) (spc s) + (\<Sum>i < worker_n s. worker_rank (wpc s i)) + main_rank (mpc s)"

lemma rank_worker:
  assumes "i < worker_n s" "worker_rank (wpc s' i) < worker_rank (wpc s i)" "worker_n s' = worker_n s"
    and "\<forall>j. j \<noteq> i \<longrightarrow> wpc s' j = wpc s j" "spc s' = spc s" "mpc s' = mpc s"
  shows "rank s' < rank s"
proof -
  have "(\<Sum>j < worker_n s. worker_rank (wpc s' j)) < (\<Sum>j < worker_n s. worker_rank (wpc s j))"
  proof (rule sum_strict_mono_ex1)
    show "\<forall>j \<in> {..<worker_n s}. worker_rank (wpc s' j) \<le> worker_rank (wpc s j)"
      using assms(2,4) by (metis less_imp_le order_refl)
  qed (use assms(1,2) in auto)
  then show ?thesis
    using assms(3,5,6) by (simp add: rank_def)
qed

lemma rank_woken:
  "(\<Sum>i < (n::nat). worker_rank (if w i = W_Wait then W_Relock else w i)) \<le> (\<Sum>i < n. worker_rank (w i))"
  by (rule sum_mono) simp

lemma stopping_worker:
  assumes s': "worker_step i s = Some s'" and i: "i < worker_n s" and s: "stopping s" "server_inv s"
  shows "stopping s' \<and> rank s' < rank s"
proof -
  note frame = worker_frame [OF s']
  have "wpc s i \<noteq> W_Wait" using s' by (auto simp: worker_step_def)
  then have late: "\<not> called (spc s)" and "leaving (wpc s i)"
    using s(1) i unfolding stopping_def by (metis, metis)
  have "\<not> keep_alive s"
    using s late by (auto simp: server_inv_def inv_stop_def stopping_def called_def)
  then have "leaving (wpc s' i) \<and> worker_rank (wpc s' i) < worker_rank (wpc s i)"
    using s' \<open>leaving (wpc s i)\<close> by (cases "wpc s i") (auto simp: step_defs split: if_splits)
  moreover have "stopping s'"
    using s(1) late frame calculation unfolding stopping_def by metis
  ultimately show ?thesis
    using rank_worker [OF i] frame by blast
qed

lemma stopping_main:
  assumes s': "main_step s = Some s'" and s: "stopping s" "server_inv s"
  shows "stopping s' \<and> rank s' < rank s"
proof -
  have closed: "\<not> sock_open s" and pc: "mpc s = M_Accept \<or> mpc s = M_Check"
    using s' s(1) by (auto simp: stopping_def main_step_def split: if_splits)
  then have "spc s = S_JoinMain \<or> spc s = S_Returned"
    using s(1) by (auto simp: stopping_def)
  then have "\<not> keep_alive s"
    using s(2) by (auto simp: server_inv_def inv_stop_def)
  then show ?thesis
    using s' pc closed s(1) by (auto simp: main_step_def stopping_def rank_def split: if_splits)
qed

lemma stopping_stop:
  assumes s': "stop_step s = Some s'" and s: "stopping s"
  shows "stopping s' \<and> rank s' < rank s"
proof (cases "spc s")
  case S_Broadcast
  then have "stopping s'"
    using s' s by (auto simp: stop_step_def stopping_def called_def broadcast_def)
  then show ?thesis
    using s' S_Broadcast rank_woken [of "wpc s" "worker_n s"]
    by (auto simp: stop_step_def rank_def broadcast_def)
qed (use s' s in \<open>auto simp: stop_step_def stopping_def called_def rank_def split: if_splits\<close>)

lemma stopping_step:
  assumes "step s e s'" "thread_event e" "stopping s" "server_inv s"
  shows "stopping s' \<and> rank s' < rank s"
  using assms(1)
proof (cases rule: step.cases)
  case (step_worker i)
  then show ?thesis using stopping_worker assms(3,4) by blast
next
  case step_main
  then show ?thesis using stopping_main assms(3,4) by blast
next
  case step_stop
  then show ?thesis using stopping_stop assms(3) by blast
qed (use assms(2) in auto)

lemma thread_run_stopping:
  assumes "thread_run s k s'" "stopping s" "server_inv s"
  shows "stopping s' \<and> server_inv s' \<and> k + rank s' \<le> rank s"
  using assms
proof (induction rule: thread_run.induct)
  case (thread_run_refl s)
  then show ?case by simp
next
  case (thread_run_step s k s1 e s2)
  then have "stopping s1 \<and> server_inv s1 \<and> k + rank s1 \<le> rank s" by blast
  then show ?case
    using stopping_step [OF thread_run_step.hyps(3,2)] server_inv_step [OF _ thread_run_step.hyps(3)]
    by fastforce
qed

text \<open>As long as \<open>stop\<close> has not returned, some thread can go on.\<close>

lemma leaving_moves:
  assumes "i < worker_n s" "leaving (wpc s i)" "wpc s i \<noteq> W_Done" "wpc s i = W_Relock \<Longrightarrow> lock s = None"
  shows "\<exists>e s'. thread_event e \<and> step s e s'"
proof -
  have "worker_step i s \<noteq> None"
    using assms(2-4) by (cases "wpc s i") (auto simp: worker_step_def)
  then obtain s' where "worker_step i s = Some s'" by blast
  then have "step s (Ev_Worker i) s'"
    using assms(1) by (simp add: step.step_worker)
  then show ?thesis by (intro exI [of _ "Ev_Worker i"]) auto
qed

lemma stop_moves: "stop_step s \<noteq> None \<Longrightarrow> \<exists>e s'. thread_event e \<and> step s e s'"
  by (auto intro!: exI [of _ Ev_Stop] step.step_stop)

lemma main_moves: "main_step s \<noteq> None \<Longrightarrow> \<exists>e s'. thread_event e \<and> step s e s'"
  by (auto intro!: exI [of _ Ev_Main] step.step_main)

lemma stopping_lock:
  assumes "stopping s" "server_inv s" "lock s = Some t"
  shows "t = Stopper \<and> (spc s = S_Set \<or> spc s = S_Unlock) \<or> (\<exists>i < worker_n s. t = Worker i \<and> wpc s i = W_Continue)"
proof -
  have holder: "has_lock s t"
    using assms(2,3) unfolding server_inv_def inv_lock_def owned_def by blast
  show ?thesis
  proof (cases t)
    case (Worker i)
    then have "i < worker_n s" "locks (wpc s i)" using holder by simp_all
    moreover have "wpc s i = W_Wait \<or> leaving (wpc s i)"
      using assms(1) \<open>i < worker_n s\<close> unfolding stopping_def by metis
    ultimately show ?thesis
      using Worker by (cases "wpc s i") auto
  next
    case Main
    then show ?thesis
      using holder assms(1) by (auto simp: stopping_def)
  qed (use holder in auto)
qed

lemma stopping_progress:
  assumes s: "stopping s" "server_inv s" and "spc s \<noteq> S_Returned"
  shows "\<exists>e s'. thread_event e \<and> step s e s'"
proof (cases "spc s")
  case S_Lock
  have "lock s = None"
  proof (rule ccontr)
    assume "lock s \<noteq> None"
    then obtain i where "i < worker_n s" "wpc s i = W_Continue"
      using stopping_lock [OF s] S_Lock by auto
    then show False using s(1) S_Lock by (auto simp: stopping_def called_def)
  qed
  then show ?thesis
    using S_Lock by (intro stop_moves) (simp add: stop_step_def)
next
  case (S_Join i)
  show ?thesis
  proof (cases "i < worker_n s \<and> wpc s i \<noteq> W_Done")
    case True
    then have leaving: "leaving (wpc s i)"
      using s(1) S_Join by (auto simp: stopping_def called_def)
    show ?thesis
    proof (cases "lock s")
      case None
      then show ?thesis using leaving_moves [OF _ leaving] True by simp
    next
      case (Some t)
      then obtain j where "j < worker_n s" "wpc s j = W_Continue"
        using stopping_lock [OF s] S_Join by auto
      then show ?thesis using leaving_moves [of j s] by simp
    qed
  next
    case False
    then show ?thesis using S_Join by (intro stop_moves) (auto simp: stop_step_def)
  qed
next
  case S_JoinMain
  then consider "mpc s = M_Done" | "mpc s = M_Check" | "mpc s = M_Accept" "\<not> sock_open s"
    using s(1) by (auto simp: stopping_def)
  then have "stop_step s \<noteq> None \<or> main_step s \<noteq> None"
    by cases (use S_JoinMain in \<open>auto simp: stop_step_def main_step_def\<close>)
  then show ?thesis using stop_moves main_moves by blast
qed (rule stop_moves; use assms in \<open>auto simp: stop_step_def stopping_def\<close>)+

lemma idle_stopping:
  assumes "idle s" "step s Ev_CallStop s'"
  shows "stopping s' \<and> rank s' = 5 * worker_n s + 10"
proof -
  have s': "s' = s\<lparr>spc := S_Lock, gil := Some Stopper\<rparr>"
    using assms(2) by (auto elim: step.cases)
  have "(\<Sum>i < worker_n s. worker_rank (wpc s i)) = (\<Sum>i < worker_n s. 4)"
    using assms(1) by (intro sum.cong) (auto simp: idle_def)
  then show ?thesis
    using assms(1) s' by (auto simp: idle_def stopping_def called_def rank_def)
qed

text \<open>C14. When \<open>stop\<close> is called on an idle server and the environment keeps quiet, it returns: every
  run of the threads has at most \<open>5 n + 10\<close> steps with \<open>n\<close> workers, and no state before the return
  of \<open>stop\<close> is without a next step.\<close>

theorem stop_returns_when_idle:
  assumes "reachable s" "idle s" "step s Ev_CallStop s1" "thread_run s1 k s2"
  shows "k \<le> 5 * worker_n s + 10 \<and> (spc s2 = S_Returned \<or> (\<exists>e s3. thread_event e \<and> step s2 e s3))"
proof -
  have "server_inv s1"
    using reachable_inv [OF reachable_step [OF assms(1,3)]] .
  then have "stopping s2 \<and> server_inv s2 \<and> k + rank s2 \<le> 5 * worker_n s + 10"
    using thread_run_stopping [OF assms(4)] idle_stopping [OF assms(2,3)] by simp
  then show ?thesis
    using stopping_progress [of s2] by auto
qed


lemma stop_returns_when_idle_witness:
  "idle idle_server \<and> (\<exists>s1 s2. step idle_server Ev_CallStop s1 \<and> thread_run s1 1 s2
    \<and> (spc s2 = S_Returned \<or> (\<exists>e s3. thread_event e \<and> step s2 e s3)))"
proof -
  have idle: "idle idle_server"
    using idle_server_state by (simp add: idle_def list_all_iff)
  obtain s1 where s1: "step idle_server Ev_CallStop s1" "s1 = idle_server\<lparr>spc := S_Lock, gil := Some Stopper\<rparr>"
    using idle_server_state step_call by auto
  have "lock s1 = None"
    using s1(2) idle_server_state by simp
  then obtain s2 where "step s1 Ev_Stop s2"
    using s1(2) step_stop [of s1] by (auto simp: stop_step_def)
  then have run: "thread_run s1 1 s2"
    using thread_run_step [OF thread_run_refl, of Ev_Stop s1 s2] by simp
  then show ?thesis
    using stop_returns_when_idle [OF idle_server_reachable idle s1(1) run] idle s1(1) by blast
qed

section \<open>The lost wake-up\<close>

text \<open>Worker 0 finds \<open>keep_alive\<close> set, \<open>stop\<close> clears it and signals, and only then the worker takes
  the lock, finds no request, and waits. The other threads end.\<close>

definition lost_wakeup :: "event list" where
  "lost_wakeup = [Ev_Worker 0, Ev_CallStop, Ev_Stop, Ev_Stop, Ev_Stop, Ev_Stop, Ev_Worker 0, Ev_Worker 0]
     @ map Ev_Worker [1..<TCP_WORKER_COUNT] @ [Ev_Main, Ev_Main]"

definition stuck_server :: server where
  "stuck_server = the (run lost_wakeup (TCPServer_start 3 TCPServer_new))"

lemma stuck_server_reachable: "reachable stuck_server"
proof -
  have "run lost_wakeup (TCPServer_start 3 TCPServer_new) \<noteq> None"
    by code_simp
  then show ?thesis
    using run_reachable [OF reachable_start] by (auto simp: stuck_server_def)
qed

lemma stuck_server_state: "spc stuck_server = S_Join 0 \<and> worker_n stuck_server = 8 \<and> mpc stuck_server = M_Done
    \<and> wpc stuck_server 0 = W_Wait \<and> list_all (\<lambda>i. wpc stuck_server i = W_Done) [1..<8]"
  by code_simp

text \<open>C32. \<open>keep_alive\<close> is tested before the lock is taken: there is a run in which \<open>stop\<close> waits for a
  worker that waits for a signal nobody will send. The only steps of that state are wake-ups of
  this worker without a signal.\<close>

theorem stop_lost_wakeup:
  "reachable stuck_server \<and> spc stuck_server = S_Join 0 \<and> {e. \<exists>s. step stuck_server e s} = {Ev_Spurious 0}"
proof -
  let ?s = stuck_server
  have "wpc ?s i = W_Done" if "i \<noteq> 0" "i < 8" for i
    using that stuck_server_state by (simp add: list_all_iff)
  then have workers: "wpc ?s i = (if i = 0 then W_Wait else W_Done)" if "i < 8" for i
    using that stuck_server_state by simp
  have "step ?s (Ev_Spurious 0) (goto 0 W_Relock ?s)"
    using stuck_server_state step_spurious by simp
  moreover have "e = Ev_Spurious 0" if "step ?s e s" for e s
    using that
  proof (cases rule: step.cases)
    case (step_worker i)
    then show ?thesis
      using workers [of i] stuck_server_state by (auto simp: worker_step_def split: if_splits)
  next
    case (step_spurious i)
    then show ?thesis
      using workers [of i] stuck_server_state by (auto split: if_splits)
  qed (use stuck_server_state in \<open>auto simp: main_step_def stop_step_def\<close>)
  ultimately show ?thesis
    using stuck_server_reachable stuck_server_state by blast
qed

end
