(* ===== verification/Vector.thy ===== *)
theory Vector
  imports Objects
begin

text \<open>
  The growing array of autogentoo/hacksaw/vector.c. The memory behind \<open>ptr\<close> is a list of cells, one for each allocated place, and a cell that
  has not been written is None; touching another place, or using an unwritten cell, is undefined
  behaviour, as is \<open>memcpy\<close> between places that overlap. Elements are addresses of counted objects.
  The lemmas show that adding and inserting implement the list operations, and when removing is
  defined.
\<close>

section \<open>Allocated cells\<close>

definition cell_read :: "'a option list \<Rightarrow> nat \<Rightarrow> 'a option" where
  "cell_read m i = (if i < length m then m ! i else None)"

definition cell_write :: "'a option list \<Rightarrow> nat \<Rightarrow> 'a option \<Rightarrow> 'a option list option" where
  "cell_write m i x = (if i < length m then Some (m[i := x]) else None)"

definition cells_realloc :: "'a option list \<Rightarrow> nat \<Rightarrow> 'a option list" where
  "cells_realloc m s = take s m @ replicate (s - length m) None"

text \<open>\<open>memmove\<close> of \<open>n\<close> cells, and \<open>memcpy\<close>, which must not be used when they overlap.\<close>

definition cells_memmove :: "'a option list \<Rightarrow> nat \<Rightarrow> nat \<Rightarrow> nat \<Rightarrow> 'a option list option" where
  "cells_memmove m dest src n =
     (if dest + n \<le> length m \<and> src + n \<le> length m
      then Some (take dest m @ take n (drop src m) @ drop (dest + n) m) else None)"

definition cells_memcpy :: "'a option list \<Rightarrow> nat \<Rightarrow> nat \<Rightarrow> nat \<Rightarrow> 'a option list option" where
  "cells_memcpy m dest src n =
     (if n \<le> dest - src + (src - dest) then cells_memmove m dest src n else None)"

lemma length_cells_realloc [simp]: "length (cells_realloc m s) = s"
  by (simp add: cells_realloc_def)

lemma take_cells_realloc: "n \<le> length m \<Longrightarrow> n \<le> s \<Longrightarrow> take n (cells_realloc m s) = take n m"
  by (simp add: cells_realloc_def min_def)

section \<open>The vector\<close>

text \<open>\<open>vec_free\<close> says whether the header has a function that frees the object; \<open>vector_new\<close> does not
  set it. The length is a C int; allocation succeeds.\<close>

record Vector =
  vec_free :: bool
  vec_ptr :: "U64 option list"
  vec_n :: nat
  vec_s :: nat
  vec_opts :: U32

definition VECTOR_UNORDERED :: U32 where "VECTOR_UNORDERED = 0"
definition VECTOR_ORDERED :: U32 where "VECTOR_ORDERED = 1"
definition VECTOR_KEEP :: U32 where "VECTOR_KEEP = 2"
definition VECTOR_REMOVE :: U32 where "VECTOR_REMOVE = 0"

definition vector_new :: "U32 \<Rightarrow> Vector" where
  "vector_new opts = \<lparr>vec_free = False, vec_ptr = replicate 32 None, vec_n = 0, vec_s = 32, vec_opts = opts\<rparr>"

definition vector_allocate :: "Vector \<Rightarrow> Vector" where
  "vector_allocate vec = vec\<lparr>vec_s := vec_s vec * 2, vec_ptr := cells_realloc (vec_ptr vec) (vec_s vec * 2)\<rparr>"

definition vector_allocate_to_size :: "Vector \<Rightarrow> nat \<Rightarrow> Vector" where
  "vector_allocate_to_size vec s = vec\<lparr>vec_s := vec_s vec + s, vec_ptr := cells_realloc (vec_ptr vec) (vec_s vec + s)\<rparr>"

definition vector_get :: "Vector \<Rightarrow> nat \<Rightarrow> U64 option" where
  "vector_get vec i = cell_read (vec_ptr vec) i"

definition count_up :: "nat \<Rightarrow> nat option" where
  "count_up n = (if n + 1 < 2 ^ 31 then Some (n + 1) else None)"

definition vector_add :: "Vector \<Rightarrow> U64 \<Rightarrow> world \<Rightarrow> (Vector \<times> world \<times> nat) option" where
  "vector_add vec el w =
     do { n \<leftarrow> count_up (vec_n vec);
          let vec = (if vec_s vec = n then vector_allocate vec else vec);
          w \<leftarrow> object_incref el w;
          ptr \<leftarrow> cell_write (vec_ptr vec) (vec_n vec) (Some el);
          Some (vec\<lparr>vec_ptr := ptr, vec_n := n\<rparr>, w, vec_n vec) }"

definition prv_vector_keep_remove :: "Vector \<Rightarrow> nat \<Rightarrow> (Vector \<times> U64) option" where
  "prv_vector_keep_remove vec index =
     do { out \<leftarrow> vector_get vec index;
          ptr \<leftarrow> cell_write (vec_ptr vec) index (Some 0);
          Some (vec\<lparr>vec_ptr := ptr\<rparr>, out) }"

definition prv_vector_remove_unordered :: "Vector \<Rightarrow> nat \<Rightarrow> (Vector \<times> U64) option" where
  "prv_vector_remove_unordered vec index =
     do { last_data \<leftarrow> (if vec_n vec = 0 then None else vector_get vec (vec_n vec - 1));
          out_data \<leftarrow> vector_get vec index;
          ptr \<leftarrow> cell_write (vec_ptr vec) index (Some last_data);
          ptr \<leftarrow> cell_write ptr (vec_n vec - 1) (Some 0);
          Some (vec\<lparr>vec_ptr := ptr\<rparr>, out_data) }"

definition prv_vector_remove_ordered :: "Vector \<Rightarrow> nat \<Rightarrow> (Vector \<times> U64) option" where
  "prv_vector_remove_ordered vec index =
     do { out_data \<leftarrow> vector_get vec index;
          ptr \<leftarrow> (if index \<le> vec_n vec
                 then cells_memcpy (vec_ptr vec) index (index + 1) (vec_n vec - index) else None);
          Some (vec\<lparr>vec_ptr := ptr\<rparr>, out_data) }"

text \<open>The element given back is 0 (NULL) for an index that is too large. It is also returned when its
  count has dropped to 0 and it has been freed.\<close>

definition vector_remove :: "Vector \<Rightarrow> nat \<Rightarrow> world \<Rightarrow> (Vector \<times> world \<times> U64) option" where
  "vector_remove vec index w =
     (if index \<ge> vec_n vec then Some (vec, w, 0)
      else do {
        (vec, out) \<leftarrow>
          (if vec_opts vec AND VECTOR_KEEP \<noteq> 0 then prv_vector_keep_remove vec index
           else let vec = vec\<lparr>vec_n := vec_n vec - 1\<rparr> in
             if vec_opts vec AND VECTOR_UNORDERED \<noteq> 0 then prv_vector_remove_unordered vec index
             else prv_vector_remove_ordered vec index);
        w \<leftarrow> object_decref out w;
        Some (vec, w, out) })"

definition vector_insert :: "Vector \<Rightarrow> U64 \<Rightarrow> nat \<Rightarrow> world \<Rightarrow> (Vector \<times> world) option" where
  "vector_insert vec el index w =
     do { n \<leftarrow> count_up (vec_n vec);
          let vec = (if vec_s vec \<le> n then vector_allocate vec else vec);
          ptr \<leftarrow> (if index \<le> vec_n vec
                 then cells_memmove (vec_ptr vec) (index + 1) index (vec_n vec - index) else None);
          w \<leftarrow> object_incref el w;
          ptr \<leftarrow> cell_write ptr index (Some el);
          Some (vec\<lparr>vec_ptr := ptr, vec_n := n\<rparr>, w) }"

text \<open>The loops over a vector, with the indices still to come. \<open>vector_extend\<close> is for two different
  vectors; a vector extended by itself grows as fast as the loop runs.\<close>

fun vector_extend_loop :: "Vector \<Rightarrow> Vector \<Rightarrow> nat list \<Rightarrow> world \<Rightarrow> (Vector \<times> world) option" where
  "vector_extend_loop dest ex [] w = Some (dest, w)"
| "vector_extend_loop dest ex (i # rest) w =
     do { el \<leftarrow> vector_get ex i;
          (dest, w, _) \<leftarrow> vector_add dest el w;
          vector_extend_loop dest ex rest w }"

definition vector_extend :: "Vector \<Rightarrow> Vector \<Rightarrow> world \<Rightarrow> (Vector \<times> world) option" where
  "vector_extend dest ex w = vector_extend_loop dest ex [0..<vec_n ex] w"

fun vector_foreach_loop :: "Vector \<Rightarrow> (U64 \<Rightarrow> world \<Rightarrow> world option) \<Rightarrow> nat list \<Rightarrow> world \<Rightarrow> world option" where
  "vector_foreach_loop vec f [] w = Some w"
| "vector_foreach_loop vec f (i # rest) w =
     do { el \<leftarrow> vector_get vec i; w \<leftarrow> f el w; vector_foreach_loop vec f rest w }"

definition vector_foreach :: "Vector \<Rightarrow> (U64 \<Rightarrow> world \<Rightarrow> world option) \<Rightarrow> world \<Rightarrow> world option" where
  "vector_foreach vec f w = vector_foreach_loop vec f [0..<vec_n vec] w"

definition vector_free :: "Vector \<Rightarrow> world \<Rightarrow> world option" where
  "vector_free self w = vector_foreach self object_decref w"

section \<open>A vector as a list\<close>

definition vec_repr :: "Vector \<Rightarrow> U64 list \<Rightarrow> bool" where
  "vec_repr vec xs \<longleftrightarrow> length (vec_ptr vec) = vec_s vec \<and> vec_n vec = length xs \<and> vec_n vec < vec_s vec
     \<and> take (length xs) (vec_ptr vec) = map Some xs"

lemma vector_new_repr: "vec_repr (vector_new opts) []"
  by (simp add: vec_repr_def vector_new_def)

lemma vec_repr_get:
  assumes "vec_repr vec xs" "i < length xs"
  shows "vector_get vec i = Some (xs ! i)"
proof -
  have "take (length xs) (vec_ptr vec) ! i = map Some xs ! i"
    using assms(1) by (simp only: vec_repr_def)
  then show ?thesis
    using assms by (simp add: vec_repr_def vector_get_def cell_read_def)
qed

lemma vec_repr_allocate: "vec_repr vec xs \<Longrightarrow> vec_repr (vector_allocate vec) xs"
  by (simp add: vec_repr_def vector_allocate_def take_cells_realloc)

lemma vec_repr_allocate_to_size: "vec_repr vec xs \<Longrightarrow> vec_repr (vector_allocate_to_size vec s) xs"
  by (simp add: vec_repr_def vector_allocate_to_size_def take_cells_realloc)

text \<open>Room for one more element, as the additions make it.\<close>

lemma vec_repr_room:
  assumes "vec_repr vec xs"
  shows "vec_repr (if vec_s vec = length xs + 1 then vector_allocate vec else vec) xs
    \<and> length xs + 1 < vec_s (if vec_s vec = length xs + 1 then vector_allocate vec else vec)"
  using assms vec_repr_allocate [OF assms] by (auto simp: vec_repr_def vector_allocate_def)

lemma vec_repr_write:
  assumes "vec_repr vec xs" "length xs + 1 < vec_s vec"
  shows "vec_repr (vec\<lparr>vec_ptr := (vec_ptr vec)[length xs := Some el], vec_n := length xs + 1\<rparr>) (xs @ [el])"
  using assms by (simp add: vec_repr_def take_Suc_conv_app_nth)

lemma vector_add_repr:
  assumes "vec_repr vec xs" "live w el" "length xs + 1 < 2 ^ 31"
  shows "\<exists>vec' w'. vector_add vec el w = Some (vec', w', length xs) \<and> vec_repr vec' (xs @ [el])
    \<and> object_incref el w = Some w' \<and> vec_opts vec' = vec_opts vec \<and> vec_free vec' = vec_free vec"
proof -
  let ?v = "if vec_s vec = length xs + 1 then vector_allocate vec else vec"
  have v: "vec_repr ?v xs" "length xs + 1 < vec_s ?v"
    using vec_repr_room [OF assms(1)] by simp_all
  have n: "vec_n vec = length xs" "vec_n ?v = length xs" "length (vec_ptr ?v) = vec_s ?v"
    using assms(1) v(1) by (simp_all only: vec_repr_def)
  obtain w' where "object_incref el w = Some w'"
    using rc.incref_alive [OF assms(2)] by blast
  moreover have "vec_opts ?v = vec_opts vec \<and> vec_free ?v = vec_free vec"
    by (simp add: vector_allocate_def)
  ultimately show ?thesis
    using assms(3) n vec_repr_write [OF v] v(2)
    by (simp add: vector_add_def count_up_def cell_write_def Let_def del: if_split_asm)
qed

text \<open>Inserting in the middle.\<close>

lemma vector_insert_repr:
  assumes "vec_repr vec xs" "live w el" "length xs + 1 < 2 ^ 31" "i \<le> length xs"
  shows "\<exists>vec' w'. vector_insert vec el i w = Some (vec', w') \<and> vec_repr vec' (take i xs @ el # drop i xs)
    \<and> object_incref el w = Some w'"
proof -
  let ?v = "if vec_s vec \<le> length xs + 1 then vector_allocate vec else vec"
  have v: "vec_repr ?v xs" "length xs + 1 < vec_s ?v"
    using assms(1) vec_repr_allocate [OF assms(1)] by (auto simp: vec_repr_def vector_allocate_def)
  have n: "vec_n vec = length xs" "vec_n ?v = length xs" "length (vec_ptr ?v) = vec_s ?v"
    and cells: "take (length xs) (vec_ptr ?v) = map Some xs"
    using assms(1) v(1) by (simp_all only: vec_repr_def)
  obtain w' where w': "object_incref el w = Some w'"
    using rc.incref_alive [OF assms(2)] by blast
  let ?moved = "take (i + 1) (vec_ptr ?v) @ take (length xs - i) (drop i (vec_ptr ?v)) @ drop (length xs + 1) (vec_ptr ?v)"
  have front: "take i (vec_ptr ?v) = map Some (take i xs)" and behind: "take (length xs - i) (drop i (vec_ptr ?v)) = map Some (drop i xs)"
    using assms(4) arg_cong [OF cells, of "take i"] arg_cong [OF cells, of "drop i"]
    by (simp_all add: take_map drop_map drop_take)
  have "take (i + 1) (vec_ptr ?v) = take i (vec_ptr ?v) @ [vec_ptr ?v ! i]"
    using v(2) n(3) assms(4) by (simp add: take_Suc_conv_app_nth)
  then have "?moved[i := Some el] = map Some (take i xs) @ Some el # map Some (drop i xs) @ drop (length xs + 1) (vec_ptr ?v)"
    using front behind assms(4) by (simp add: list_update_append)
  moreover have "vector_insert vec el i w = Some (?v\<lparr>vec_ptr := ?moved[i := Some el], vec_n := length xs + 1\<rparr>, w')"
    using assms(3,4) n v(2) w'
    by (simp add: vector_insert_def count_up_def cells_memmove_def cell_write_def Let_def min_def del: if_split_asm)
  ultimately show ?thesis
    using w' v(2) n assms(4) by (auto simp: vec_repr_def Suc_diff_le)
qed

lemma vector_extend_loop_repr:
  assumes "vec_repr dest xs" "vec_repr ex ys" "k \<le> length ys" "\<forall>y \<in> set (drop k ys). live w y"
    and "length xs + (length ys - k) < 2 ^ 31"
  shows "\<exists>dest' w'. vector_extend_loop dest ex [k..<length ys] w = Some (dest', w') \<and> vec_repr dest' (xs @ drop k ys)"
  using assms
proof (induction "length ys - k" arbitrary: k dest xs w)
  case 0
  then show ?case by simp
next
  case (Suc m)
  then have k: "k < length ys" and ys: "drop k ys = ys ! k # drop (Suc k) ys" "[k..<length ys] = k # [Suc k..<length ys]"
    by (simp_all add: Cons_nth_drop_Suc upt_conv_Cons)
  have room: "length xs + 1 < 2 ^ 31" and alive: "live w (ys ! k)"
    using Suc.prems(4,5) k ys(1) by (linarith, simp)
  obtain d w1 where add: "vector_add dest (ys ! k) w = Some (d, w1, length xs)" "vec_repr d (xs @ [ys ! k])"
      "object_incref (ys ! k) w = Some w1"
    using vector_add_repr [OF Suc.prems(1) alive room] by blast
  have "\<forall>y \<in> set (drop (Suc k) ys). live w1 y"
    using Suc.prems(4) ys(1) rc.incref_alive [of w "ys ! k"] add(3) by fastforce
  then show ?case
    using Suc.hyps(1) [of "Suc k" d "xs @ [ys ! k]" w1] Suc.hyps(2) Suc.prems(2,5) k add(1,2)
      vec_repr_get [OF Suc.prems(2) k] ys by auto
qed

lemma vector_extend_repr:
  assumes "vec_repr dest xs" "vec_repr ex ys" "\<forall>y \<in> set ys. live w y" "length xs + length ys < 2 ^ 31"
  shows "\<exists>dest' w'. vector_extend dest ex w = Some (dest', w') \<and> vec_repr dest' (xs @ ys)"
proof -
  have "vec_n ex = length ys" using assms(2) by (simp add: vec_repr_def)
  then show ?thesis
    using vector_extend_loop_repr [OF assms(1,2), of 0 w] assms(3,4) by (simp add: vector_extend_def)
qed

text \<open>The option that stands for an arbitrary order has the value 0, so its branch is never taken: a
  vector that does not keep its places moves the elements behind a removed one by \<open>memcpy\<close>, and
  the moved places overlap unless there is at most one of them.\<close>

lemma vector_remove_places:
  assumes "vec_repr vec xs" "vec_opts vec AND VECTOR_KEEP = 0" "i < length xs"
  shows "vector_remove vec i w = (if length xs \<le> i + 2
    then do { w \<leftarrow> object_decref (xs ! i) w;
              Some (vec\<lparr>vec_n := length xs - 1, vec_ptr := take i (vec_ptr vec)
                @ take (length xs - 1 - i) (drop (i + 1) (vec_ptr vec)) @ drop (length xs - 1) (vec_ptr vec)\<rparr>, w, xs ! i) }
    else None)"
proof -
  have n: "vec_n vec = length xs" "length (vec_ptr vec) = vec_s vec" "length xs < vec_s vec"
    using assms(1) by (simp_all add: vec_repr_def)
  have get: "vector_get (vec\<lparr>vec_n := m\<rparr>) i = Some (xs ! i)" for m
    using vec_repr_get [OF assms(1,3)] by (simp add: vector_get_def)
  show ?thesis
    using assms(2,3) n get
    by (auto simp: vector_remove_def VECTOR_UNORDERED_def prv_vector_remove_ordered_def cells_memcpy_def
        cells_memmove_def Let_def)
qed

lemma decref_live: "live w p \<Longrightarrow> \<exists>w'. object_decref p w = Some w'"
  by (cases "objs w p") (auto simp: live_def object_decref_def object_free_def)

lemma vector_remove_repr:
  assumes "vec_repr vec xs" "vec_opts vec AND VECTOR_KEEP = 0" "i < length xs" "length xs \<le> i + 2" "live w (xs ! i)"
  shows "\<exists>vec' w'. vector_remove vec i w = Some (vec', w', xs ! i) \<and> vec_repr vec' (take i xs @ drop (Suc i) xs)
    \<and> object_decref (xs ! i) w = Some w'"
proof -
  obtain w' where w': "object_decref (xs ! i) w = Some w'"
    using decref_live [OF assms(5)] by blast
  have cells: "take (length xs) (vec_ptr vec) = map Some xs" and n: "length (vec_ptr vec) = vec_s vec" "length xs < vec_s vec"
    using assms(1) by (simp_all add: vec_repr_def)
  have "take i (vec_ptr vec) = map Some (take i xs)" "take (length xs - 1 - i) (drop (i + 1) (vec_ptr vec)) = map Some (drop (Suc i) xs)"
    using assms(3) arg_cong [OF cells, of "take i"] arg_cong [OF cells, of "drop (Suc i)"]
    by (simp_all add: take_map drop_map drop_take)
  then show ?thesis
    using vector_remove_places [OF assms(1-3)] assms(3,4) w' n by (auto simp: vec_repr_def)
qed

end
