(* ===== verification/ElementSet.thy ===== *)
theory ElementSet
  imports Vector
begin

text \<open>
  The set of autogentoo/hacksaw/set.c, which keeps its elements in a vector and compares a new one
  with each of them. The lemmas show that the operations implement those on sets, up to what the
  comparison calls the same, when removing an element is defined, and that merging the elements
  of a set never is.
\<close>

section \<open>The set\<close>

text \<open>The comparison is known by its address, 0 for none; what a function at an address does is a
  parameter. Elements are the same when it gives 0, or when they are one object.\<close>

record Set =
  set_parent :: Vector
  set_cmp_func :: U64

definition set_same :: "(U64 \<Rightarrow> U64 \<Rightarrow> U64 \<Rightarrow> int) \<Rightarrow> U64 \<Rightarrow> U64 \<Rightarrow> U64 \<Rightarrow> bool" where
  "set_same cmps f item x = (if f \<noteq> 0 then cmps f item x = 0 else item = x)"

definition set_new :: "U64 \<Rightarrow> Set" where
  "set_new cmp_func = \<lparr>set_parent = vector_new (VECTOR_REMOVE OR VECTOR_UNORDERED), set_cmp_func = cmp_func\<rparr>"

text \<open>Freeing a set calls the function in the header of its vector.\<close>

definition set_free :: "Set \<Rightarrow> world \<Rightarrow> world option" where
  "set_free self w = (if vec_free (set_parent self) then vector_free (set_parent self) w else None)"

definition set_get :: "Set \<Rightarrow> nat \<Rightarrow> U64 option" where
  "set_get s i = vector_get (set_parent s) i"

fun set_inside_loop :: "(U64 \<Rightarrow> U64 \<Rightarrow> U64 \<Rightarrow> int) \<Rightarrow> Set \<Rightarrow> U64 \<Rightarrow> nat list \<Rightarrow> int option" where
  "set_inside_loop cmps s item [] = Some (- 1)"
| "set_inside_loop cmps s item (i # rest) =
     do { x \<leftarrow> set_get s i;
          if set_same cmps (set_cmp_func s) item x then Some (int i) else set_inside_loop cmps s item rest }"

definition set_inside :: "(U64 \<Rightarrow> U64 \<Rightarrow> U64 \<Rightarrow> int) \<Rightarrow> Set \<Rightarrow> U64 \<Rightarrow> int option" where
  "set_inside cmps s item = set_inside_loop cmps s item [0..<vec_n (set_parent s)]"

definition set_add :: "(U64 \<Rightarrow> U64 \<Rightarrow> U64 \<Rightarrow> int) \<Rightarrow> Set \<Rightarrow> U64 \<Rightarrow> world \<Rightarrow> (Set \<times> world \<times> U32) option" where
  "set_add cmps s element w =
     do { index \<leftarrow> set_inside cmps s element;
          if index = - 1
          then do { (v, w, _) \<leftarrow> vector_add (set_parent s) element w; Some (s\<lparr>set_parent := v\<rparr>, w, 1) }
          else Some (s, w, 0) }"

definition set_remove :: "(U64 \<Rightarrow> U64 \<Rightarrow> U64 \<Rightarrow> int) \<Rightarrow> Set \<Rightarrow> U64 \<Rightarrow> world \<Rightarrow> (Set \<times> world \<times> U64) option" where
  "set_remove cmps s element w =
     do { index \<leftarrow> set_inside cmps s element;
          if index = - 1 then Some (s, w, 0)
          else do { (v, w, out) \<leftarrow> vector_remove (set_parent s) (nat index) w; Some (s\<lparr>set_parent := v\<rparr>, w, out) } }"

text \<open>Adding the elements of \<open>src\<close> that are in \<open>only\<close>, when it is given.\<close>

fun set_add_loop :: "(U64 \<Rightarrow> U64 \<Rightarrow> U64 \<Rightarrow> int) \<Rightarrow> Set option \<Rightarrow> Set \<Rightarrow> Set \<Rightarrow> nat list \<Rightarrow> world \<Rightarrow> (Set \<times> world) option" where
  "set_add_loop cmps only out src [] w = Some (out, w)"
| "set_add_loop cmps only out src (i # rest) w =
     do { element \<leftarrow> set_get src i;
          wanted \<leftarrow> (case only of None \<Rightarrow> Some True
            | Some s \<Rightarrow> map_option (\<lambda>index. index \<noteq> - 1) (set_inside cmps s element));
          (out, w) \<leftarrow> (if wanted then map_option (\<lambda>(s, w, _). (s, w)) (set_add cmps out element w) else Some (out, w));
          set_add_loop cmps only out src rest w }"

definition set_dup :: "(U64 \<Rightarrow> U64 \<Rightarrow> U64 \<Rightarrow> int) \<Rightarrow> Set \<Rightarrow> world \<Rightarrow> (Set \<times> world) option" where
  "set_dup cmps s w = set_add_loop cmps None (set_new (set_cmp_func s)) s [0..<vec_n (set_parent s)] w"

definition set_union :: "(U64 \<Rightarrow> U64 \<Rightarrow> U64 \<Rightarrow> int) \<Rightarrow> Set \<Rightarrow> Set \<Rightarrow> world \<Rightarrow> (Set \<times> world) option" where
  "set_union cmps s1 s2 w =
     (if set_cmp_func s1 \<noteq> set_cmp_func s2 then Some (s1, w)
      else set_add_loop cmps None s1 s2 [0..<vec_n (set_parent s2)] w)"

text \<open>The result is NULL, the inner None, for different comparisons.\<close>

definition set_intersect :: "(U64 \<Rightarrow> U64 \<Rightarrow> U64 \<Rightarrow> int) \<Rightarrow> Set \<Rightarrow> Set \<Rightarrow> world \<Rightarrow> (Set option \<times> world) option" where
  "set_intersect cmps s1 s2 w =
     (if set_cmp_func s1 \<noteq> set_cmp_func s2 then Some (None, w)
      else let out = set_new (set_cmp_func s1) in
        map_option (\<lambda>(out, w). (Some out, w))
          (if vec_n (set_parent s1) > vec_n (set_parent s2)
           then set_add_loop cmps (Some s2) out s1 [0..<vec_n (set_parent s1)] w
           else set_add_loop cmps (Some s1) out s2 [0..<vec_n (set_parent s2)] w))"

text \<open>\<open>set_collapse\<close>: the inner loop over the elements after the i-th, and the outer loop. The
  function that merges two elements gives the address of a new object, or 0.\<close>

fun set_collapse_inner ::
    "(U64 \<Rightarrow> U64 \<Rightarrow> U64 \<Rightarrow> int) \<Rightarrow> (U64 \<Rightarrow> U64 \<Rightarrow> world \<Rightarrow> (U64 \<times> world) option) \<Rightarrow> Set \<Rightarrow> U64 \<Rightarrow> nat list
      \<Rightarrow> Set \<times> Set \<times> world \<Rightarrow> (Set \<times> Set \<times> world) option" where
  "set_collapse_inner cmps merge s el_1 [] st = Some st"
| "set_collapse_inner cmps merge s el_1 (j # rest) (out_set, has_read, w) =
     do { el_2 \<leftarrow> set_get s j;
          index \<leftarrow> set_inside cmps has_read el_2;
          st \<leftarrow> (if index \<noteq> - 1 then Some (out_set, has_read, w)
                else do { (out_el, w) \<leftarrow> merge el_1 el_2 w;
                          if out_el = 0 then Some (out_set, has_read, w)
                          else do { (has_read, w, _) \<leftarrow> set_add cmps has_read el_2 w;
                                    (out_set, w, _) \<leftarrow> set_add cmps out_set out_el w;
                                    Some (out_set, has_read, w) } });
          set_collapse_inner cmps merge s el_1 rest st }"

fun set_collapse_outer ::
    "(U64 \<Rightarrow> U64 \<Rightarrow> U64 \<Rightarrow> int) \<Rightarrow> (U64 \<Rightarrow> U64 \<Rightarrow> world \<Rightarrow> (U64 \<times> world) option) \<Rightarrow> Set \<Rightarrow> nat list
      \<Rightarrow> Set \<times> Set \<times> world \<Rightarrow> (Set \<times> Set \<times> world) option" where
  "set_collapse_outer cmps merge s [] st = Some st"
| "set_collapse_outer cmps merge s (i # rest) (out_set, has_read, w) =
     do { el_1 \<leftarrow> set_get s i;
          index \<leftarrow> set_inside cmps has_read el_1;
          st \<leftarrow> (if index \<noteq> - 1 then Some (out_set, has_read, w)
                else set_collapse_inner cmps merge s el_1 [i + 1..<vec_n (set_parent s)] (out_set, has_read, w));
          set_collapse_outer cmps merge s rest st }"

definition set_collapse ::
    "(U64 \<Rightarrow> U64 \<Rightarrow> U64 \<Rightarrow> int) \<Rightarrow> (U64 \<Rightarrow> U64 \<Rightarrow> world \<Rightarrow> (U64 \<times> world) option) \<Rightarrow> Set \<Rightarrow> world
      \<Rightarrow> (Set \<times> world) option" where
  "set_collapse cmps merge s w =
     do { (out_set, has_read, w) \<leftarrow> set_collapse_outer cmps merge s [0..<vec_n (set_parent s)]
            (set_new (set_cmp_func s), set_new (set_cmp_func s), w);
          w \<leftarrow> set_free has_read w;
          Some (out_set, w) }"

section \<open>Sets as lists without repetitions\<close>

definition set_repr :: "Set \<Rightarrow> U64 list \<Rightarrow> bool" where
  "set_repr s xs \<longleftrightarrow> vec_repr (set_parent s) xs \<and> vec_opts (set_parent s) AND VECTOR_KEEP = 0"

definition holds :: "(U64 \<Rightarrow> U64 \<Rightarrow> bool) \<Rightarrow> U64 list \<Rightarrow> U64 \<Rightarrow> bool" where
  "holds same xs e = list_ex (same e) xs"

definition different :: "(U64 \<Rightarrow> U64 \<Rightarrow> bool) \<Rightarrow> U64 list \<Rightarrow> bool" where
  "different same = sorted_wrt (\<lambda>x y. \<not> same x y)"

definition add_new :: "(U64 \<Rightarrow> U64 \<Rightarrow> bool) \<Rightarrow> U64 list \<Rightarrow> U64 \<Rightarrow> U64 list" where
  "add_new same xs e = (if holds same xs e then xs else xs @ [e])"

lemma set_new_repr: "set_repr (set_new f) [] \<and> set_cmp_func (set_new f) = f"
  by (simp add: set_repr_def set_new_def vector_new_repr) (simp add: vector_new_def VECTOR_REMOVE_def VECTOR_UNORDERED_def)

lemma set_repr_get: "set_repr s xs \<Longrightarrow> i < length xs \<Longrightarrow> set_get s i = Some (xs ! i)"
  by (simp add: set_repr_def set_get_def vec_repr_get)

lemma set_repr_n: "set_repr s xs \<Longrightarrow> vec_n (set_parent s) = length xs"
  by (simp add: set_repr_def vec_repr_def)

lemma holds_append [simp]: "holds same (xs @ ys) e \<longleftrightarrow> holds same xs e \<or> holds same ys e"
  by (simp add: holds_def)

lemma holds_Nil [simp]: "\<not> holds same [] e"
  by (simp add: holds_def)

lemma holds_Cons [simp]: "holds same (x # xs) e \<longleftrightarrow> same e x \<or> holds same xs e"
  by (simp add: holds_def)

lemma set_inside_loop_repr:
  assumes "set_repr s xs" "k \<le> length xs"
  shows "\<exists>r. set_inside_loop cmps s e [k..<length xs] = Some r
    \<and> (if holds (set_same cmps (set_cmp_func s)) (drop k xs) e
       then 0 \<le> r \<and> nat r < length xs \<and> set_same cmps (set_cmp_func s) e (xs ! nat r) else r = - 1)"
  using assms
proof (induction "length xs - k" arbitrary: k)
  case 0
  then show ?case by simp
next
  case (Suc m)
  then have k: "k < length xs" "drop k xs = xs ! k # drop (Suc k) xs" "[k..<length xs] = k # [Suc k..<length xs]"
    by (simp_all add: Cons_nth_drop_Suc upt_conv_Cons)
  show ?case
    using Suc.hyps(1) [of "Suc k"] Suc.hyps(2) Suc.prems(1) k set_repr_get [OF Suc.prems(1) k(1)] by simp
qed

lemma set_inside_repr:
  assumes "set_repr s xs"
  obtains r where "set_inside cmps s e = Some r"
    and "if holds (set_same cmps (set_cmp_func s)) xs e
      then 0 \<le> r \<and> nat r < length xs \<and> set_same cmps (set_cmp_func s) e (xs ! nat r) else r = - 1"
  using set_inside_loop_repr [OF assms, of 0 cmps e] set_repr_n [OF assms] by (auto simp: set_inside_def)

lemma set_inside_iff:
  assumes "set_repr s xs"
  shows "map_option (\<lambda>index. index \<noteq> - 1) (set_inside cmps s e)
    = Some (holds (set_same cmps (set_cmp_func s)) xs e)"
  by (rule set_inside_repr [OF assms, of cmps e]) (auto split: if_splits)

lemma set_add_repr:
  assumes "set_repr s xs" "live w e" "length xs + 1 < 2 ^ 31"
  shows "\<exists>s' w'. set_add cmps s e w = Some (s', w', if holds (set_same cmps (set_cmp_func s)) xs e then 0 else 1)
    \<and> set_repr s' (add_new (set_same cmps (set_cmp_func s)) xs e) \<and> set_cmp_func s' = set_cmp_func s
    \<and> (\<forall>q. live w' q = live w q)"
proof (rule set_inside_repr [OF assms(1), of cmps e])
  fix r
  assume r: "set_inside cmps s e = Some r" "if holds (set_same cmps (set_cmp_func s)) xs e
      then 0 \<le> r \<and> nat r < length xs \<and> set_same cmps (set_cmp_func s) e (xs ! nat r) else r = - 1"
  show ?thesis
  proof (cases "holds (set_same cmps (set_cmp_func s)) xs e")
    case True
    then have "set_add cmps s e w = Some (s, w, 0)"
      using r by (simp add: set_add_def)
    then show ?thesis
      using True assms(1) by (simp add: add_new_def)
  next
    case False
    have "vec_repr (set_parent s) xs"
      using assms(1) by (simp add: set_repr_def)
    then obtain v w' where v: "vector_add (set_parent s) e w = Some (v, w', length xs)" "vec_repr v (xs @ [e])"
        "object_incref e w = Some w'" "vec_opts v = vec_opts (set_parent s)"
      using vector_add_repr [OF _ assms(2,3)] by blast
    then have "\<forall>q. live w' q = live w q"
      using rc.incref_alive [OF assms(2)] by auto
    then show ?thesis
      using False r v assms(1) by (simp add: set_add_def add_new_def set_repr_def)
  qed
qed

lemma length_add_new: "length (add_new same xs e) \<le> length xs + 1"
  by (simp add: add_new_def)

text \<open>The loop of union, intersection and copy.\<close>

definition wanted :: "(U64 \<Rightarrow> U64 \<Rightarrow> bool) \<Rightarrow> U64 list option \<Rightarrow> U64 \<Rightarrow> bool" where
  "wanted same only e = (case only of None \<Rightarrow> True | Some zs \<Rightarrow> holds same zs e)"

lemma set_add_loop_repr:
  assumes "set_repr out xs" "set_repr src ys" "k \<le> length ys" "\<forall>y \<in> set (drop k ys). live w y"
    and "length xs + (length ys - k) < 2 ^ 31" and f: "set_cmp_func out = f"
    and only: "rel_option (\<lambda>o' zs. set_repr o' zs \<and> set_cmp_func o' = f) only zs"
  shows "\<exists>out' w'. set_add_loop cmps only out src [k..<length ys] w = Some (out', w')
    \<and> set_repr out' (foldl (add_new (set_same cmps f)) xs (filter (wanted (set_same cmps f) zs) (drop k ys)))
    \<and> set_cmp_func out' = f"
  using assms(1-6)
proof (induction "length ys - k" arbitrary: k out xs w)
  case 0
  then show ?case by simp
next
  case (Suc m)
  then have k: "k < length ys" and ys: "drop k ys = ys ! k # drop (Suc k) ys" "[k..<length ys] = k # [Suc k..<length ys]"
    by (simp_all add: Cons_nth_drop_Suc upt_conv_Cons)
  have room: "length xs + 1 < 2 ^ 31" and alive: "live w (ys ! k)"
    using Suc.prems(4,5) k ys(1) by (linarith, simp)
  have want: "(case only of None \<Rightarrow> Some True
      | Some s \<Rightarrow> map_option (\<lambda>index. index \<noteq> - 1) (set_inside cmps s (ys ! k))) = Some (wanted (set_same cmps f) zs (ys ! k))"
    using only set_inside_iff by (cases only; cases zs) (auto simp: wanted_def)
  show ?case
  proof (cases "wanted (set_same cmps f) zs (ys ! k)")
    case True
    obtain o1 w1 r where add: "set_add cmps out (ys ! k) w = Some (o1, w1, r)"
        "set_repr o1 (add_new (set_same cmps f) xs (ys ! k))" "set_cmp_func o1 = f" "\<forall>q. live w1 q = live w q"
      using set_add_repr [OF Suc.prems(1) alive room, of cmps] Suc.prems(6) by auto
    have "length (add_new (set_same cmps f) xs (ys ! k)) + (length ys - Suc k) < 2 ^ 31"
      using length_add_new [of "set_same cmps f" xs "ys ! k"] Suc.prems(5) k by linarith
    then show ?thesis
      using Suc.hyps(1) [of "Suc k" o1 "add_new (set_same cmps f) xs (ys ! k)" w1] Suc.hyps(2) Suc.prems(2,4) k ys
        add want True set_repr_get [OF Suc.prems(2) k] by simp
  next
    case False
    have "length xs + (length ys - Suc k) < 2 ^ 31"
      using Suc.prems(5) by linarith
    then show ?thesis
      using Suc.hyps(1) [of "Suc k" out xs w] Suc.hyps(2) Suc.prems(1,2,4,6) k ys want False
        set_repr_get [OF Suc.prems(2) k] by simp
  qed
qed

text \<open>What adding one after the other gives, for a comparison that is an equivalence.\<close>

lemma different_add_new: "symp same \<Longrightarrow> different same xs \<Longrightarrow> different same (add_new same xs e)"
  by (auto simp: different_def add_new_def holds_def list_ex_iff sorted_wrt_append dest: sympD)

lemma holds_add_new: "equivp same \<Longrightarrow> holds same (add_new same xs e) x \<longleftrightarrow> holds same xs x \<or> same x e"
  by (auto simp: add_new_def holds_def list_ex_iff dest: equivp_transp equivp_symp)

lemma foldl_add_new:
  assumes "equivp same"
  shows "(different same xs \<longrightarrow> different same (foldl (add_new same) xs ys))
    \<and> (holds same (foldl (add_new same) xs ys) x \<longleftrightarrow> holds same xs x \<or> holds same ys x)"
proof (induction ys arbitrary: xs)
  case (Cons y ys)
  then show ?case
    using different_add_new [of same xs y] holds_add_new [OF assms, of xs y x] assms
    by (auto simp: equivp_reflp_symp_transp)
qed simp

section \<open>The operations on sets\<close>

text \<open>C27. Union adds to the first set exactly the elements of the second that it did not have: for a
  comparison that is an equivalence no two elements of the result are the same, and it has an
  element if one of the sets has.\<close>

theorem set_union_refines:
  assumes "set_repr s1 xs" "set_repr s2 ys" "set_cmp_func s1 = f" "set_cmp_func s2 = f"
    and "equivp (set_same cmps f)" "different (set_same cmps f) xs"
    and "\<forall>y \<in> set ys. live w y" "length xs + length ys < 2 ^ 31"
  shows "\<exists>s w' zs. set_union cmps s1 s2 w = Some (s, w') \<and> set_repr s zs \<and> set_cmp_func s = f
    \<and> different (set_same cmps f) zs
    \<and> (\<forall>x. holds (set_same cmps f) zs x \<longleftrightarrow> holds (set_same cmps f) xs x \<or> holds (set_same cmps f) ys x)"
proof -
  have "rel_option (\<lambda>o' zs. set_repr o' zs \<and> set_cmp_func o' = f) None None" by simp
  from set_add_loop_repr [OF assms(1,2) _ _ _ assms(3) this, of 0 w cmps]
  obtain s w' where "set_union cmps s1 s2 w = Some (s, w')" "set_cmp_func s = f"
      "set_repr s (foldl (add_new (set_same cmps f)) xs (filter (wanted (set_same cmps f) None) ys))"
    using assms(3,4,7,8) set_repr_n [OF assms(2)] by (auto simp: set_union_def)
  moreover have "filter (wanted (set_same cmps f) None) ys = ys"
    by (simp add: wanted_def)
  ultimately show ?thesis
    using foldl_add_new [OF assms(5), of xs ys] assms(6) by auto
qed

text \<open>Intersection goes over the larger set and looks into the smaller one.\<close>

lemma holds_wanted:
  assumes "equivp same"
  shows "holds same (filter (wanted same (Some zs)) ys) x \<longleftrightarrow> holds same zs x \<and> holds same ys x"
  using assms by (auto simp: holds_def wanted_def list_ex_iff dest: equivp_symp equivp_transp)

lemma intersect_loop:
  assumes "set_repr s1 xs" "set_repr s2 ys" "set_cmp_func s1 = f" "equivp (set_same cmps f)"
    and "\<forall>y \<in> set ys. live w y" "length ys < 2 ^ 31"
  shows "\<exists>s w' zs. set_add_loop cmps (Some s1) (set_new f) s2 [0..<vec_n (set_parent s2)] w = Some (s, w')
    \<and> set_repr s zs \<and> set_cmp_func s = f \<and> different (set_same cmps f) zs
    \<and> (\<forall>x. holds (set_same cmps f) zs x \<longleftrightarrow> holds (set_same cmps f) xs x \<and> holds (set_same cmps f) ys x)"
proof -
  have only: "rel_option (\<lambda>o' zs. set_repr o' zs \<and> set_cmp_func o' = f) (Some s1) (Some xs)"
    using assms(1,3) by simp
  have new: "set_repr (set_new f) []" "set_cmp_func (set_new f) = f"
    using set_new_repr by simp_all
  from set_add_loop_repr [OF new(1) assms(2) _ _ _ new(2) only, of 0 w cmps]
  obtain s w' where "set_add_loop cmps (Some s1) (set_new f) s2 [0..<vec_n (set_parent s2)] w = Some (s, w')"
      "set_cmp_func s = f"
      "set_repr s (foldl (add_new (set_same cmps f)) [] (filter (wanted (set_same cmps f) (Some xs)) ys))"
    using assms(5,6) set_repr_n [OF assms(2)] by auto
  moreover have "different (set_same cmps f) []"
    by (simp add: different_def)
  ultimately show ?thesis
    using foldl_add_new [OF assms(4), of "[]" "filter (wanted (set_same cmps f) (Some xs)) ys"]
      holds_wanted [OF assms(4)] by auto
qed

text \<open>The intersection is a new set without repetitions that has an element if both sets have.\<close>

theorem set_intersect_refines:
  assumes "set_repr s1 xs" "set_repr s2 ys" "set_cmp_func s1 = f" "set_cmp_func s2 = f"
    and "equivp (set_same cmps f)"
    and "\<forall>z \<in> set xs \<union> set ys. live w z" "length xs < 2 ^ 31" "length ys < 2 ^ 31"
  shows "\<exists>s w' zs. set_intersect cmps s1 s2 w = Some (Some s, w') \<and> set_repr s zs
    \<and> different (set_same cmps f) zs
    \<and> (\<forall>x. holds (set_same cmps f) zs x \<longleftrightarrow> holds (set_same cmps f) xs x \<and> holds (set_same cmps f) ys x)"
  using intersect_loop [OF assms(1,2,3,5), of w] intersect_loop [OF assms(2,1,4,5), of w] assms(3,4,6-8)
  by (cases "vec_n (set_parent s1) > vec_n (set_parent s2)") (fastforce simp: set_intersect_def)+

lemma set_inside_first:
  assumes "set_repr s xs" "k < length xs" "set_same cmps (set_cmp_func s) e (xs ! k)"
    and "\<forall>j < k. \<not> set_same cmps (set_cmp_func s) e (xs ! j)"
  shows "set_inside cmps s e = Some (int k)"
proof -
  have "i \<le> k \<Longrightarrow> set_inside_loop cmps s e [i..<length xs] = Some (int k)" for i
  proof (induction "k - i" arbitrary: i)
    case 0
    then show ?case
      using assms(2,3) set_repr_get [OF assms(1,2)] by (simp add: upt_conv_Cons)
  next
    case (Suc m)
    then show ?case
      using assms(2,4) set_repr_get [OF assms(1), of i] Suc.hyps(1) [of "Suc i"] by (simp add: upt_conv_Cons)
  qed
  then show ?thesis
    using set_repr_n [OF assms(1)] by (simp add: set_inside_def)
qed

text \<open>Removing an element that is in the set is defined only when the first element that is the
  same is one of the last two; otherwise the vector copies places onto places that overlap them.\<close>

theorem set_remove_defined:
  assumes "set_repr s xs" "k < length xs" "set_same cmps (set_cmp_func s) e (xs ! k)"
    and "\<forall>j < k. \<not> set_same cmps (set_cmp_func s) e (xs ! j)" "live w (xs ! k)"
  shows "if length xs \<le> k + 2
    then \<exists>s' w'. set_remove cmps s e w = Some (s', w', xs ! k) \<and> set_repr s' (take k xs @ drop (Suc k) xs)
    else set_remove cmps s e w = None"
proof -
  have inside: "set_inside cmps s e = Some (int k)"
    by (rule set_inside_first [OF assms(1-4)])
  have v: "vec_repr (set_parent s) xs" "vec_opts (set_parent s) AND VECTOR_KEEP = 0"
    using assms(1) by (simp_all add: set_repr_def)
  show ?thesis
  proof (cases "length xs \<le> k + 2")
    case True
    obtain w' where "object_decref (xs ! k) w = Some w'"
      using decref_live [OF assms(5)] by blast
    moreover obtain v' w'' where "vector_remove (set_parent s) k w = Some (v', w'', xs ! k)"
        "vec_repr v' (take k xs @ drop (Suc k) xs)"
      using vector_remove_repr [OF v assms(2) True assms(5)] by blast
    moreover from this have "vec_opts v' = vec_opts (set_parent s)"
      using vector_remove_places [OF v assms(2)] True by (auto split: bind_splits)
    ultimately show ?thesis
      using True inside v(2) by (simp add: set_remove_def set_repr_def)
  next
    case False
    then show ?thesis
      using inside vector_remove_places [OF v assms(2), of w] by (simp add: set_remove_def)
  qed
qed

text \<open>The header of a vector in a set never gets its function.\<close>

lemma vector_add_free: "vector_add vec el w = Some (vec', w', i) \<Longrightarrow> vec_free vec' = vec_free vec"
  by (auto simp: vector_add_def vector_allocate_def Let_def split: bind_splits if_splits)

lemma set_add_free: "set_add cmps s e w = Some (s', w', r) \<Longrightarrow> vec_free (set_parent s') = vec_free (set_parent s)"
  by (auto simp: set_add_def dest: vector_add_free split: bind_splits if_splits)

lemma set_collapse_inner_free:
  "set_collapse_inner cmps merge s el_1 js st = Some st' \<Longrightarrow>
    vec_free (set_parent (fst (snd st'))) = vec_free (set_parent (fst (snd st)))"
proof (induction js arbitrary: st)
  case (Cons j js)
  obtain out_set has_read w0 where st: "st = (out_set, has_read, w0)"
    by (cases st)
  show ?case
    using Cons.prems unfolding st
    by (auto dest!: Cons.IH set_add_free split: bind_splits if_splits)
qed simp

lemma set_collapse_outer_free:
  "set_collapse_outer cmps merge s js st = Some st' \<Longrightarrow>
    vec_free (set_parent (fst (snd st'))) = vec_free (set_parent (fst (snd st)))"
proof (induction js arbitrary: st)
  case (Cons j js)
  obtain out_set has_read w0 where st: "st = (out_set, has_read, w0)"
    by (cases st)
  show ?case
    using Cons.prems unfolding st
    by (auto dest!: Cons.IH set_collapse_inner_free split: bind_splits if_splits)
qed simp

text \<open>\<open>set_collapse\<close> has no defined outcome for any set: at its end it frees a set, and that calls
  the function in the header of a vector, which \<open>vector_new\<close> does not set.\<close>

theorem set_collapse_undefined: "set_collapse cmps merge s w = None"
  by (auto simp: set_collapse_def set_free_def set_new_def vector_new_def
      dest!: set_collapse_outer_free split: bind_splits)

text \<open>Concrete sets of objects at the addresses 1, 2 and 3, compared by address.\<close>

definition demo_world :: world where
  "demo_world = \<lparr>objs = (\<lambda>p. if p = 1 \<or> p = 2 \<or> p = 3 then Some 1 else None), destroyed = [], py_calls = []\<rparr>"

definition demo_set :: "U64 list \<Rightarrow> Set" where
  "demo_set xs = (set_new 0)\<lparr>set_parent := (vector_new 0)\<lparr>vec_n := length xs,
     vec_ptr := map Some xs @ replicate (32 - length xs) None\<rparr>\<rparr>"

lemma demo_set_repr: "length xs < 32 \<Longrightarrow> set_repr (demo_set xs) xs \<and> set_cmp_func (demo_set xs) = 0"
  by (simp add: demo_set_def set_repr_def vec_repr_def set_new_def vector_new_def)

lemma demo_same: "equivp (set_same cmps 0)"
  by (rule equivpI) (auto simp: set_same_def reflp_def symp_def transp_def)

lemma demo_live: "\<forall>x \<in> set [1, 2, 3]. live demo_world x"
  by (simp add: live_def demo_world_def dom_def)

lemma set_union_refines_witness:
  "\<exists>s w zs. set_union (\<lambda>_ _ _. 1) (demo_set [1, 2]) (demo_set [2, 3]) demo_world = Some (s, w) \<and> set_repr s zs
    \<and> holds (set_same (\<lambda>_ _ _. 1) 0) zs 3"
proof -
  have "different (set_same (\<lambda>_ _ _. 1) 0) [1, 2]"
    by (simp add: different_def set_same_def)
  moreover have "holds (set_same (\<lambda>_ _ _. 1) 0) [2, 3] 3"
    by (simp add: set_same_def)
  ultimately show ?thesis
    using set_union_refines [of "demo_set [1, 2]" "[1, 2]" "demo_set [2, 3]" "[2, 3]" 0 "\<lambda>_ _ _. 1" demo_world]
      demo_set_repr [of "[1, 2]"] demo_set_repr [of "[2, 3]"] demo_same demo_live by auto
qed

lemma set_intersect_refines_witness:
  "\<exists>s w zs. set_intersect (\<lambda>_ _ _. 1) (demo_set [1, 2]) (demo_set [2, 3]) demo_world = Some (Some s, w) \<and> set_repr s zs
    \<and> holds (set_same (\<lambda>_ _ _. 1) 0) zs 2"
proof -
  have "holds (set_same (\<lambda>_ _ _. 1) 0) [1, 2] 2 \<and> holds (set_same (\<lambda>_ _ _. 1) 0) [2, 3] 2"
    by (simp add: set_same_def)
  then show ?thesis
    using set_intersect_refines [of "demo_set [1, 2]" "[1, 2]" "demo_set [2, 3]" "[2, 3]" 0 "\<lambda>_ _ _. 1" demo_world]
      demo_set_repr [of "[1, 2]"] demo_set_repr [of "[2, 3]"] demo_same demo_live by auto
qed

lemma set_remove_defined_witness:
  "set_remove (\<lambda>_ _ _. 1) (demo_set [1, 2, 3]) 1 demo_world = None"
  using set_remove_defined [of "demo_set [1, 2, 3]" "[1, 2, 3]" 0 "\<lambda>_ _ _. 1" 1 demo_world]
    demo_set_repr [of "[1, 2, 3]"] demo_live by (simp add: set_same_def)

end
