(* ===== verification/SmallMap.thy ===== *)
theory SmallMap
  imports Vector
begin

text \<open>
  The association vector of autogentoo/hacksaw/small_map.c: a vector of counted key objects, each
  with a copy of its key and a pointer to the data. The key objects are in a store; a key object
  starts with the reference count its memory happens to hold, because the code does not set it.
  The lemmas show that lookups find the first entry of a key, that an insertion never replaces
  one, and that deleting ends in undefined behaviour or leaks the key object.
\<close>

record SmallMap_key =
  sm_key :: string
  sm_data :: U64

type_synonym SmallMap = Vector

type_synonym key_store = "U64 \<rightharpoonup> SmallMap_key"

definition small_map_new :: "nat \<Rightarrow> SmallMap" where
  "small_map_new start_size = vector_allocate_to_size (vector_new (VECTOR_REMOVE OR VECTOR_UNORDERED)) start_size"

text \<open>The new key object lies at \<open>ptr\<close>, where the memory holds \<open>c\<close> in place of the count.\<close>

definition small_map_insert ::
    "SmallMap \<Rightarrow> key_store \<Rightarrow> world \<Rightarrow> U64 \<Rightarrow> U64 \<Rightarrow> string \<Rightarrow> U64 \<Rightarrow> (SmallMap \<times> key_store \<times> world) option" where
  "small_map_insert smap ks w ptr c key data =
     do { let ks = ks(ptr \<mapsto> \<lparr>sm_key = key, sm_data = data\<rparr>);
          (smap, w, _) \<leftarrow> vector_add smap ptr (w\<lparr>objs := (objs w)(ptr \<mapsto> c)\<rparr>);
          Some (smap, ks, w) }"

definition small_map_entry :: "SmallMap \<Rightarrow> key_store \<Rightarrow> nat \<Rightarrow> (U64 \<times> SmallMap_key) option" where
  "small_map_entry smap ks i = do { p \<leftarrow> vector_get smap i; k \<leftarrow> ks p; Some (p, k) }"

text \<open>The loops look for an entry with a property, over the indices still to come.\<close>

fun small_map_find :: "SmallMap \<Rightarrow> key_store \<Rightarrow> (SmallMap_key \<Rightarrow> bool) \<Rightarrow> nat list \<Rightarrow> (nat \<times> U64 \<times> SmallMap_key) option option" where
  "small_map_find smap ks P [] = Some None"
| "small_map_find smap ks P (i # rest) =
     do { (p, current_key) \<leftarrow> small_map_entry smap ks i;
          if P current_key then Some (Some (i, p, current_key)) else small_map_find smap ks P rest }"

definition small_map_get :: "SmallMap \<Rightarrow> key_store \<Rightarrow> string \<Rightarrow> U64 option" where
  "small_map_get smap ks key =
     do { r \<leftarrow> small_map_find smap ks (\<lambda>k. strcmp key (sm_key k) = 0) [0..<vec_n smap];
          Some (case r of Some (i, p, k) \<Rightarrow> sm_data k | None \<Rightarrow> 0) }"

text \<open>The key with given data, None for NULL.\<close>

definition small_map_get_key :: "SmallMap \<Rightarrow> key_store \<Rightarrow> U64 \<Rightarrow> string option option" where
  "small_map_get_key smap ks data =
     do { r \<leftarrow> small_map_find smap ks (\<lambda>k. data = sm_data k) [0..<vec_n smap];
          Some (map_option (\<lambda>(i, p, k). sm_key k) r) }"

text \<open>Removing the i-th entry frees its key and gives up the reference of the vector; when that
  destroys the key object its function frees the key again.\<close>

definition small_map_drop :: "SmallMap \<Rightarrow> world \<Rightarrow> nat \<Rightarrow> U64 \<times> SmallMap_key \<Rightarrow> (SmallMap \<times> world \<times> U64) option" where
  "small_map_drop smap w i entry =
     do { (smap, w, _) \<leftarrow> vector_remove smap i w;
          if objs w (fst entry) = None then None else Some (smap, w, sm_data (snd entry)) }"

definition small_map_delete :: "SmallMap \<Rightarrow> key_store \<Rightarrow> world \<Rightarrow> string \<Rightarrow> (SmallMap \<times> world \<times> U64) option" where
  "small_map_delete smap ks w key =
     do { r \<leftarrow> small_map_find smap ks (\<lambda>k. strcmp key (sm_key k) = 0) [0..<vec_n smap];
          case r of Some (i, entry) \<Rightarrow> small_map_drop smap w i entry | None \<Rightarrow> Some (smap, w, 0) }"

definition small_map_delete_index :: "SmallMap \<Rightarrow> key_store \<Rightarrow> world \<Rightarrow> nat \<Rightarrow> (SmallMap \<times> world \<times> U64) option" where
  "small_map_delete_index smap ks w index =
     (if index \<ge> vec_n smap then Some (smap, w, 0)
      else do { entry \<leftarrow> small_map_entry smap ks index; small_map_drop smap w index entry })"

definition small_map_get_index :: "SmallMap \<Rightarrow> key_store \<Rightarrow> nat \<Rightarrow> U64 option" where
  "small_map_get_index smap ks index =
     (if index \<ge> vec_n smap then Some 0 else map_option (sm_data \<circ> snd) (small_map_entry smap ks index))"

definition small_map_get_key_index :: "SmallMap \<Rightarrow> key_store \<Rightarrow> nat \<Rightarrow> string option" where
  "small_map_get_key_index smap ks index = map_option (sm_key \<circ> snd) (small_map_entry smap ks index)"

fun small_map_foreach_loop :: "SmallMap \<Rightarrow> key_store \<Rightarrow> (U64 \<Rightarrow> world \<Rightarrow> world option) \<Rightarrow> nat list \<Rightarrow> world \<Rightarrow> world option" where
  "small_map_foreach_loop smap ks f [] w = Some w"
| "small_map_foreach_loop smap ks f (i # rest) w =
     do { data \<leftarrow> small_map_get_index smap ks i; w \<leftarrow> f data w; small_map_foreach_loop smap ks f rest w }"

definition small_map_foreach :: "SmallMap \<Rightarrow> key_store \<Rightarrow> (U64 \<Rightarrow> world \<Rightarrow> world option) \<Rightarrow> world \<Rightarrow> world option" where
  "small_map_foreach smap ks f w = small_map_foreach_loop smap ks f [0..<vec_n smap] w"

section \<open>A small map as an association list\<close>

definition sm_repr :: "SmallMap \<Rightarrow> key_store \<Rightarrow> U64 list \<Rightarrow> SmallMap_key list \<Rightarrow> bool" where
  "sm_repr smap ks ps es \<longleftrightarrow> vec_repr smap ps \<and> vec_opts smap AND VECTOR_KEEP = 0 \<and> map ks ps = map Some es"

lemma small_map_new_repr: "sm_repr (small_map_new n) ks [] []"
  using vec_repr_allocate_to_size [OF vector_new_repr]
  by (simp add: sm_repr_def small_map_new_def)
    (simp add: vector_allocate_to_size_def vector_new_def VECTOR_REMOVE_def VECTOR_UNORDERED_def)

lemma sm_repr_length: "sm_repr smap ks ps es \<Longrightarrow> length es = length ps \<and> vec_n smap = length ps"
  unfolding sm_repr_def vec_repr_def by (metis length_map)

lemma small_map_entry_repr:
  assumes "sm_repr smap ks ps es" "i < length es"
  shows "small_map_entry smap ks i = Some (ps ! i, es ! i)"
proof -
  have "i < length ps" using sm_repr_length [OF assms(1)] assms(2) by simp
  moreover have "ks (ps ! i) = Some (es ! i)"
    using assms sm_repr_length [OF assms(1)] unfolding sm_repr_def by (metis nth_map)
  ultimately show ?thesis
    using assms(1) vec_repr_get [of smap ps i] by (simp add: small_map_entry_def sm_repr_def)
qed

lemma small_map_find_repr:
  assumes "sm_repr smap ks ps es" "k \<le> length es"
  shows "\<exists>r. small_map_find smap ks P [k..<length es] = Some r
    \<and> map_option (\<lambda>(i, p, e). e) r = find P (drop k es)
    \<and> (case r of Some (i, p, e) \<Rightarrow> i < length es \<and> p = ps ! i \<and> e = es ! i | None \<Rightarrow> True)"
  using assms
proof (induction "length es - k" arbitrary: k)
  case 0
  then show ?case by simp
next
  case (Suc m)
  then have k: "k < length es" "drop k es = es ! k # drop (Suc k) es" "[k..<length es] = k # [Suc k..<length es]"
    by (simp_all add: Cons_nth_drop_Suc upt_conv_Cons)
  show ?case
    using Suc.hyps(1) [of "Suc k"] Suc.hyps(2) Suc.prems(1) k small_map_entry_repr [OF Suc.prems(1) k(1)] by simp
qed

lemma small_map_get_repr:
  assumes "sm_repr smap ks ps es"
  shows "small_map_get smap ks key = Some (case find (\<lambda>e. key = sm_key e) es of Some e \<Rightarrow> sm_data e | None \<Rightarrow> 0)"
  using small_map_find_repr [OF assms, of 0 "\<lambda>k. strcmp key (sm_key k) = 0"] sm_repr_length [OF assms]
  by (auto simp: small_map_get_def split: option.splits)

lemma small_map_insert_repr:
  assumes "sm_repr smap ks ps es" "ptr \<notin> set ps" "ptr \<noteq> 0" "length ps + 1 < 2 ^ 31"
  shows "\<exists>smap' ks' w'. small_map_insert smap ks w ptr c key data = Some (smap', ks', w')
    \<and> sm_repr smap' ks' (ps @ [ptr]) (es @ [\<lparr>sm_key = key, sm_data = data\<rparr>]) \<and> objs w' ptr = Some (c + 1)"
proof -
  let ?w = "w\<lparr>objs := (objs w)(ptr \<mapsto> c)\<rparr>"
  have "live ?w ptr" and "vec_repr smap ps"
    using assms(1) by (simp_all add: live_def sm_repr_def)
  then obtain v w' where v: "vector_add smap ptr ?w = Some (v, w', length ps)" "vec_repr v (ps @ [ptr])"
      "object_incref ptr ?w = Some w'" "vec_opts v = vec_opts smap"
    using vector_add_repr [OF _ _ assms(4)] by blast
  have "objs w' ptr = Some (c + 1)"
    using v(3) assms(3) by (auto simp: object_incref_def)
  moreover have "map (ks(ptr \<mapsto> e)) (ps @ [ptr]) = map Some (es @ [e])" for e
    using assms(1,2) by (simp add: sm_repr_def map_fun_upd)
  ultimately show ?thesis
    using v assms(1) by (simp add: small_map_insert_def sm_repr_def Let_def)
qed

lemma find_snoc: "find P (xs @ [x]) = (case find P xs of None \<Rightarrow> if P x then Some x else None | Some y \<Rightarrow> Some y)"
  by (induction xs) auto

text \<open>An insertion adds the key when it is new; a key that is there keeps its data.\<close>

theorem small_map_first_wins:
  assumes "sm_repr smap ks ps es" "ptr \<notin> set ps" "ptr \<noteq> 0" "length ps + 1 < 2 ^ 31"
  shows "\<exists>smap' ks' w'. small_map_insert smap ks w ptr c key data = Some (smap', ks', w')
    \<and> (\<forall>k. small_map_get smap' ks' k =
        (if k = key \<and> k \<notin> sm_key ` set es then Some data else small_map_get smap ks k))"
proof -
  obtain smap' ks' w' where new: "small_map_insert smap ks w ptr c key data = Some (smap', ks', w')"
      "sm_repr smap' ks' (ps @ [ptr]) (es @ [\<lparr>sm_key = key, sm_data = data\<rparr>])"
    using small_map_insert_repr [OF assms] by blast
  have "small_map_get smap' ks' k = (if k = key \<and> k \<notin> sm_key ` set es then Some data else small_map_get smap ks k)" for k
  proof -
    have "k \<in> sm_key ` set es \<longleftrightarrow> find (\<lambda>e. k = sm_key e) es \<noteq> None"
      by (auto simp: find_None_iff)
    then show ?thesis
      by (auto simp: small_map_get_repr [OF new(2)] small_map_get_repr [OF assms(1)] find_snoc)
  qed
  then show ?thesis using new(1) by blast
qed

text \<open>Deleting a key that is there has no defined outcome when the key object has one reference,
  that of the vector: the copy of the key is freed by \<open>small_map_delete\<close> and again by the object.\<close>

theorem small_map_delete_undefined:
  assumes "sm_repr smap ks ps es" "key \<in> sm_key ` set es" "\<forall>p \<in> set ps. p \<noteq> 0 \<and> objs w p = Some 1"
  shows "small_map_delete smap ks w key = None"
proof -
  obtain r where r: "small_map_find smap ks (\<lambda>k. strcmp key (sm_key k) = 0) [0..<length es] = Some r"
      "map_option (\<lambda>(i, p, e). e) r = find (\<lambda>k. key = sm_key k) es"
      "case r of Some (i, p, e) \<Rightarrow> i < length es \<and> p = ps ! i \<and> e = es ! i | None \<Rightarrow> True"
    using small_map_find_repr [OF assms(1), of 0 "\<lambda>k. strcmp key (sm_key k) = 0"] by auto
  have "find (\<lambda>k. key = sm_key k) es \<noteq> None"
    using assms(2) by (auto simp: find_None_iff)
  then obtain i e where i: "r = Some (i, ps ! i, e)" "i < length es"
    using r(2,3) by (cases r) auto
  have len: "i < length ps" "vec_n smap = length es"
    using i(2) sm_repr_length [OF assms(1)] by simp_all
  have p: "ps ! i \<noteq> 0" "objs w (ps ! i) = Some 1"
    using assms(3) len(1) by simp_all
  have "small_map_drop smap w i (ps ! i, e) = None"
    using vector_remove_places [of smap ps i w] assms(1) len(1) p
    by (auto simp: small_map_drop_def sm_repr_def object_decref_def object_free_def)
  then show ?thesis
    using r(1) i(1) len(2) by (simp add: small_map_delete_def)
qed

text \<open>A map with one entry, whose object lies at the address 1.\<close>

definition demo_map :: "SmallMap \<times> key_store \<times> world" where
  "demo_map = the (small_map_insert (small_map_new 4) (\<lambda>_. None)
     \<lparr>objs = (\<lambda>_. None), destroyed = [], py_calls = []\<rparr> 1 0 ''k'' 5)"

lemma demo_map_repr:
  "sm_repr (fst demo_map) (fst (snd demo_map)) [1] [\<lparr>sm_key = ''k'', sm_data = 5\<rparr>] \<and> objs (snd (snd demo_map)) 1 = Some 1"
  using small_map_insert_repr [OF small_map_new_repr, of 1 4 "\<lambda>_. None"
      "\<lparr>objs = (\<lambda>_. None), destroyed = [], py_calls = []\<rparr>" 0 "''k''" 5]
  by (auto simp: demo_map_def)

lemma small_map_first_wins_witness:
  "\<exists>smap ks w. small_map_insert (fst demo_map) (fst (snd demo_map)) (snd (snd demo_map)) 2 0 ''k'' 6 = Some (smap, ks, w)
    \<and> small_map_get smap ks ''k'' = Some 5"
  using small_map_first_wins [of "fst demo_map" "fst (snd demo_map)" "[1]" "[\<lparr>sm_key = ''k'', sm_data = 5\<rparr>]" 2
      "snd (snd demo_map)" 0 "''k''" 6]
    demo_map_repr small_map_get_repr [of "fst demo_map" "fst (snd demo_map)" "[1]" "[\<lparr>sm_key = ''k'', sm_data = 5\<rparr>]" "''k''"]
  by auto

lemma small_map_delete_undefined_witness:
  "small_map_delete (fst demo_map) (fst (snd demo_map)) (snd (snd demo_map)) ''k'' = None"
  using small_map_delete_undefined [of "fst demo_map" "fst (snd demo_map)" "[1]" "[\<lparr>sm_key = ''k'', sm_data = 5\<rparr>]" "''k''"
      "snd (snd demo_map)"] demo_map_repr by simp

end
