(* ===== verification/Strings.thy ===== *)
theory Strings
  imports Vector
begin

text \<open>
  The vector of strings of autogentoo/hacksaw/string_vector.c and the helpers of util.c. A string
  vector owns copies of its strings. To grow it is passed to \<open>vector_allocate\<close> as if it were a
  vector, but its struct is shorter: the capacity of a vector lies behind its end, which is
  undefined behaviour. The lemmas show what follows for the number of strings it can hold, and
  what the helpers do with paths, files and blanks.
\<close>

section \<open>Vectors of strings\<close>

record StringVector =
  sv_ptr :: "string option list"
  sv_n :: nat
  sv_s :: nat

definition string_vector_new :: StringVector where
  "string_vector_new = \<lparr>sv_ptr = replicate 32 None, sv_n = 0, sv_s = 32\<rparr>"

definition string_vector_allocate :: "StringVector \<Rightarrow> StringVector option" where
  "string_vector_allocate vec = None"

definition string_vector_get :: "StringVector \<Rightarrow> nat \<Rightarrow> string option" where
  "string_vector_get vec index = cell_read (sv_ptr vec) index"

text \<open>Freeing looks at every string.\<close>

definition string_vector_free :: "StringVector \<Rightarrow> unit option" where
  "string_vector_free self = (if list_all (\<lambda>i. string_vector_get self i \<noteq> None) [0..<sv_n self] then Some () else None)"

definition string_vector_add :: "StringVector \<Rightarrow> string \<Rightarrow> StringVector option" where
  "string_vector_add vec str =
     do { vec \<leftarrow> (if sv_s vec = sv_n vec + 1 then string_vector_allocate vec else Some vec);
          ptr \<leftarrow> cell_write (sv_ptr vec) (sv_n vec) (Some str);
          Some (vec\<lparr>sv_ptr := ptr, sv_n := sv_n vec + 1\<rparr>) }"

definition string_vector_insert :: "StringVector \<Rightarrow> string \<Rightarrow> nat \<Rightarrow> StringVector option" where
  "string_vector_insert vec str index =
     do { vec \<leftarrow> (if sv_s vec \<le> sv_n vec + 1 then string_vector_allocate vec else Some vec);
          ptr \<leftarrow> (if index \<le> sv_n vec
                 then cells_memmove (sv_ptr vec) (index + 1) index (sv_n vec - index) else None);
          ptr \<leftarrow> cell_write ptr index (Some str);
          Some (vec\<lparr>sv_ptr := ptr, sv_n := sv_n vec + 1\<rparr>) }"

text \<open>The loop of \<open>string_vector_set\<close> grows the vector as long as it is large enough.\<close>

definition string_vector_set :: "StringVector \<Rightarrow> string \<Rightarrow> nat \<Rightarrow> StringVector option" where
  "string_vector_set vec str index =
     do { vec \<leftarrow> (if sv_s vec \<ge> index then string_vector_allocate vec else Some vec);
          old_value \<leftarrow> string_vector_get vec index;
          ptr \<leftarrow> cell_write (sv_ptr vec) index (Some str);
          Some (vec\<lparr>sv_ptr := ptr\<rparr>) }"

text \<open>Removing frees the string but does not lower the length.\<close>

definition string_vector_remove :: "StringVector \<Rightarrow> nat \<Rightarrow> StringVector option" where
  "string_vector_remove vec index =
     do { out \<leftarrow> string_vector_get vec index;
          ptr \<leftarrow> (if index \<le> sv_n vec
                 then cells_memcpy (sv_ptr vec) index (index + 1) (sv_n vec - index) else None);
          Some (vec\<lparr>sv_ptr := ptr\<rparr>) }"

fun string_vector_add_all :: "StringVector \<Rightarrow> string list \<Rightarrow> StringVector option" where
  "string_vector_add_all vec [] = Some vec"
| "string_vector_add_all vec (buff # rest) =
     do { vec \<leftarrow> string_vector_add vec buff; string_vector_add_all vec rest }"

text \<open>The string is None for NULL.\<close>

definition string_vector_split :: "StringVector \<Rightarrow> string option \<Rightarrow> string \<Rightarrow> StringVector option" where
  "string_vector_split vec str delim =
     (case str of None \<Rightarrow> Some vec | Some s \<Rightarrow> string_vector_add_all vec (strtok_all delim s))"

definition sv_repr :: "StringVector \<Rightarrow> string list \<Rightarrow> bool" where
  "sv_repr vec xs \<longleftrightarrow> sv_s vec = 32 \<and> length (sv_ptr vec) = 32 \<and> sv_n vec = length xs \<and> length xs < 32
     \<and> take (length xs) (sv_ptr vec) = map Some xs"

lemma string_vector_new_repr: "sv_repr string_vector_new []"
  by (simp add: sv_repr_def string_vector_new_def)

lemma string_vector_add_repr:
  assumes "sv_repr vec xs"
  shows "if length xs < 31 then \<exists>vec'. string_vector_add vec x = Some vec' \<and> sv_repr vec' (xs @ [x])
    else string_vector_add vec x = None"
  using assms
  by (auto simp: string_vector_add_def string_vector_allocate_def sv_repr_def cell_write_def take_Suc_conv_app_nth)

lemma string_vector_add_all_repr:
  assumes "sv_repr vec xs"
  shows "if length xs + length ys < 32 then \<exists>vec'. string_vector_add_all vec ys = Some vec' \<and> sv_repr vec' (xs @ ys)
    else string_vector_add_all vec ys = None"
  using assms
proof (induction ys arbitrary: vec xs)
  case Nil
  then show ?case by (simp add: sv_repr_def)
next
  case (Cons y ys)
  show ?case
  proof (cases "length xs < 31")
    case True
    then obtain vec' where vec': "string_vector_add vec y = Some vec'" "sv_repr vec' (xs @ [y])"
      using string_vector_add_repr [OF Cons.prems, of y] by auto
    then show ?thesis
      using Cons.IH [OF vec'(2)] by auto
  next
    case False
    then show ?thesis
      using string_vector_add_repr [OF Cons.prems, of y] by simp
  qed
qed

lemma string_vector_get_repr: "sv_repr vec xs \<Longrightarrow> i < length xs \<Longrightarrow> string_vector_get vec i = Some (xs ! i)"
  by (simp add: sv_repr_def string_vector_get_def cell_read_def) (metis nth_map nth_take)

text \<open>C38. Splitting appends the tokens of the string as long as there are at most 31 strings; the
  next one is undefined behaviour.\<close>

theorem string_vector_split_bounded:
  assumes "sv_repr vec xs"
  shows "if length xs + length (strtok_all delim s) < 32
    then \<exists>vec'. string_vector_split vec (Some s) delim = Some vec' \<and> sv_repr vec' (xs @ strtok_all delim s)
    else string_vector_split vec (Some s) delim = None"
  using string_vector_add_all_repr [OF assms, of "strtok_all delim s"] by (simp add: string_vector_split_def)

lemma string_vector_split_bounded_witness:
  "\<exists>vec. string_vector_split string_vector_new (Some ''a b'') '' '' = Some vec \<and> sv_repr vec [''a'', ''b'']"
  using string_vector_split_bounded [OF string_vector_new_repr, of "'' ''" "''a b''"]
  by (simp add: strtok_all.simps)

text \<open>Setting a string has no defined outcome: a place inside the vector makes the loop grow it, and
  a place outside is read.\<close>

lemma string_vector_set_undefined: "length (sv_ptr vec) = sv_s vec \<Longrightarrow> string_vector_set vec str index = None"
  by (simp add: string_vector_set_def string_vector_allocate_def string_vector_get_def cell_read_def)

section \<open>Searching and stripping\<close>

text \<open>The first index of the element, or -1; the number of elements is the caller's.\<close>

fun string_find_loop :: "string list \<Rightarrow> string \<Rightarrow> nat list \<Rightarrow> int option" where
  "string_find_loop array element [] = Some (- 1)"
| "string_find_loop array element (i # rest) =
     (if length array \<le> i then None
      else if strcmp element (array ! i) = 0 then Some (int i) else string_find_loop array element rest)"

definition string_find :: "string list \<Rightarrow> string \<Rightarrow> nat \<Rightarrow> int option" where
  "string_find array element n = string_find_loop array element [0..<n]"

lemma string_find_loop_first:
  "k + length xs = length ys \<Longrightarrow> drop k ys = xs \<Longrightarrow> string_find_loop ys e [k..<length ys] =
    Some (if e \<in> set xs then int (k + length (takeWhile (\<lambda>x. x \<noteq> e) xs)) else - 1)"
proof (induction xs arbitrary: k)
  case (Cons x xs)
  then have "k < length ys" by simp
  moreover from this have "ys ! k # drop (Suc k) ys = x # xs"
    using Cons.prems(2) by (simp add: Cons_nth_drop_Suc)
  ultimately have k: "k < length ys" "ys ! k = x" "drop (Suc k) ys = xs" "[k..<length ys] = k # [Suc k..<length ys]"
    by (simp_all add: upt_conv_Cons)
  then show ?case
    using Cons.IH [of "Suc k"] Cons.prems(1) by auto
qed simp

lemma string_find_first:
  "string_find ys e (length ys) = Some (if e \<in> set ys then int (length (takeWhile (\<lambda>x. x \<noteq> e) ys)) else - 1)"
  using string_find_loop_first [of 0 ys ys e] by (simp add: string_find_def)

text \<open>The loop from the end starts at the terminating byte.\<close>

fun strip_end :: "string \<Rightarrow> nat \<Rightarrow> nat \<Rightarrow> nat" where
  "strip_end str i j = (if i < j \<and> char_at str j = Some CHR '' '' then strip_end str i (j - 1) else j)"

declare strip_end.simps [simp del]

definition string_strip :: "string \<Rightarrow> string" where
  "string_strip str =
     (let len = length str;
          i = length (takeWhile (\<lambda>c. c = CHR '' '') str);
          j = strip_end str i len
      in take (j - i) (drop i str))"

text \<open>Blanks at the end stay.\<close>

lemma string_strip_front: "string_strip s = dropWhile (\<lambda>c. c = CHR '' '') s"
  by (simp add: string_strip_def strip_end.simps [of s _ "length s"] char_at_def dropWhile_eq_drop)

section \<open>Paths\<close>

text \<open>\<open>fix_path\<close> removes a slash that follows another one by \<open>strcpy\<close> within the string, which is
  undefined for overlapping strings; the loop index starts behind the end of an empty string.\<close>

fun fix_path_loop :: "string \<Rightarrow> nat list \<Rightarrow> string option" where
  "fix_path_loop ptr [] = Some ptr"
| "fix_path_loop ptr (i # rest) =
     (if ptr ! i = CHR ''/'' \<and> ptr ! (i - 1) = CHR ''/'' then None else fix_path_loop ptr rest)"

definition fix_path :: "string \<Rightarrow> string option" where
  "fix_path ptr = (if ptr = [] then None else fix_path_loop ptr [1..<length ptr])"

lemma fix_path_loop_iff:
  "fix_path_loop s is = (if \<exists>i \<in> set is. s ! i = CHR ''/'' \<and> s ! (i - 1) = CHR ''/'' then None else Some s)"
  by (induction "is") auto

lemma fix_path_defined:
  "fix_path s = (if s = [] \<or> (\<exists>i. Suc i < length s \<and> s ! i = CHR ''/'' \<and> s ! Suc i = CHR ''/'') then None else Some s)"
proof -
  let ?twice = "\<lambda>i. s ! i = CHR ''/'' \<and> s ! Suc i = CHR ''/''"
  have "(\<exists>i \<in> set [1..<length s]. s ! i = CHR ''/'' \<and> s ! (i - 1) = CHR ''/'') \<longleftrightarrow> (\<exists>i. Suc i < length s \<and> ?twice i)"
  proof
    assume "\<exists>i \<in> set [1..<length s]. s ! i = CHR ''/'' \<and> s ! (i - 1) = CHR ''/''"
    then obtain i where "1 \<le> i" "i < length s" "s ! i = CHR ''/''" "s ! (i - 1) = CHR ''/''" by auto
    then show "\<exists>i. Suc i < length s \<and> ?twice i"
      by (intro exI [of _ "i - 1"]) auto
  next
    assume "\<exists>i. Suc i < length s \<and> ?twice i"
    then obtain i where "Suc i < length s" "?twice i" by blast
    then show "\<exists>i \<in> set [1..<length s]. s ! i = CHR ''/'' \<and> s ! (i - 1) = CHR ''/''"
      by (intro bexI [of _ "Suc i"]) auto
  qed
  then show ?thesis by (auto simp: fix_path_def fix_path_loop_iff)
qed

text \<open>\<open>prv_mkdir\<close> gives the paths it passes to \<open>mkdir\<close>, in order; the flag says whether \<open>opendir\<close> opens
  the directory. Paths are cut to the buffer of 256 bytes.\<close>

fun mkdir_loop :: "string \<Rightarrow> nat list \<Rightarrow> string list" where
  "mkdir_loop tmp [] = []"
| "mkdir_loop tmp (p # rest) = (if tmp ! p = CHR ''/'' then [take p tmp] else []) @ mkdir_loop tmp rest"

definition prv_mkdir :: "bool \<Rightarrow> string \<Rightarrow> string list option" where
  "prv_mkdir opens dir =
     (if opens then Some []
      else let tmp = take 255 dir in
        if tmp = [] then None
        else let tmp = (if last tmp = CHR ''/'' then butlast tmp else tmp)
          in Some (mkdir_loop tmp [1..<length tmp] @ [tmp]))"

text \<open>An absolute path without double or final slashes is made from the top down.\<close>

definition path_of :: "string list \<Rightarrow> string" where
  "path_of cs = concat (map ((#) CHR ''/'') cs)"

lemma mkdir_loop_append: "mkdir_loop tmp (ps @ qs) = mkdir_loop tmp ps @ mkdir_loop tmp qs"
  by (induction ps) auto

lemma mkdir_loop_prefix: "\<forall>p \<in> set ps. p < length d \<Longrightarrow> mkdir_loop (d @ e) ps = mkdir_loop d ps"
  by (induction ps) (auto simp: nth_append)

lemma mkdir_loop_none: "\<forall>p \<in> set ps. tmp ! p \<noteq> CHR ''/'' \<Longrightarrow> mkdir_loop tmp ps = []"
  by (induction ps) auto

lemma mkdir_loop_component:
  assumes "CHR ''/'' \<notin> set c"
  shows "mkdir_loop (d @ CHR ''/'' # c) [1..<length (d @ CHR ''/'' # c)]
    = (if d = [] then [] else mkdir_loop d [1..<length d] @ [d])"
proof -
  have rest: "mkdir_loop (d @ CHR ''/'' # c) [length d + 1..<length (d @ CHR ''/'' # c)] = []"
    using assms by (intro mkdir_loop_none) (auto simp: nth_append nth_Cons' in_set_conv_nth)
  show ?thesis
  proof (cases "d = []")
    case True
    then show ?thesis using rest by simp
  next
    case False
    then have "[1..<length (d @ CHR ''/'' # c)] = [1..<length d] @ length d # [length d + 1..<length (d @ CHR ''/'' # c)]"
      using upt_add_eq_append [of 1 "length d" "Suc (length c)"] by (simp add: upt_conv_Cons Suc_le_eq del: upt_Suc)
    then show ?thesis
      using False rest mkdir_loop_prefix [of "[1..<length d]" d] by (simp add: mkdir_loop_append)
  qed
qed

lemma mkdir_path:
  assumes "\<forall>c \<in> set cs. CHR ''/'' \<notin> set c" "cs \<noteq> []"
  shows "mkdir_loop (path_of cs) [1..<length (path_of cs)] @ [path_of cs]
    = map (\<lambda>k. path_of (take k cs)) [1..<Suc (length cs)]"
  using assms
proof (induction cs rule: rev_induct)
  case (snoc c cs)
  have step: "path_of (cs @ [c]) = path_of cs @ CHR ''/'' # c"
    by (simp add: path_of_def)
  have "map (\<lambda>k. path_of (take k (cs @ [c]))) [1..<Suc (length cs)] = map (\<lambda>k. path_of (take k cs)) [1..<Suc (length cs)]"
    by (rule map_cong) auto
  then show ?case
    using snoc mkdir_loop_component [of c "path_of cs"] unfolding step
    by (cases "cs = []") (auto simp: path_of_def)
qed simp

text \<open>Every parent directory is made before its children: for a path of components without
  slashes the directories passed to \<open>mkdir\<close> are its prefixes, from the shortest to the whole.\<close>

theorem prv_mkdir_prefixes:
  assumes "\<forall>c \<in> set cs. CHR ''/'' \<notin> set c \<and> c \<noteq> []" "cs \<noteq> []" "length (path_of cs) \<le> 255"
  shows "prv_mkdir False (path_of cs) = Some (map (\<lambda>k. path_of (take k cs)) [1..<Suc (length cs)])"
proof -
  obtain ds c where "cs = ds @ [c]"
    using assms(2) by (metis rev_exhaust)
  then have "path_of cs = path_of ds @ CHR ''/'' # c" "c \<noteq> []" "CHR ''/'' \<notin> set c"
    using assms(1) by (simp_all add: path_of_def)
  then have "path_of cs \<noteq> []" "last (path_of cs) \<noteq> CHR ''/''"
    by (auto dest: last_in_set)
  then show ?thesis
    using assms(3) mkdir_path [of cs] assms(1,2) by (simp add: prv_mkdir_def)
qed

lemma prv_mkdir_prefixes_witness: "prv_mkdir False ''/var/db'' = Some [''/var'', ''/var/db'']"
proof -
  have "path_of [''var'', ''db''] = ''/var/db''" "path_of [''var''] = ''/var''"
    by (simp_all add: path_of_def)
  then show ?thesis
    using prv_mkdir_prefixes [of "[''var'', ''db'']"] by (simp add: numeral_2_eq_2)
qed

section \<open>Copying a file\<close>

text \<open>A file system maps names to contents; the flag says which names can be opened for writing.
  Opening for writing empties the file before the first byte is read.\<close>

fun copy_bytes :: "(string \<rightharpoonup> U8 list) \<Rightarrow> string \<Rightarrow> U8 list \<Rightarrow> (string \<rightharpoonup> U8 list)" where
  "copy_bytes fs dest [] = fs"
| "copy_bytes fs dest (c # rest) = copy_bytes (fs(dest \<mapsto> the (fs dest) @ [c])) dest rest"

definition file_copy :: "(string \<Rightarrow> bool) \<Rightarrow> (string \<rightharpoonup> U8 list) \<Rightarrow> string \<Rightarrow> string \<Rightarrow> (string \<rightharpoonup> U8 list)" where
  "file_copy writable fs src dest =
     (if fs src = None \<or> \<not> writable dest then fs
      else let fs = fs(dest \<mapsto> []) in copy_bytes fs dest (the (fs src)))"

lemma copy_bytes_appends: "fs dest = Some xs \<Longrightarrow> copy_bytes fs dest cs = fs(dest \<mapsto> xs @ cs)"
  by (induction cs arbitrary: fs xs) (auto simp: fun_upd_idem)

lemma file_copy_content:
  "writable dest \<Longrightarrow> fs src = Some cs \<Longrightarrow> file_copy writable fs src dest = fs(dest \<mapsto> if src = dest then [] else cs)"
  using copy_bytes_appends [of "fs(dest \<mapsto> [])" dest "[]"] by (auto simp: file_copy_def)

section \<open>Counted wrappers\<close>

text \<open>A string or a Python object in a counted object at the address \<open>a\<close>; the callback of the
  wrapper gives back what it holds and frees it.\<close>

datatype RefData = Ref_String U64 | Ref_Pyobject U64

type_synonym ref_heap = "U64 \<rightharpoonup> RefData"

definition ref_string :: "U64 \<Rightarrow> U64 \<Rightarrow> ref_heap \<times> world \<Rightarrow> ref_heap \<times> world" where
  "ref_string a str s = (case s of (h, w) \<Rightarrow> (h(a \<mapsto> Ref_String str), w\<lparr>objs := (objs w)(a \<mapsto> 0)\<rparr>))"

definition ref_pyobject :: "U64 \<Rightarrow> U64 \<Rightarrow> ref_heap \<times> world \<Rightarrow> ref_heap \<times> world" where
  "ref_pyobject a data s =
     (case s of (h, w) \<Rightarrow> (h(a \<mapsto> Ref_Pyobject data), (py_xincref data w)\<lparr>objs := (objs w)(a \<mapsto> 0)\<rparr>))"

definition ref_free :: "U64 \<Rightarrow> ref_heap \<times> world \<Rightarrow> (ref_heap \<times> world) option" where
  "ref_free a s =
     (case s of (h, w) \<Rightarrow>
        case h a of
          None \<Rightarrow> None
        | Some (Ref_String str) \<Rightarrow> Some (h(a := None), w)
        | Some (Ref_Pyobject data) \<Rightarrow> Some (h(a := None), py_xdecref data w))"

text \<open>\<open>OBJECT_DECREF\<close> on a wrapper runs the callback when it destroys the object.\<close>

definition ref_decref :: "U64 \<Rightarrow> ref_heap \<times> world \<Rightarrow> (ref_heap \<times> world) option" where
  "ref_decref a s =
     (case s of (h, w) \<Rightarrow>
        do { w \<leftarrow> object_decref a w; if objs w a = None then ref_free a (h, w) else Some (h, w) })"

text \<open>A wrapped Python object is counted once as long as the wrapper lives: with two owners it
  survives the first that lets go of it, and the second gives the reference back.\<close>

lemma ref_pyobject_life:
  assumes "a \<noteq> 0" "ref_pyobject a data (h, w) = (h1, w1)"
  shows "\<exists>w2 w3 w4 w5. object_incref a w1 = Some w2 \<and> object_incref a w2 = Some w3
    \<and> ref_decref a (h1, w3) = Some (h1, w4) \<and> (\<forall>x. py_balance w4 x = py_balance w x + (if x = data then 1 else 0))
    \<and> ref_decref a (h1, w4) = Some (h1(a := None), w5) \<and> (\<forall>x. py_balance w5 x = py_balance w x)"
  using assms
  by (auto simp: ref_pyobject_def ref_decref_def ref_free_def object_defs py_xincref_def py_xdecref_def py_balance_def)

end
