(* ===== verification/HashMap.thy ===== *)
theory HashMap
  imports Murmur Strings
begin

text \<open>
  The hash map of autogentoo/hacksaw/map.c: chained buckets selected by the Murmur3 hash of the
  key, with reallocation to twice the size at a fill level. A chain is a list, its first item in
  front. The lemmas show that lookups, insertions and removals implement those of a map from
  strings to data, also across reallocation, although the counter of the items is wrong after it.
\<close>

section \<open>The table\<close>

record MapItem =
  item_key :: string
  item_data :: U64

record Map =
  map_table :: "MapItem list list"
  map_n :: U32
  map_overlaps :: U32
  map_size :: U64
  map_realloc_at :: U64
  map_threshold :: f64

definition map_new :: "U64 \<Rightarrow> f64 \<Rightarrow> Map" where
  "map_new new_size threshold =
     \<lparr>map_table = replicate (unat new_size) [], map_n = 0, map_overlaps = 0, map_size = new_size,
      map_realloc_at = f64_mul_u64 threshold new_size, map_threshold = threshold\<rparr>"

text \<open>Freeing a chain frees its rest first. The loop counter over the table is a C int.\<close>

fun prv_map_free_bucket :: "MapItem list \<Rightarrow> world \<Rightarrow> world option" where
  "prv_map_free_bucket [] w = Some w"
| "prv_map_free_bucket (item # next) w = do { w \<leftarrow> prv_map_free_bucket next w; object_decref (item_data item) w }"

fun map_free_table :: "MapItem list list \<Rightarrow> world \<Rightarrow> world option" where
  "map_free_table [] w = Some w"
| "map_free_table (bucket # rest) w = do { w \<leftarrow> prv_map_free_bucket bucket w; map_free_table rest w }"

definition map_free :: "Map \<Rightarrow> world \<Rightarrow> world option" where
  "map_free m w = (if unat (map_size m) < 2 ^ 31 then map_free_table (map_table m) w else None)"

text \<open>The bucket of a key; a size of 0 divides by zero.\<close>

definition key_index :: "U64 \<Rightarrow> string \<Rightarrow> nat" where
  "key_index size' key = unat ((ucast (hash_str key) :: U64) mod size')"

definition map_index :: "Map \<Rightarrow> string \<Rightarrow> nat option" where
  "map_index m key = (if map_size m = 0 then None else Some (key_index (map_size m) key))"

text \<open>Looking for the key in a chain: giving its data, replacing it, or taking the item out.\<close>

fun chain_get :: "MapItem list \<Rightarrow> string \<Rightarrow> U64" where
  "chain_get [] key = 0"
| "chain_get (current # next) key = (if strcmp (item_key current) key = 0 then item_data current else chain_get next key)"

fun chain_replace :: "MapItem list \<Rightarrow> MapItem \<Rightarrow> (MapItem list \<times> U64) option" where
  "chain_replace [] item = None"
| "chain_replace (iter # next) item =
     (if strcmp (item_key iter) (item_key item) = 0 then Some (iter\<lparr>item_data := item_data item\<rparr> # next, item_data iter)
      else map_option (\<lambda>(l, out). (iter # l, out)) (chain_replace next item))"

fun chain_remove :: "MapItem list \<Rightarrow> string \<Rightarrow> (MapItem list \<times> U64) option" where
  "chain_remove [] key = None"
| "chain_remove (current # next) key =
     (if strcmp (item_key current) key = 0 then Some (next, item_data current)
      else map_option (\<lambda>(l, out). (current # l, out)) (chain_remove next key))"

definition map_get :: "Map \<Rightarrow> string \<Rightarrow> U64 option" where
  "map_get m key = map_option (\<lambda>index. chain_get (map_table m ! index) key) (map_index m key)"

definition map_remove :: "Map \<Rightarrow> string \<Rightarrow> (Map \<times> U64) option" where
  "map_remove m key =
     do { index \<leftarrow> map_index m key;
          Some (case chain_remove (map_table m ! index) key of
              Some (bucket, out) \<Rightarrow> (m\<lparr>map_table := (map_table m)[index := bucket]\<rparr>, out)
            | None \<Rightarrow> (m, 0)) }"

definition prv_map_insert_item :: "Map \<Rightarrow> MapItem \<Rightarrow> (Map \<times> U64) option" where
  "prv_map_insert_item m item =
     do { offset \<leftarrow> map_index m (item_key item);
          let m = (if map_table m ! offset \<noteq> [] then m\<lparr>map_overlaps := map_overlaps m + 1\<rparr> else m);
          Some (case chain_replace (map_table m ! offset) item of
              Some (bucket, out) \<Rightarrow> (m\<lparr>map_table := (map_table m)[offset := bucket]\<rparr>, out)
            | None \<Rightarrow> (m\<lparr>map_table := (map_table m)[offset := item # map_table m ! offset], map_n := map_n m + 1\<rparr>, 0)) }"

fun prv_map_realloc_item :: "Map \<Rightarrow> MapItem list \<Rightarrow> Map option" where
  "prv_map_realloc_item m [] = Some m"
| "prv_map_realloc_item m (item # next) =
     do { m \<leftarrow> prv_map_realloc_item m next; (m, _) \<leftarrow> prv_map_insert_item m item; Some m }"

fun map_realloc_loop :: "Map \<Rightarrow> MapItem list list \<Rightarrow> Map option" where
  "map_realloc_loop m [] = Some m"
| "map_realloc_loop m (bucket # old_table) =
     do { m \<leftarrow> prv_map_realloc_item m bucket; map_realloc_loop m old_table }"

text \<open>The counter of the items is not reset.\<close>

definition map_realloc :: "Map \<Rightarrow> U64 \<Rightarrow> Map option" where
  "map_realloc m new_size =
     map_realloc_loop (m\<lparr>map_table := replicate (unat new_size) [], map_size := new_size,
       map_realloc_at := f64_mul_u64 (map_threshold m) new_size\<rparr>) (map_table m)"

text \<open>An insertion takes a reference of the data; it gives none back when it replaces other data.\<close>

definition map_insert :: "Map \<Rightarrow> string \<Rightarrow> U64 \<Rightarrow> world \<Rightarrow> (Map \<times> world) option" where
  "map_insert m key data w =
     do { m \<leftarrow> (if map_realloc_at m \<le> ucast (map_n m + 1) then map_realloc m (map_size m * 2) else Some m);
          w \<leftarrow> object_incref data w;
          (m, _) \<leftarrow> prv_map_insert_item m \<lparr>item_key = key, item_data = data\<rparr>;
          Some (m, w) }"

text \<open>The keys in a new string vector; whether all have been found is only asked between buckets.
  The loop counter has 32 bits, as has the size of every table that fits into memory.\<close>

fun chain_keys :: "MapItem list \<Rightarrow> StringVector \<Rightarrow> StringVector option" where
  "chain_keys [] out = Some out"
| "chain_keys (current # next) out = do { out \<leftarrow> string_vector_add out (item_key current); chain_keys next out }"

fun map_all_keys_loop :: "MapItem list list \<Rightarrow> U32 \<Rightarrow> StringVector \<Rightarrow> StringVector option" where
  "map_all_keys_loop [] n out = Some out"
| "map_all_keys_loop (bucket # rest) n out =
     (if sv_n out < unat n then do { out \<leftarrow> chain_keys bucket out; map_all_keys_loop rest n out } else Some out)"

definition map_all_keys :: "Map \<Rightarrow> StringVector option" where
  "map_all_keys m = map_all_keys_loop (map_table m) (map_n m) string_vector_new"

section \<open>The table as a map\<close>

definition items_of :: "MapItem list \<Rightarrow> string \<Rightarrow> MapItem list" where
  "items_of items key = filter (\<lambda>it. item_key it = key) items"

definition first_data :: "MapItem list \<Rightarrow> string \<Rightarrow> U64 option" where
  "first_data items key = (case items_of items key of [] \<Rightarrow> None | it # _ \<Rightarrow> Some (item_data it))"

definition map_lookup :: "Map \<Rightarrow> string \<rightharpoonup> U64" where
  "map_lookup m = first_data (concat (map_table m))"

definition unique_keys :: "MapItem list \<Rightarrow> bool" where
  "unique_keys items \<longleftrightarrow> (\<forall>key. length (items_of items key) \<le> 1)"

definition map_inv :: "Map \<Rightarrow> bool" where
  "map_inv m \<longleftrightarrow> length (map_table m) = unat (map_size m) \<and> map_size m \<noteq> 0
     \<and> placed (\<lambda>it. key_index (map_size m) (item_key it)) (map_table m) \<and> unique_keys (concat (map_table m))"

lemma items_of_simps [simp]:
  "items_of [] key = []"
  "items_of (it # items) key = (if item_key it = key then it # items_of items key else items_of items key)"
  "items_of (xs @ ys) key = items_of xs key @ items_of ys key"
  by (simp_all add: items_of_def)

lemma key_index_less:
  assumes "s \<noteq> 0"
  shows "key_index s key < unat s"
  using assms unat_mono [OF word_mod_less_divisor [of s "ucast (hash_str key)"]] by (simp add: key_index_def word_neq_0_conv)

lemma chain_get_first: "chain_get items key = (case first_data items key of None \<Rightarrow> 0 | Some d \<Rightarrow> d)"
  by (induction items) (auto simp: first_data_def)

lemma chain_replace_None: "chain_replace items item = None \<longleftrightarrow> items_of items (item_key item) = []"
  by (induction items) auto

lemma chain_replace_Some:
  assumes "chain_replace items item = Some (items', out)"
  shows "items_of items' key = (if key = item_key item
      then (hd (items_of items key))\<lparr>item_data := item_data item\<rparr> # tl (items_of items key) else items_of items key)"
    and "map item_key items' = map item_key items"
  using assms by (induction items arbitrary: items' out) (auto split: if_splits)

lemma chain_remove_None: "chain_remove items key = None \<longleftrightarrow> items_of items key = []"
  by (induction items) auto

lemma chain_remove_Some:
  assumes "chain_remove items key = Some (items', out)"
  shows "items_of items' k = (if k = key then tl (items_of items k) else items_of items k)"
    and "set items' \<subseteq> set items" "first_data items key = Some out"
  using assms by (induction items arbitrary: items' out) (auto simp: first_data_def split: if_splits)

text \<open>The items of a key are those in its bucket, and changing the bucket changes only its keys.\<close>

lemma bucket_items:
  assumes "map_inv m"
  shows "items_of (concat (map_table m)) key = items_of (map_table m ! key_index (map_size m) key) key"
  unfolding items_of_def
  by (rule placed_filter_concat [where ix = "\<lambda>it. key_index (map_size m) (item_key it)"]) (use assms key_index_less in \<open>auto simp: map_inv_def\<close>)

lemma bucket_change:
  assumes "map_inv m" "\<forall>k. k \<noteq> key \<longrightarrow> items_of bucket k = items_of (map_table m ! key_index (map_size m) key) k"
  shows "items_of (concat ((map_table m)[key_index (map_size m) key := bucket])) k
    = (if k = key then items_of bucket key else items_of (concat (map_table m)) k)"
proof (cases "k = key")
  case True
  then show ?thesis
    unfolding items_of_def
    by simp (rule placed_filter_update [where ix = "\<lambda>it. key_index (map_size m) (item_key it)"],
        use assms(1) key_index_less in \<open>auto simp: map_inv_def\<close>)
next
  case False
  then show ?thesis
    using assms key_index_less [of "map_size m" key] unfolding items_of_def
    by (simp add: map_inv_def filter_concat_update_other)
qed

lemma map_get_lookup:
  assumes "map_inv m"
  shows "map_get m key = Some (case map_lookup m key of None \<Rightarrow> 0 | Some d \<Rightarrow> d)"
  using assms bucket_items [OF assms]
  by (simp add: map_get_def map_index_def map_inv_def chain_get_first map_lookup_def first_data_def)

lemma map_change:
  assumes "map_inv m" "map_size m' = map_size m"
    and "map_table m' = (map_table m)[key_index (map_size m) key := bucket]"
    and "\<forall>k. k \<noteq> key \<longrightarrow> items_of bucket k = items_of (map_table m ! key_index (map_size m) key) k"
    and "length (items_of bucket key) \<le> 1" "\<forall>it \<in> set bucket. key_index (map_size m) (item_key it) = key_index (map_size m) key"
  shows "map_inv m'" "map_lookup m' = (map_lookup m)(key := first_data bucket key)"
proof -
  note change = bucket_change [OF assms(1,4)]
  show "map_inv m'"
    using assms change by (auto simp: map_inv_def unique_keys_def intro: placed_update)
  show "map_lookup m' = (map_lookup m)(key := first_data bucket key)"
    using assms(3) change by (auto simp: map_lookup_def first_data_def)
qed

text \<open>The keys in a bucket all have its index, and the keys of an item in it are at most one.\<close>

lemma bucket_ok:
  assumes "map_inv m"
  shows "\<forall>it \<in> set (map_table m ! key_index (map_size m) key). key_index (map_size m) (item_key it) = key_index (map_size m) key"
    and "length (items_of (map_table m ! key_index (map_size m) key) key) \<le> 1"
  using assms key_index_less [of "map_size m" key] bucket_items [OF assms, of key, symmetric]
  by (auto simp: map_inv_def placed_def unique_keys_def)

lemma prv_map_insert_item_lookup:
  assumes "map_inv m"
  shows "\<exists>m' out. prv_map_insert_item m item = Some (m', out) \<and> map_inv m'
    \<and> map_lookup m' = (map_lookup m)(item_key item \<mapsto> item_data item) \<and> map_size m' = map_size m"
proof -
  let ?key = "item_key item" let ?b = "map_table m ! key_index (map_size m) ?key"
  have size: "map_size m \<noteq> 0" using assms by (simp add: map_inv_def)
  define m1 where "m1 = (if ?b \<noteq> [] then m\<lparr>map_overlaps := map_overlaps m + 1\<rparr> else m)"
  have m1: "map_table m1 = map_table m" "map_size m1 = map_size m" by (simp_all add: m1_def)
  show ?thesis
  proof (cases "chain_replace ?b item")
    case None
    let ?m = "m1\<lparr>map_table := (map_table m)[key_index (map_size m) ?key := item # ?b], map_n := map_n m1 + 1\<rparr>"
    have absent: "items_of ?b ?key = []"
      using None by (simp add: chain_replace_None)
    have "map_inv ?m" "map_lookup ?m = (map_lookup m)(?key := first_data (item # ?b) ?key)"
      by (rule map_change [OF assms, where key = ?key and bucket = "item # ?b"],
        use m1 absent bucket_ok [OF assms] in auto)+
    then show ?thesis
      using None size m1 by (simp add: prv_map_insert_item_def map_index_def Let_def flip: m1_def) (simp add: first_data_def)
  next
    case (Some r)
    obtain bucket out where r: "r = (bucket, out)" by (cases r)
    note replaced = chain_replace_Some [OF Some [unfolded r]]
    have present: "items_of ?b ?key \<noteq> []"
      using Some chain_replace_None [of ?b item] by simp
    let ?m = "m1\<lparr>map_table := (map_table m)[key_index (map_size m) ?key := bucket]\<rparr>"
    have keys: "\<forall>it \<in> set bucket. key_index (map_size m) (item_key it) = key_index (map_size m) ?key"
      using bucket_ok(1) [OF assms, of ?key] arg_cong [OF replaced(2), of set] by force
    have "map_inv ?m" "map_lookup ?m = (map_lookup m)(?key := first_data bucket ?key)"
      by (rule map_change [OF assms, where key = ?key and bucket = bucket],
        use m1 keys present bucket_ok(2) [OF assms, of ?key] in \<open>auto simp: replaced(1)\<close>)+
    moreover have "first_data bucket ?key = Some (item_data item)"
      using replaced(1) [of ?key] by (simp add: first_data_def)
    ultimately show ?thesis
      using Some r size m1 by (simp add: prv_map_insert_item_def map_index_def Let_def flip: m1_def)
  qed
qed

lemma prv_map_realloc_item_lookup:
  assumes "map_inv m"
  shows "\<exists>m'. prv_map_realloc_item m items = Some m' \<and> map_inv m' \<and> map_size m' = map_size m
    \<and> map_lookup m' = map_lookup m ++ first_data items"
  using assms
proof (induction items)
  case Nil
  then show ?case by (auto simp: first_data_def map_add_def)
next
  case (Cons item items)
  then obtain m1 where m1: "prv_map_realloc_item m items = Some m1" "map_inv m1" "map_size m1 = map_size m"
      "map_lookup m1 = map_lookup m ++ first_data items" by blast
  have first: "first_data (item # items) = (first_data items)(item_key item \<mapsto> item_data item)"
    by (auto simp: first_data_def)
  obtain m' out where m': "prv_map_insert_item m1 item = Some (m', out)" "map_inv m'" "map_size m' = map_size m1"
      "map_lookup m' = (map_lookup m1)(item_key item \<mapsto> item_data item)"
    using prv_map_insert_item_lookup [OF m1(2), of item] by blast
  have "map_lookup m' = map_lookup m ++ first_data (item # items)"
    unfolding first m'(4) m1(4) map_add_upd ..
  then show ?case
    using m1 m' by simp
qed

lemma map_realloc_loop_lookup:
  assumes "map_inv m" "unique_keys (concat table)"
  shows "\<exists>m'. map_realloc_loop m table = Some m' \<and> map_inv m' \<and> map_size m' = map_size m
    \<and> map_lookup m' = map_lookup m ++ first_data (concat table)"
  using assms
proof (induction table arbitrary: m)
  case Nil
  then show ?case by (auto simp: first_data_def map_add_def)
next
  case (Cons bucket table)
  obtain m1 where m1: "prv_map_realloc_item m bucket = Some m1" "map_inv m1" "map_size m1 = map_size m"
      "map_lookup m1 = map_lookup m ++ first_data bucket"
    using prv_map_realloc_item_lookup [OF Cons.prems(1)] by blast
  have one: "length (items_of bucket k @ items_of (concat table) k) \<le> 1" for k
    using Cons.prems(2) by (simp add: unique_keys_def)
  have "length (items_of (concat table) k) \<le> 1" for k
    using one [of k] by simp
  then have "unique_keys (concat table)"
    by (simp add: unique_keys_def)
  moreover have "first_data (bucket @ concat table) k = (first_data bucket ++ first_data (concat table)) k" for k
    using one [of k] by (auto simp: first_data_def map_add_def split: list.splits)
  then have "first_data (bucket @ concat table) = first_data bucket ++ first_data (concat table)"
    by (rule ext)
  ultimately show ?case
    using Cons.IH [OF m1(2)] m1 by auto
qed

lemma map_realloc_lookup:
  assumes "map_inv m" "new_size \<noteq> 0"
  shows "\<exists>m'. map_realloc m new_size = Some m' \<and> map_inv m' \<and> map_size m' = new_size \<and> map_lookup m' = map_lookup m"
proof -
  let ?m = "m\<lparr>map_table := replicate (unat new_size) [], map_size := new_size,
      map_realloc_at := f64_mul_u64 (map_threshold m) new_size\<rparr>"
  have empty: "concat (replicate n []) = ([] :: MapItem list)" for n
    by (induction n) auto
  have "map_inv ?m" "map_lookup ?m = Map.empty"
    using assms(2) by (auto simp: map_inv_def unique_keys_def map_lookup_def first_data_def empty)
  then show ?thesis
    using map_realloc_loop_lookup [of ?m "map_table m"] assms(1)
    by (simp add: map_realloc_def map_inv_def map_lookup_def)
qed

lemma map_new_inv: "new_size \<noteq> 0 \<Longrightarrow> map_inv (map_new new_size threshold) \<and> map_lookup (map_new new_size threshold) = Map.empty"
proof -
  have empty: "concat (replicate n []) = ([] :: MapItem list)" for n
    by (induction n) auto
  show "new_size \<noteq> 0 \<Longrightarrow> ?thesis"
    by (auto simp: map_new_def map_inv_def unique_keys_def map_lookup_def first_data_def empty)
qed

lemma map_insert_lookup:
  assumes "map_inv m" "map_size m * 2 \<noteq> 0" "live w data"
  shows "\<exists>m' w'. map_insert m key data w = Some (m', w') \<and> map_inv m' \<and> map_lookup m' = (map_lookup m)(key \<mapsto> data)
    \<and> object_incref data w = Some w'"
proof -
  obtain w' where w': "object_incref data w = Some w'"
    using rc.incref_alive [OF assms(3)] by blast
  obtain m1 where m1: "(if map_realloc_at m \<le> ucast (map_n m + 1) then map_realloc m (map_size m * 2) else Some m) = Some m1"
      "map_inv m1" "map_lookup m1 = map_lookup m"
    using map_realloc_lookup [OF assms(1,2)] assms(1) by (cases "map_realloc_at m \<le> ucast (map_n m + 1)") auto
  show ?thesis
    using prv_map_insert_item_lookup [OF m1(2), of "\<lparr>item_key = key, item_data = data\<rparr>"] m1 w'
    by (auto simp: map_insert_def)
qed

lemma map_remove_lookup:
  assumes "map_inv m"
  shows "\<exists>m'. map_remove m key = Some (m', case map_lookup m key of None \<Rightarrow> 0 | Some d \<Rightarrow> d)
    \<and> map_inv m' \<and> map_lookup m' = (map_lookup m)(key := None) \<and> map_n m' = map_n m"
proof -
  let ?b = "map_table m ! key_index (map_size m) key"
  have size: "map_size m \<noteq> 0" using assms by (simp add: map_inv_def)
  have lookup: "map_lookup m key = first_data ?b key"
    using bucket_items [OF assms] by (simp add: map_lookup_def first_data_def)
  show ?thesis
  proof (cases "chain_remove ?b key")
    case None
    then have "map_lookup m key = None"
      using lookup by (simp add: chain_remove_None first_data_def)
    then show ?thesis
      using None assms size by (auto simp: map_remove_def map_index_def)
  next
    case (Some r)
    obtain bucket out where r: "r = (bucket, out)" by (cases r)
    note removed = chain_remove_Some [OF Some [unfolded r]]
    let ?m = "m\<lparr>map_table := (map_table m)[key_index (map_size m) key := bucket]\<rparr>"
    have gone: "items_of bucket key = []"
      using removed(1) [of key] bucket_ok(2) [OF assms, of key] by (cases "items_of ?b key") auto
    have "map_inv ?m" "map_lookup ?m = (map_lookup m)(key := first_data bucket key)"
      by (rule map_change [OF assms, where key = key and bucket = bucket],
        use gone removed(1,2) bucket_ok(1) [OF assms, of key] in auto)+
    then show ?thesis
      using Some r size lookup removed(3) gone by (simp add: map_remove_def map_index_def first_data_def)
  qed
qed

section \<open>A keyed store as an interface\<close>

text \<open>
  What a client of the table relies on: putting binds the key and nothing else, taking unbinds it
  and gives what it was bound to, and getting reads the binding, or the default.
\<close>

locale keyed_store =
  fixes put :: "'t \<Rightarrow> 'k \<Rightarrow> 'd \<Rightarrow> 'w \<Rightarrow> ('t \<times> 'w) option"
    and remove :: "'t \<Rightarrow> 'k \<Rightarrow> ('t \<times> 'd) option"
    and get :: "'t \<Rightarrow> 'k \<Rightarrow> 'd option"
    and bindings :: "'t \<Rightarrow> 'k \<rightharpoonup> 'd"
    and inv :: "'t \<Rightarrow> bool"
    and ready :: "'t \<Rightarrow> 'd \<Rightarrow> 'w \<Rightarrow> bool"
    and default :: 'd
  assumes put_binds: "inv t \<Longrightarrow> ready t d w \<Longrightarrow>
      \<exists>t' w'. put t k d w = Some (t', w') \<and> inv t' \<and> bindings t' = (bindings t)(k \<mapsto> d)"
    and remove_unbinds: "inv t \<Longrightarrow>
      \<exists>t'. remove t k = Some (t', case bindings t k of None \<Rightarrow> default | Some d \<Rightarrow> d) \<and> inv t'
        \<and> bindings t' = (bindings t)(k := None)"
    and get_reads: "inv t \<Longrightarrow> get t k = Some (case bindings t k of None \<Rightarrow> default | Some d \<Rightarrow> d)"
begin

lemma put_then_get:
  assumes "inv t" "ready t d w"
  shows "\<exists>t' w'. put t k d w = Some (t', w') \<and> inv t' \<and> (\<forall>k2. get t' k2 = (if k2 = k then Some d else get t k2))"
proof -
  obtain t' w' where t': "put t k d w = Some (t', w')" "inv t'" "bindings t' = (bindings t)(k \<mapsto> d)"
    using put_binds [OF assms] by blast
  have "get t' k2 = (if k2 = k then Some d else get t k2)" for k2
    by (simp add: get_reads [OF t'(2)] get_reads [OF assms(1)] t'(3))
  then show ?thesis using t'(1,2) by blast
qed

lemma put_then_remove:
  assumes "inv t" "ready t d w"
  shows "\<exists>t' w' t2. put t k d w = Some (t', w') \<and> remove t' k = Some (t2, d)
    \<and> (\<forall>k2. get t2 k2 = (if k2 = k then Some default else get t k2))"
proof -
  obtain t' w' where t': "put t k d w = Some (t', w')" "inv t'" "bindings t' = (bindings t)(k \<mapsto> d)"
    using put_binds [OF assms] by blast
  obtain t2 where t2: "remove t' k = Some (t2, d)" "inv t2" "bindings t2 = (bindings t')(k := None)"
    using remove_unbinds [OF t'(2), of k] t'(3) by auto
  have "get t2 k2 = (if k2 = k then Some default else get t k2)" for k2
    by (simp add: get_reads [OF t2(2)] get_reads [OF assms(1)] t2(3) t'(3))
  then show ?thesis using t'(1) t2(1) by blast
qed

end

definition map_ready :: "Map \<Rightarrow> U64 \<Rightarrow> world \<Rightarrow> bool" where
  "map_ready m data w \<longleftrightarrow> map_size m * 2 \<noteq> 0 \<and> live w data"

interpretation string_map: keyed_store map_insert map_remove map_get map_lookup map_inv map_ready 0
proof
  fix m d w k
  assume "map_inv m" "map_ready m d w"
  then show "\<exists>m' w'. map_insert m k d w = Some (m', w') \<and> map_inv m' \<and> map_lookup m' = (map_lookup m)(k \<mapsto> d)"
    using map_insert_lookup [of m w d k] unfolding map_ready_def by blast
next
  fix m k
  assume "map_inv m"
  then show "\<exists>m'. map_remove m k = Some (m', case map_lookup m k of None \<Rightarrow> 0 | Some d \<Rightarrow> d) \<and> map_inv m'
      \<and> map_lookup m' = (map_lookup m)(k := None)"
    using map_remove_lookup [of m k] by blast
qed (rule map_get_lookup)

text \<open>C19. Inserting into a map succeeds and keeps its invariant, across reallocation too; afterwards
  the key reads the new data and every other key what it read before.\<close>

theorem map_insert_get:
  assumes "map_inv m" "map_size m * 2 \<noteq> 0" "live w data"
  shows "\<exists>m' w'. map_insert m key data w = Some (m', w') \<and> map_inv m'
    \<and> (\<forall>k. map_get m' k = (if k = key then Some data else map_get m k))"
  by (rule string_map.put_then_get) (simp_all add: assms map_ready_def)

text \<open>C20. What was inserted is given back by removing it, and afterwards its key reads NULL and every
  other key what it read before.\<close>

theorem map_insert_remove:
  assumes "map_inv m" "map_size m * 2 \<noteq> 0" "live w data"
  shows "\<exists>m' w' m2. map_insert m key data w = Some (m', w') \<and> map_remove m' key = Some (m2, data)
    \<and> (\<forall>k. map_get m2 k = (if k = key then Some 0 else map_get m k))"
  by (rule string_map.put_then_remove) (simp_all add: assms map_ready_def)

lemma map_insert_get_witness:
  "\<exists>m w. map_insert (map_new 1 (1, 1)) ''key'' 5 \<lparr>objs = [5 \<mapsto> 1], destroyed = [], py_calls = []\<rparr> = Some (m, w)
    \<and> map_get m ''key'' = Some 5"
  using map_insert_get [of "map_new 1 (1, 1)" "\<lparr>objs = [5 \<mapsto> 1], destroyed = [], py_calls = []\<rparr>" 5 "''key''"]
    map_new_inv [of 1 "(1, 1)"] by (auto simp: map_new_def live_def)

lemma map_insert_remove_witness:
  "\<exists>m w m2. map_insert (map_new 1 (1, 1)) ''key'' 5 \<lparr>objs = [5 \<mapsto> 1], destroyed = [], py_calls = []\<rparr> = Some (m, w)
    \<and> map_remove m ''key'' = Some (m2, 5)"
  using map_insert_remove [of "map_new 1 (1, 1)" "\<lparr>objs = [5 \<mapsto> 1], destroyed = [], py_calls = []\<rparr>" 5 "''key''"]
    map_new_inv [of 1 "(1, 1)"] by (auto simp: map_new_def live_def)

section \<open>The counter of the items\<close>

lemma prv_map_insert_item_n:
  assumes "map_inv m" "map_lookup m (item_key item) = None" "prv_map_insert_item m item = Some (m', out)"
  shows "map_n m' = map_n m + 1"
proof -
  have "items_of (map_table m ! key_index (map_size m) (item_key item)) (item_key item) = []"
    using assms(2) bucket_items [OF assms(1)] by (simp add: map_lookup_def first_data_def split: list.splits)
  then have "chain_replace (map_table m ! key_index (map_size m) (item_key item)) item = None"
    by (simp add: chain_replace_None)
  then show ?thesis
    using assms(3) by (auto simp: prv_map_insert_item_def map_index_def Let_def split: if_splits)
qed

lemma prv_map_realloc_item_n:
  assumes "map_inv m" "unique_keys items" "\<forall>k. items_of items k \<noteq> [] \<longrightarrow> map_lookup m k = None"
    and "prv_map_realloc_item m items = Some m'"
  shows "map_n m' = map_n m + word_of_nat (length items)"
  using assms
proof (induction items arbitrary: m')
  case (Cons item items)
  have one: "length (items_of (item # items) k) \<le> 1" for k
    using Cons.prems(2) by (simp add: unique_keys_def)
  have unique: "unique_keys items"
  proof -
    have "length (items_of items k) \<le> 1" for k using one [of k] by (simp split: if_splits)
    then show ?thesis by (simp add: unique_keys_def)
  qed
  have absent: "\<forall>k. items_of items k \<noteq> [] \<longrightarrow> map_lookup m k = None"
    using Cons.prems(3) by auto
  obtain m1 where m1: "prv_map_realloc_item m items = Some m1" "map_inv m1" "map_lookup m1 = map_lookup m ++ first_data items"
    using prv_map_realloc_item_lookup [OF Cons.prems(1)] by blast
  obtain out where out: "prv_map_insert_item m1 item = Some (m', out)"
    using Cons.prems(4) m1(1) by (auto split: bind_splits)
  have "map_lookup m (item_key item) = None" "items_of items (item_key item) = []"
    using Cons.prems(3) one [of "item_key item"] by auto
  then have "map_lookup m1 (item_key item) = None"
    by (simp add: m1(3) map_add_def first_data_def)
  then show ?case
    using prv_map_insert_item_n [OF m1(2) _ out] Cons.IH [OF Cons.prems(1) unique absent m1(1)] by simp
qed simp

lemma map_realloc_loop_n:
  assumes "map_inv m" "unique_keys (concat table)" "\<forall>k. items_of (concat table) k \<noteq> [] \<longrightarrow> map_lookup m k = None"
    and "map_realloc_loop m table = Some m'"
  shows "map_n m' = map_n m + word_of_nat (length (concat table))"
  using assms
proof (induction table arbitrary: m)
  case (Cons bucket table)
  obtain m1 where m1: "prv_map_realloc_item m bucket = Some m1" "map_inv m1" "map_lookup m1 = map_lookup m ++ first_data bucket"
    using prv_map_realloc_item_lookup [OF Cons.prems(1)] by blast
  have one: "length (items_of bucket k) + length (items_of (concat table) k) \<le> 1" for k
    using Cons.prems(2) by (simp add: unique_keys_def)
  have "length (items_of bucket k) \<le> 1" "length (items_of (concat table) k) \<le> 1" for k
    using one [of k] by simp_all
  then have unique: "unique_keys bucket" "unique_keys (concat table)"
    by (simp_all add: unique_keys_def)
  have "items_of (concat table) k \<noteq> [] \<longrightarrow> map_lookup m1 k = None" for k
    using one [of k] Cons.prems(3) by (cases "items_of bucket k") (auto simp: m1(3) map_add_def first_data_def)
  then have "map_n m' = map_n m1 + word_of_nat (length (concat table))"
    using Cons.IH [OF m1(2) unique(2)] Cons.prems(4) m1(1) by simp
  moreover have "map_n m1 = map_n m + word_of_nat (length bucket)"
    using prv_map_realloc_item_n [OF Cons.prems(1) unique(1) _ m1(1)] Cons.prems(3) by auto
  ultimately show ?case by simp
qed simp

text \<open>A reallocation counts every item once more: a counter that was the number of the items is
  twice that number afterwards, so the table grows earlier than its threshold says.\<close>

theorem map_realloc_counts_twice:
  assumes "map_inv m" "new_size \<noteq> 0" "map_n m = word_of_nat (length (concat (map_table m)))"
  shows "\<exists>m'. map_realloc m new_size = Some m' \<and> map_lookup m' = map_lookup m
    \<and> map_n m' = 2 * word_of_nat (length (concat (map_table m)))"
proof -
  obtain m' where m': "map_realloc m new_size = Some m'" "map_lookup m' = map_lookup m"
    using map_realloc_lookup [OF assms(1,2)] by blast
  let ?m = "m\<lparr>map_table := replicate (unat new_size) [], map_size := new_size,
      map_realloc_at := f64_mul_u64 (map_threshold m) new_size\<rparr>"
  have empty: "concat (replicate n []) = ([] :: MapItem list)" for n
    by (induction n) auto
  have "map_inv ?m" "map_lookup ?m = Map.empty"
    using assms(2) by (auto simp: map_inv_def unique_keys_def map_lookup_def first_data_def empty)
  then have "map_n m' = map_n ?m + word_of_nat (length (concat (map_table m)))"
    using map_realloc_loop_n [of ?m "map_table m"] m'(1) assms(1) by (simp add: map_realloc_def map_inv_def)
  then show ?thesis
    using m' assms(3) by simp
qed

section \<open>All keys\<close>

lemma chain_keys_add: "chain_keys items out = string_vector_add_all out (map item_key items)"
proof (induction items arbitrary: out)
  case (Cons item items)
  then show ?case by (cases "string_vector_add out (item_key item)") auto
qed simp

lemma map_all_keys_loop_repr:
  assumes "sv_repr out xs" "length xs + length (concat table) \<le> unat n"
  shows "if length xs + length (concat table) < 32
    then \<exists>out'. map_all_keys_loop table n out = Some out' \<and> sv_repr out' (xs @ map item_key (concat table))
    else map_all_keys_loop table n out = None"
  using assms
proof (induction table arbitrary: out xs)
  case Nil
  then show ?case by (simp add: sv_repr_def)
next
  case (Cons bucket table)
  have n: "sv_n out = length xs" "length xs < 32" using Cons.prems(1) by (simp_all add: sv_repr_def)
  note keys = string_vector_add_all_repr [OF Cons.prems(1), of "map item_key bucket"]
  show ?case
  proof (cases "length xs < unat n")
    case False
    moreover have "length xs + (length bucket + length (concat table)) \<le> unat n"
      using Cons.prems(2) by simp
    ultimately have "length bucket = 0" "length (concat table) = 0"
      by linarith+
    then have "bucket = []" "concat table = []"
      unfolding length_0_conv .
    then show ?thesis
      using False n Cons.prems(1) by (simp only: concat.simps append_Nil list.map append_Nil2 list.size) simp
  next
    case True
    show ?thesis
    proof (cases "length xs + length bucket < 32")
      case short: True
      then obtain o1 where "chain_keys bucket out = Some o1" "sv_repr o1 (xs @ map item_key bucket)"
        using keys by (auto simp: chain_keys_add)
      then show ?thesis
        using True n Cons.IH [of o1 "xs @ map item_key bucket"] Cons.prems(2) by (auto simp: add.assoc)
    next
      case False
      then show ?thesis
        using True n keys by (simp add: chain_keys_add)
    qed
  qed
qed

text \<open>\<open>map_all_keys\<close> gives the keys of a map with at most 31 items; a larger map is undefined
  behaviour in the string vector.\<close>

theorem map_all_keys_bounded:
  assumes "length (concat (map_table m)) \<le> unat (map_n m)"
  shows "if length (concat (map_table m)) < 32
    then \<exists>out. map_all_keys m = Some out \<and> sv_repr out (map item_key (concat (map_table m)))
    else map_all_keys m = None"
  using map_all_keys_loop_repr [OF string_vector_new_repr, of "map_table m" "map_n m"] assms
  by (simp add: map_all_keys_def split: if_split_asm)

lemma map_all_keys_bounded_witness:
  "\<exists>out. map_all_keys ((map_new 1 (1, 1))\<lparr>map_table := [[\<lparr>item_key = ''k'', item_data = 5\<rparr>]], map_n := 1\<rparr>) = Some out
    \<and> sv_repr out [''k'']"
  using map_all_keys_bounded [of "(map_new 1 (1, 1))\<lparr>map_table := [[\<lparr>item_key = ''k'', item_data = 5\<rparr>]], map_n := 1\<rparr>"]
  by simp

lemma map_realloc_counts_twice_witness:
  "\<exists>m'. map_realloc ((map_new 1 (1, 1))\<lparr>map_table := [[\<lparr>item_key = ''k'', item_data = 5\<rparr>]], map_n := 1\<rparr>) 2 = Some m'
    \<and> map_n m' = 2"
proof -
  let ?m = "(map_new 1 (1, 1))\<lparr>map_table := [[\<lparr>item_key = ''k'', item_data = 5\<rparr>]], map_n := 1\<rparr>"
  have "key_index 1 ''k'' = 0"
    using key_index_less [of 1 "''k''"] by simp
  then have "map_inv ?m"
    by (simp add: map_inv_def map_new_def placed_def unique_keys_def)
  then show ?thesis
    using map_realloc_counts_twice [of ?m 2] by auto
qed

end
