(* ===== verification/Lifetime.thy ===== *)
theory Lifetime
  imports Prelude
begin

text \<open>
  The lifetime of the Python objects of autogentoo/cportage: the deallocation functions of
  package.c, ebuild.c, atom.c, dependency.c and use.c on a heap of reference counts. Giving back
  the last reference of an object runs its deallocation function, which gives back the references
  the object owns, in its order, and frees it; the calls still to come are a list, the stack of the
  C program. Touching an object that has been freed, or giving back a reference of one that is
  being freed, is undefined behaviour. The lemmas show that with correct counts neither happens,
  and that exactly the objects without a reference from outside are freed.
\<close>

section \<open>Objects\<close>

datatype py_type =
  TY_Package | TY_Ebuild | TY_Atom | TY_AtomVersion | TY_AtomFlag | TY_Dependency | TY_RequiredUse | TY_UseFlag
| TY_Dict

text \<open>A pointer in a field, 0 for NULL; a dictionary of CPython owns the values it holds.\<close>

record py_object =
  ob_type :: py_type
  ob_refcnt :: nat
  ob_field :: "string \<Rightarrow> U64"
  ob_items :: "U64 list"

type_synonym heap = "U64 \<rightharpoonup> py_object"

text \<open>The fields the deallocation functions give back, in order.\<close>

definition PyPackage_dealloc :: "string list" where
  "PyPackage_dealloc = [''ebuilds'']"

definition PyEbuild_dealloc :: "string list" where
  "PyEbuild_dealloc = [''older'', ''depend'', ''bdepend'', ''rdepend'', ''pdepend'', ''iuse'', ''required_use'',
     ''src_uri'', ''version'']"

definition PyAtom_dealloc :: "string list" where
  "PyAtom_dealloc = [''useflags'', ''version'']"

definition PyAtomVersion_dealloc :: "string list" where
  "PyAtomVersion_dealloc = [''next'']"

definition PyAtomFlag_dealloc :: "string list" where
  "PyAtomFlag_dealloc = [''next'']"

definition PyDependency_dealloc :: "string list" where
  "PyDependency_dealloc = [''atom'', ''next'', ''children'']"

definition PyRequiredUse_dealloc :: "string list" where
  "PyRequiredUse_dealloc = [''next'', ''depend'']"

definition PyUseFlag_dealloc :: "string list" where
  "PyUseFlag_dealloc = []"

fun tp_dealloc :: "py_type \<Rightarrow> string list" where
  "tp_dealloc TY_Package = PyPackage_dealloc"
| "tp_dealloc TY_Ebuild = PyEbuild_dealloc"
| "tp_dealloc TY_Atom = PyAtom_dealloc"
| "tp_dealloc TY_AtomVersion = PyAtomVersion_dealloc"
| "tp_dealloc TY_AtomFlag = PyAtomFlag_dealloc"
| "tp_dealloc TY_Dependency = PyDependency_dealloc"
| "tp_dealloc TY_RequiredUse = PyRequiredUse_dealloc"
| "tp_dealloc TY_UseFlag = PyUseFlag_dealloc"
| "tp_dealloc TY_Dict = []"

definition owned_refs :: "py_object \<Rightarrow> U64 list" where
  "owned_refs ob = map (ob_field ob) (tp_dealloc (ob_type ob)) @ ob_items ob"

datatype call = Decref U64 | Free U64

partial_function (option) release :: "call list \<Rightarrow> heap \<Rightarrow> heap option" where
  "release todo h =
     (case todo of
        [] \<Rightarrow> Some h
      | Free p # todo \<Rightarrow> release todo (h(p := None))
      | Decref p # todo \<Rightarrow>
          if p = 0 then release todo h
          else (case h p of
              None \<Rightarrow> None
            | Some ob \<Rightarrow>
                if ob_refcnt ob = 0 then None
                else if ob_refcnt ob = 1
                then release (map Decref (owned_refs ob) @ Free p # todo) (h(p \<mapsto> ob\<lparr>ob_refcnt := 0\<rparr>))
                else release todo (h(p \<mapsto> ob\<lparr>ob_refcnt := ob_refcnt ob - 1\<rparr>))))"

definition Py_XDECREF_heap :: "U64 \<Rightarrow> heap \<Rightarrow> heap option" where
  "Py_XDECREF_heap p h = release [Decref p] h"

lemma release_simps:
  "release [] h = Some h"
  "release (Free p # todo) h = release todo (h(p := None))"
  "release (Decref 0 # todo) h = release todo h"
  "p \<noteq> 0 \<Longrightarrow> h p = None \<Longrightarrow> release (Decref p # todo) h = None"
  "p \<noteq> 0 \<Longrightarrow> h p = Some ob \<Longrightarrow> ob_refcnt ob = 1 \<Longrightarrow>
    release (Decref p # todo) h = release (map Decref (owned_refs ob) @ Free p # todo) (h(p \<mapsto> ob\<lparr>ob_refcnt := 0\<rparr>))"
  "p \<noteq> 0 \<Longrightarrow> h p = Some ob \<Longrightarrow> 1 < ob_refcnt ob \<Longrightarrow>
    release (Decref p # todo) h = release todo (h(p \<mapsto> ob\<lparr>ob_refcnt := ob_refcnt ob - 1\<rparr>))"
  by (subst release.simps, simp)+

section \<open>Counting references\<close>

text \<open>The references of live objects to \<open>x\<close>: an object that is being freed has passed on what it
  owned to the calls still to come.\<close>

definition refs_from :: "py_object \<Rightarrow> U64 \<Rightarrow> nat" where
  "refs_from ob x = (if ob_refcnt ob = 0 then 0 else count_list (owned_refs ob) x)"

definition heap_refs :: "heap \<Rightarrow> U64 \<Rightarrow> nat" where
  "heap_refs h x = (\<Sum>q \<in> dom h. refs_from (the (h q)) x)"

definition refcnt_at :: "heap \<Rightarrow> U64 \<Rightarrow> nat" where
  "refcnt_at h x = (case h x of None \<Rightarrow> 0 | Some ob \<Rightarrow> ob_refcnt ob)"

definition balanced :: "heap \<Rightarrow> call list \<Rightarrow> (U64 \<Rightarrow> nat) \<Rightarrow> bool" where
  "balanced h todo ext \<longleftrightarrow> finite (dom h) \<and> 0 \<notin> dom h
     \<and> (\<forall>x. x \<noteq> 0 \<longrightarrow> refcnt_at h x = heap_refs h x + count_list todo (Decref x) + ext x)
     \<and> (\<forall>x ob. h x = Some ob \<longrightarrow> count_list todo (Free x) = (if ob_refcnt ob = 0 then 1 else 0))
     \<and> (\<forall>x. h x = None \<longrightarrow> Free x \<notin> set todo)"

lemma heap_refs_upd:
  assumes "finite (dom h)" "h p = Some ob"
  shows "heap_refs (h(p \<mapsto> ob')) x + refs_from ob x = heap_refs h x + refs_from ob' x"
proof -
  have "p \<in> dom h" using assms(2) by blast
  have "heap_refs g x = refs_from (the (g p)) x + (\<Sum>q \<in> dom h - {p}. refs_from (the (g q)) x)" if "dom g = dom h" for g
    unfolding heap_refs_def that by (rule sum.remove [OF assms(1) \<open>p \<in> dom h\<close>])
  from this [of h] this [of "h(p \<mapsto> ob')"] show ?thesis
    using assms(2) by (simp add: insert_absorb [OF \<open>p \<in> dom h\<close>])
qed

lemma heap_refs_del:
  assumes "finite (dom h)" "h p = Some ob"
  shows "heap_refs (h(p := None)) x + refs_from ob x = heap_refs h x"
proof -
  have "p \<in> dom h" using assms(2) by blast
  have "heap_refs h x = refs_from (the (h p)) x + (\<Sum>q \<in> dom h - {p}. refs_from (the (h q)) x)"
    unfolding heap_refs_def by (rule sum.remove [OF assms(1) \<open>p \<in> dom h\<close>])
  moreover have "heap_refs (h(p := None)) x = (\<Sum>q \<in> dom h - {p}. refs_from (the (h q)) x)"
    unfolding heap_refs_def by (rule sum.cong) auto
  ultimately show ?thesis using assms(2) by simp
qed

lemma count_map_Decref: "count_list (map Decref xs) (Decref x) = count_list xs x" "count_list (map Decref xs) (Free x) = 0"
  by (induction xs) auto

lemma count_list_append [simp]: "count_list (xs @ ys) x = count_list xs x + count_list ys x"
  by (induction xs) auto

lemmas balanced_simps = balanced_def refcnt_at_def count_map_Decref

lemma balanced_null: "balanced h (Decref 0 # todo) ext \<Longrightarrow> balanced h todo ext"
  by (auto simp: balanced_simps)

lemma balanced_target:
  assumes "balanced h (Decref p # todo) ext" "p \<noteq> 0"
  obtains ob where "h p = Some ob" "ob_refcnt ob \<noteq> 0"
proof -
  have "refcnt_at h p = heap_refs h p + count_list (Decref p # todo) (Decref p) + ext p"
    using assms unfolding balanced_def by blast
  then show ?thesis
    using that by (cases "h p") (auto simp: refcnt_at_def)
qed

lemma balanced_outside: "balanced h todo ext \<Longrightarrow> h x = None \<Longrightarrow> Free x \<notin> set todo"
  by (simp add: balanced_def)

lemma balanced_frees:
  "balanced h todo ext \<Longrightarrow> h x = Some ob \<Longrightarrow> count_list todo (Free x) = (if ob_refcnt ob = 0 then 1 else 0)"
  unfolding balanced_def by blast

lemma balanced_counts:
  "balanced h todo ext \<Longrightarrow> x \<noteq> 0 \<Longrightarrow> refcnt_at h x = heap_refs h x + count_list todo (Decref x) + ext x"
  unfolding balanced_def by blast

lemma balanced_free:
  assumes "balanced h (Free p # todo) ext"
  shows "balanced (h(p := None)) todo ext" "refcnt_at h p = 0"
proof -
  have "h p \<noteq> None" using balanced_outside [OF assms, of p] by auto
  then obtain ob where ob: "h p = Some ob" by blast
  have "count_list (Free p # todo) (Free p) = (if ob_refcnt ob = 0 then 1 else 0)"
    using assms ob unfolding balanced_def by blast
  then have zero: "ob_refcnt ob = 0" "count_list todo (Free p) = 0"
    by (simp_all split: if_splits)
  have fin: "finite (dom h)" using assms by (simp add: balanced_def)
  have refs: "heap_refs (h(p := None)) x = heap_refs h x" for x
    using heap_refs_del [OF fin ob, of x] zero(1) by (simp add: refs_from_def)
  show "refcnt_at h p = 0" using ob zero(1) by (simp add: refcnt_at_def)
  show "balanced (h(p := None)) todo ext"
    unfolding balanced_def
  proof (intro conjI allI impI)
    show "finite (dom (h(p := None)))" "0 \<notin> dom (h(p := None))"
      using assms by (simp_all add: balanced_def)
    show "refcnt_at (h(p := None)) x = heap_refs (h(p := None)) x + count_list todo (Decref x) + ext x" if "x \<noteq> 0" for x
      using balanced_counts [OF assms that] refs ob zero(1) by (auto simp: refcnt_at_def split: if_splits)
    show "count_list todo (Free x) = (if ob_refcnt o' = 0 then 1 else 0)" if "(h(p := None)) x = Some o'" for x o'
      using balanced_frees [OF assms, of x o'] that by (simp split: if_splits)
    show "Free x \<notin> set todo" if "(h(p := None)) x = None" for x
      using balanced_outside [OF assms, of x] zero(2) that by (cases "x = p") (simp_all add: count_list_0_iff)
  qed
qed

lemma balanced_last:
  assumes bal: "balanced h (Decref p # todo) ext" and p: "p \<noteq> 0" "h p = Some ob" "ob_refcnt ob = 1"
  shows "balanced (h(p \<mapsto> ob\<lparr>ob_refcnt := 0\<rparr>)) (map Decref (owned_refs ob) @ Free p # todo) ext"
proof -
  have fin: "finite (dom h)" using bal by (simp add: balanced_def)
  have refs: "heap_refs (h(p \<mapsto> ob\<lparr>ob_refcnt := 0\<rparr>)) x + count_list (owned_refs ob) x = heap_refs h x" for x
    using heap_refs_upd [OF fin p(2), of "ob\<lparr>ob_refcnt := 0\<rparr>" x] p(3) by (simp add: refs_from_def)
  have counts: "refcnt_at h x = heap_refs h x + count_list (Decref p # todo) (Decref x) + ext x" if "x \<noteq> 0" for x
    using bal that unfolding balanced_def by blast
  have "refcnt_at (h(p \<mapsto> ob\<lparr>ob_refcnt := 0\<rparr>)) x = heap_refs (h(p \<mapsto> ob\<lparr>ob_refcnt := 0\<rparr>)) x
      + count_list (map Decref (owned_refs ob) @ Free p # todo) (Decref x) + ext x" if "x \<noteq> 0" for x
    using counts [OF that] refs [of x] p by (auto simp: refcnt_at_def count_map_Decref split: if_splits)
  moreover have "Free p \<notin> set todo"
  proof -
    have "count_list (Decref p # todo) (Free p) = (if ob_refcnt ob = 0 then 1 else 0)"
      using bal p(2) unfolding balanced_def by blast
    then show ?thesis using p(3) by (simp add: count_list_0_iff)
  qed
  ultimately show ?thesis
    using bal p unfolding balanced_def
    by (auto simp: count_map_Decref count_list_0_iff split: if_splits)
qed

lemma balanced_dec:
  assumes bal: "balanced h (Decref p # todo) ext" and p: "p \<noteq> 0" "h p = Some ob" "1 < ob_refcnt ob"
  shows "balanced (h(p \<mapsto> ob\<lparr>ob_refcnt := ob_refcnt ob - 1\<rparr>)) todo ext"
proof -
  have fin: "finite (dom h)" using bal by (simp add: balanced_def)
  have refs: "heap_refs (h(p \<mapsto> ob\<lparr>ob_refcnt := ob_refcnt ob - 1\<rparr>)) x = heap_refs h x" for x
    using heap_refs_upd [OF fin p(2), of "ob\<lparr>ob_refcnt := ob_refcnt ob - 1\<rparr>" x] p(3)
    by (simp add: refs_from_def owned_refs_def)
  have counts: "refcnt_at h x = heap_refs h x + count_list (Decref p # todo) (Decref x) + ext x" if "x \<noteq> 0" for x
    using bal that unfolding balanced_def by blast
  have "refcnt_at (h(p \<mapsto> ob\<lparr>ob_refcnt := ob_refcnt ob - 1\<rparr>)) x = heap_refs h x + count_list todo (Decref x) + ext x"
    if "x \<noteq> 0" for x
    using counts [OF that] p by (auto simp: refcnt_at_def split: if_splits)
  then show ?thesis
    using bal p unfolding balanced_def refs by (auto split: if_splits)
qed

section \<open>Releasing a reference\<close>

text \<open>What is left of the heap has the fields it had.\<close>

definition same_owned :: "heap \<Rightarrow> heap \<Rightarrow> bool" where
  "same_owned h h' \<longleftrightarrow> (\<forall>x ob'. h' x = Some ob' \<longrightarrow> (\<exists>ob. h x = Some ob \<and> owned_refs ob' = owned_refs ob))"

lemma same_owned_trans: "same_owned h g \<Longrightarrow> same_owned g h' \<Longrightarrow> same_owned h h'"
  unfolding same_owned_def by metis

definition refcnt_total :: "heap \<Rightarrow> nat" where
  "refcnt_total h = (\<Sum>q \<in> dom h. ob_refcnt (the (h q)))"

lemma refcnt_total_upd:
  assumes "finite (dom h)" "h p = Some ob"
  shows "refcnt_total (h(p \<mapsto> ob')) + ob_refcnt ob = refcnt_total h + ob_refcnt ob'"
proof -
  have "p \<in> dom h" using assms(2) by blast
  have "refcnt_total g = ob_refcnt (the (g p)) + (\<Sum>q \<in> dom h - {p}. ob_refcnt (the (g q)))" if "dom g = dom h" for g
    unfolding refcnt_total_def that by (rule sum.remove [OF assms(1) \<open>p \<in> dom h\<close>])
  from this [of h] this [of "h(p \<mapsto> ob')"] show ?thesis
    using assms(2) by (simp add: insert_absorb [OF \<open>p \<in> dom h\<close>])
qed

lemma refcnt_total_del:
  assumes "finite (dom h)" "refcnt_at h p = 0"
  shows "refcnt_total (h(p := None)) = refcnt_total h"
proof (cases "h p")
  case None
  then have "h(p := None) = h" by (simp add: fun_upd_idem)
  then show ?thesis by simp
next
  case (Some ob)
  then have "p \<in> dom h" by blast
  have "refcnt_total h = ob_refcnt (the (h p)) + (\<Sum>q \<in> dom h - {p}. ob_refcnt (the (h q)))"
    unfolding refcnt_total_def by (rule sum.remove [OF assms(1) \<open>p \<in> dom h\<close>])
  moreover have "refcnt_total (h(p := None)) = (\<Sum>q \<in> dom h - {p}. ob_refcnt (the (h q)))"
    unfolding refcnt_total_def by (rule sum.cong) auto
  ultimately show ?thesis using assms(2) Some by (simp add: refcnt_at_def)
qed

lemma release_balanced:
  "balanced h todo ext \<Longrightarrow> \<exists>h'. release todo h = Some h' \<and> balanced h' [] ext \<and> same_owned h h'"
proof (induction "refcnt_total h" arbitrary: h todo rule: less_induct)
  case less
  have total: "refcnt_total g = refcnt_total h \<Longrightarrow> balanced g ts ext \<Longrightarrow>
      \<exists>h'. release ts g = Some h' \<and> balanced h' [] ext \<and> same_owned g h'" for g ts
  proof (induction ts arbitrary: g)
    case Nil
    then show ?case by (auto simp: release_simps(1) same_owned_def)
  next
    case (Cons c ts)
    have fin: "finite (dom g)" using Cons.prems(2) by (simp add: balanced_def)
    show ?case
    proof (cases c)
      case (Free p)
      note free = balanced_free [OF Cons.prems(2) [unfolded Free]]
      have "refcnt_total (g(p := None)) = refcnt_total h"
        using refcnt_total_del [OF fin free(2)] Cons.prems(1) by simp
      then obtain h' where "release ts (g(p := None)) = Some h'" "balanced h' [] ext" "same_owned (g(p := None)) h'"
        using Cons.IH free(1) by blast
      moreover have "same_owned g (g(p := None))"
        by (auto simp: same_owned_def)
      ultimately show ?thesis
        unfolding Free release_simps(2) using same_owned_trans by blast
    next
      case (Decref p)
      show ?thesis
      proof (cases "p = 0")
        case True
        then show ?thesis
          using Cons balanced_null [of g ts ext] unfolding Decref by (simp add: release_simps(3))
      next
        case False
        obtain ob where ob: "g p = Some ob" "ob_refcnt ob \<noteq> 0"
          using balanced_target [OF Cons.prems(2) [unfolded Decref] False] .
        have next_step: "\<exists>h'. release ts' (g(p \<mapsto> ob\<lparr>ob_refcnt := n\<rparr>)) = Some h' \<and> balanced h' [] ext \<and> same_owned g h'"
          if small: "n < ob_refcnt ob" and bal: "balanced (g(p \<mapsto> ob\<lparr>ob_refcnt := n\<rparr>)) ts' ext" for n ts'
        proof -
          have "refcnt_total (g(p \<mapsto> ob\<lparr>ob_refcnt := n\<rparr>)) < refcnt_total h"
            using refcnt_total_upd [OF fin ob(1), of "ob\<lparr>ob_refcnt := n\<rparr>"] small Cons.prems(1) by simp
          then obtain h' where "release ts' (g(p \<mapsto> ob\<lparr>ob_refcnt := n\<rparr>)) = Some h'" "balanced h' [] ext"
              "same_owned (g(p \<mapsto> ob\<lparr>ob_refcnt := n\<rparr>)) h'"
            using less.hyps bal by blast
          moreover have "same_owned g (g(p \<mapsto> ob\<lparr>ob_refcnt := n\<rparr>))"
            using ob(1) by (auto simp: same_owned_def owned_refs_def)
          ultimately show ?thesis using same_owned_trans by blast
        qed
        show ?thesis
        proof (cases "ob_refcnt ob = 1")
          case True
          then show ?thesis
            unfolding Decref release_simps(5) [where h = g and p = p and ob = ob, OF False ob(1) True]
            by (intro next_step balanced_last [OF Cons.prems(2) [unfolded Decref] False ob(1)]) simp_all
        next
          case more: False
          then have "1 < ob_refcnt ob" using ob(2) by simp
          then show ?thesis
            unfolding Decref release_simps(6) [where h = g and p = p and ob = ob, OF False ob(1) \<open>1 < ob_refcnt ob\<close>]
            by (intro next_step balanced_dec [OF Cons.prems(2) [unfolded Decref] False ob(1)]) simp_all
        qed
      qed
    qed
  qed
  show ?case using total less.prems by simp
qed

section \<open>Which objects stay\<close>

definition points_to :: "heap \<Rightarrow> (U64 \<times> U64) set" where
  "points_to h = {(q, x). x \<noteq> 0 \<and> (\<exists>ob. h q = Some ob \<and> x \<in> set (owned_refs ob))}"

lemma points_to_finite:
  assumes "finite (dom h)"
  shows "finite (points_to h)"
proof -
  have "points_to h \<subseteq> (\<Union>q \<in> dom h. {q} \<times> set (owned_refs (the (h q))))"
    by (force simp: points_to_def)
  then show ?thesis
    using assms by (rule finite_subset [OF _ finite_UN_I]) auto
qed

lemma balanced_live:
  assumes "balanced h [] ext" "h x = Some ob"
  shows "ob_refcnt ob \<noteq> 0"
  using balanced_frees [OF assms] by (simp split: if_splits)

lemma count_list_pos: "0 < count_list xs x \<longleftrightarrow> x \<in> set xs"
  using count_list_0_iff [of xs x] by auto

lemma balanced_referenced:
  assumes "balanced h [] ext" "x \<noteq> 0"
  shows "x \<in> dom h \<longleftrightarrow> ext x \<noteq> 0 \<or> (\<exists>q \<in> dom h. (q, x) \<in> points_to h)"
proof -
  have fin: "finite (dom h)" using assms(1) by (simp add: balanced_def)
  have "refs_from (the (h q)) x \<noteq> 0 \<longleftrightarrow> (q, x) \<in> points_to h" if "q \<in> dom h" for q
    using that assms(2) balanced_live [OF assms(1), of q] by (auto simp: refs_from_def count_list_pos points_to_def)
  then have "heap_refs h x \<noteq> 0 \<longleftrightarrow> (\<exists>q \<in> dom h. (q, x) \<in> points_to h)"
    unfolding heap_refs_def sum_eq_0_iff [OF fin] by blast
  moreover have "x \<in> dom h \<longleftrightarrow> refcnt_at h x \<noteq> 0"
    using balanced_live [OF assms(1)] by (auto simp: refcnt_at_def split: option.splits)
  ultimately show ?thesis
    using balanced_counts [OF assms] by auto
qed

lemma points_to_same:
  assumes "same_owned h h'" "q \<in> dom h'"
  shows "(q, x) \<in> points_to h' \<longleftrightarrow> (q, x) \<in> points_to h"
proof -
  obtain ob' where "h' q = Some ob'" using assms(2) by blast
  moreover from this obtain ob where "h q = Some ob" "owned_refs ob' = owned_refs ob"
    using assms(1) unfolding same_owned_def by blast
  ultimately show ?thesis by (simp add: points_to_def)
qed


section \<open>Adding an ebuild\<close>

text \<open>The pointers that \<open>PyPackage_add_ebuild\<close> stores once it has found the place: it takes one
  reference of the ebuild, and the reference of the next older one moves from the package, or the
  next newer ebuild, to the new ebuild.\<close>

definition set_field :: "U64 \<Rightarrow> string \<Rightarrow> U64 \<Rightarrow> heap \<Rightarrow> heap option" where
  "set_field p f x h = map_option (\<lambda>ob. h(p \<mapsto> ob\<lparr>ob_field := (ob_field ob)(f := x)\<rparr>)) (h p)"

definition Py_INCREF_heap :: "U64 \<Rightarrow> heap \<Rightarrow> heap option" where
  "Py_INCREF_heap p h = map_option (\<lambda>ob. h(p \<mapsto> ob\<lparr>ob_refcnt := ob_refcnt ob + 1\<rparr>)) (h p)"

definition link_ebuild :: "U64 \<Rightarrow> U64 \<Rightarrow> U64 \<Rightarrow> U64 \<Rightarrow> heap \<Rightarrow> heap option" where
  "link_ebuild self ebuild last_eb current h =
     do { h \<leftarrow> Py_INCREF_heap ebuild h;
          h \<leftarrow> set_field ebuild ''older'' current h;
          if last_eb = 0 then set_field self ''ebuilds'' ebuild h else set_field last_eb ''older'' ebuild h }"

lemma owned_set_field:
  assumes "f \<in> set (tp_dealloc (ob_type ob))"
  shows "count_list (owned_refs (ob\<lparr>ob_field := (ob_field ob)(f := v)\<rparr>)) x + (if ob_field ob f = x then 1 else 0)
    = count_list (owned_refs ob) x + (if v = x then 1 else 0)"
proof -
  have "distinct (tp_dealloc (ob_type ob))"
    by (cases "ob_type ob") (simp_all add: PyPackage_dealloc_def PyEbuild_dealloc_def PyAtom_dealloc_def
        PyAtomVersion_dealloc_def PyAtomFlag_dealloc_def PyDependency_dealloc_def PyRequiredUse_dealloc_def PyUseFlag_dealloc_def)
  then have "count_list (map ((ob_field ob)(f := v)) ns) x + (if ob_field ob f = x then 1 else 0)
      = count_list (map (ob_field ob) ns) x + (if v = x then 1 else 0)" if "f \<in> set ns" "distinct ns" for ns
    using that
  proof (induction ns)
    case (Cons n ns)
    have "map ((ob_field ob)(f := v)) ns = map (ob_field ob) ns" if "f \<notin> set ns"
      using that by auto
    then show ?case
      using Cons by (cases "f = n") (simp_all del: fun_upd_apply add: fun_upd_same fun_upd_other split: if_splits)
  qed simp
  then show ?thesis
    using assms \<open>distinct (tp_dealloc (ob_type ob))\<close> by (simp add: owned_refs_def)
qed

text \<open>Setting a field moves one reference from the old target to the new one.\<close>

lemma set_field_refs:
  assumes "finite (dom h)" "h p = Some ob" "ob_refcnt ob \<noteq> 0" "f \<in> set (tp_dealloc (ob_type ob))"
    and "set_field p f v h = Some h'"
  shows "heap_refs h' x + (if ob_field ob f = x then 1 else 0) = heap_refs h x + (if v = x then 1 else 0)"
    and "refcnt_at h' x = refcnt_at h x" and "dom h' = dom h"
proof -
  have h': "h' = h(p \<mapsto> ob\<lparr>ob_field := (ob_field ob)(f := v)\<rparr>)"
    using assms(2,5) by (simp add: set_field_def)
  show "heap_refs h' x + (if ob_field ob f = x then 1 else 0) = heap_refs h x + (if v = x then 1 else 0)"
    using heap_refs_upd [OF assms(1,2), of "ob\<lparr>ob_field := (ob_field ob)(f := v)\<rparr>" x] owned_set_field [OF assms(4), of v x] assms(3)
    by (simp add: h' refs_from_def)
  show "refcnt_at h' x = refcnt_at h x" "dom h' = dom h"
    using assms(2) by (auto simp: h' refcnt_at_def split: option.splits)
qed

lemma balanced_nil:
  "balanced h [] ext \<longleftrightarrow> finite (dom h) \<and> 0 \<notin> dom h \<and> (\<forall>x. x \<noteq> 0 \<longrightarrow> refcnt_at h x = heap_refs h x + ext x)
    \<and> (\<forall>x \<in> dom h. refcnt_at h x \<noteq> 0)"
proof -
  have "(\<forall>x ob. h x = Some ob \<longrightarrow> (0::nat) = (if ob_refcnt ob = 0 then 1 else 0)) \<longleftrightarrow> (\<forall>x \<in> dom h. refcnt_at h x \<noteq> 0)"
    by (force simp: refcnt_at_def dom_def split: if_splits)
  then show ?thesis
    by (simp add: balanced_def)
qed

text \<open>C12. \<open>add_ebuild\<close> keeps the counts right: the reference it takes is the one of the new pointer,
  and the reference of the next older ebuild is handed over.\<close>

theorem link_ebuild_balanced:
  assumes bal: "balanced h [] ext"
    and self: "h self = Some pkg" "ob_type pkg = TY_Package"
    and new: "h ebuild = Some eb" "ob_type eb = TY_Ebuild" "ob_field eb ''older'' = 0" "ebuild \<noteq> last_eb"
    and place: "if last_eb = 0 then ob_field pkg ''ebuilds'' = current
      else \<exists>l. h last_eb = Some l \<and> ob_type l = TY_Ebuild \<and> ob_field l ''older'' = current"
  shows "\<exists>h'. link_ebuild self ebuild last_eb current h = Some h' \<and> balanced h' [] ext"
proof -
  have fin: "finite (dom h)" using bal by (simp add: balanced_nil)
  let ?h1 = "h(ebuild \<mapsto> eb\<lparr>ob_refcnt := ob_refcnt eb + 1\<rparr>)"
  let ?eb1 = "eb\<lparr>ob_refcnt := ob_refcnt eb + 1\<rparr>"
  have live: "ob_refcnt ob \<noteq> 0" if "h x = Some ob" for x ob
    using balanced_live [OF bal that] .
  have h1: "Py_INCREF_heap ebuild h = Some ?h1" and fin1: "finite (dom ?h1)"
    using new(1) fin by (simp_all add: Py_INCREF_heap_def)
  have refs1: "heap_refs ?h1 x = heap_refs h x" for x
    using heap_refs_upd [OF fin new(1), of ?eb1 x] live [OF new(1)] by (simp add: refs_from_def owned_refs_def)
  have older: "''older'' \<in> set (tp_dealloc TY_Ebuild)" and ebuilds: "''ebuilds'' \<in> set (tp_dealloc TY_Package)"
    by (simp_all add: PyEbuild_dealloc_def PyPackage_dealloc_def)
  obtain h2 where h2: "set_field ebuild ''older'' current ?h1 = Some h2"
    by (simp add: set_field_def)
  note move2 = set_field_refs [where ob = ?eb1, OF fin1 _ _ _ h2]
  have refs2: "heap_refs h2 x + (if 0 = x then 1 else 0) = heap_refs h x + (if current = x then 1 else 0)"
    and cnt2: "refcnt_at h2 x = refcnt_at ?h1 x" and dom2: "dom h2 = dom h" for x
    using move2(1) [where x = x] move2(2) [where x = x] move2(3) new older refs1 [of x]
    by (simp_all add: insert_absorb domI)
  have others: "h2 x = h x" if "x \<noteq> ebuild" for x
    using h2 that by (auto simp: set_field_def)
  define p f where "p = (if last_eb = 0 then self else last_eb)" and "f = (if last_eb = 0 then ''ebuilds'' else ''older'')"
  obtain ob where ob: "h2 p = Some ob" "h p = Some ob" "ob_field ob f = current" "f \<in> set (tp_dealloc (ob_type ob))"
  proof (cases "last_eb = 0")
    case True
    then have "self \<noteq> ebuild" using self new by auto
    then show ?thesis using that [of pkg] True self place ebuilds others [of self] by (simp add: p_def f_def)
  next
    case False
    then obtain l where "h last_eb = Some l" "ob_type l = TY_Ebuild" "ob_field l ''older'' = current"
      using place by auto
    then show ?thesis using that [of l] False older others [of last_eb] new(4) by (simp add: p_def f_def)
  qed
  obtain h3 where h3: "set_field p f ebuild h2 = Some h3"
    using ob(1) by (simp add: set_field_def)
  have fin2: "finite (dom h2)" using dom2 fin by simp
  note move3 = set_field_refs [OF fin2 ob(1) live [OF ob(2)] ob(4) h3]
  have "refcnt_at h3 x = heap_refs h3 x + ext x" if "x \<noteq> 0" for x
  proof -
    have "refcnt_at ?h1 x = refcnt_at h x + (if x = ebuild then 1 else 0)"
      using new(1) by (auto simp: refcnt_at_def)
    moreover have "refcnt_at h x = heap_refs h x + ext x"
      using bal that by (simp add: balanced_nil)
    ultimately show ?thesis
      using move3(1,2) [where x = x] refs2 [of x] cnt2 [of x] ob(3) that by (simp split: if_splits)
  qed
  moreover have "refcnt_at h3 x \<noteq> 0" if "x \<in> dom h3" for x
  proof -
    have "x \<in> dom h" using that move3(3) dom2 by simp
    then have "refcnt_at h x \<noteq> 0" using bal by (simp add: balanced_nil)
    then show ?thesis
      using move3(2) [where x = x] cnt2 [of x] new(1) by (auto simp: refcnt_at_def split: if_splits)
  qed
  moreover have "link_ebuild self ebuild last_eb current h = Some h3"
    using h1 h2 h3 by (cases "last_eb = 0") (simp_all add: link_ebuild_def p_def f_def)
  ultimately show ?thesis
    using bal move3(3) dom2 by (auto simp: balanced_nil)
qed

text \<open>A package at 1 with an ebuild at 2, and an empty package at 1 with a free ebuild at 2.\<close>

definition demo_object :: "py_type \<Rightarrow> U64 \<Rightarrow> py_object" where
  "demo_object ty ebuilds = \<lparr>ob_type = ty, ob_refcnt = 1, ob_field = (\<lambda>f. if f = ''ebuilds'' then ebuilds else 0), ob_items = []\<rparr>"

definition demo_heap :: "U64 \<Rightarrow> heap" where
  "demo_heap ebuilds = [1 \<mapsto> demo_object TY_Package ebuilds, 2 \<mapsto> demo_object TY_Ebuild 0]"

lemma demo_heap_refs:
  "x \<noteq> 0 \<Longrightarrow> heap_refs (demo_heap e) x = (if x = e then 1 else 0)"
proof -
  have "dom (demo_heap e) = {1, 2}"
    by (auto simp: demo_heap_def)
  then have "heap_refs (demo_heap e) x = refs_from (the (demo_heap e 1)) x + refs_from (the (demo_heap e 2)) x"
    by (simp add: heap_refs_def)
  then show "x \<noteq> 0 \<Longrightarrow> ?thesis"
    by (auto simp: demo_heap_def demo_object_def refs_from_def owned_refs_def PyPackage_dealloc_def PyEbuild_dealloc_def)
qed


lemma link_ebuild_balanced_witness:
  "\<exists>h'. link_ebuild 1 2 0 0 (demo_heap 0) = Some h' \<and> balanced h' [] (\<lambda>x. if x = 1 \<or> x = 2 then 1 else 0)"
proof -
  have "balanced (demo_heap 0) [] (\<lambda>x. if x = 1 \<or> x = 2 then 1 else 0)"
    by (auto simp: balanced_nil demo_heap_refs) (auto simp: demo_heap_def demo_object_def refcnt_at_def split: if_splits)
  then show ?thesis
    by (rule link_ebuild_balanced [where pkg = "demo_object TY_Package 0" and eb = "demo_object TY_Ebuild 0"])
      (simp_all add: demo_heap_def demo_object_def)
qed

end
