(* ===== verification/Members.thy ===== *)
theory Members
  imports Lifetime
begin

text \<open>
  The attributes of the Python types of autogentoo/cportage: the member tables of atom.c, package.c,
  ebuild.c, dependency.c and use.c, read by CPython from the fields of the structs in the headers.
  A table gives for an attribute the kind of value CPython shall find and the field it is read
  from; reading a field of another kind is undefined behaviour. The lemmas show that every
  attribute but one is read with the kind its field has.
\<close>

text \<open>The kinds of fields: a C string, a pointer to a Python object, an unsigned integer of 64 bits, an
  enum or int, and a byte; and the values in them, None and 0 for NULL.\<close>

datatype c_type = C_String | C_Object | C_U64 | C_Int | C_U8

datatype c_value = V_String "string option" | V_Object U64 | V_U64 U64 | V_Int int | V_U8 U8

fun has_c_type :: "c_value \<Rightarrow> c_type \<Rightarrow> bool" where
  "has_c_type (V_String s) t = (t = C_String)"
| "has_c_type (V_Object p) t = (t = C_Object)"
| "has_c_type (V_U64 u) t = (t = C_U64)"
| "has_c_type (V_Int i) t = (t = C_Int)"
| "has_c_type (V_U8 b) t = (t = C_U8)"

section \<open>The structs\<close>

definition Package_fields :: "(string \<times> c_type) list" where
  "Package_fields = [(''package_id'', C_U64), (''category'', C_String), (''name'', C_String), (''key'', C_String),
     (''ebuilds'', C_Object)]"

definition Ebuild_fields :: "(string \<times> c_type) list" where
  "Ebuild_fields = [(''name'', C_String), (''category'', C_String), (''package_id'', C_U64), (''slot'', C_String),
     (''sub_slot'', C_String), (''key'', C_String), (''package_key'', C_String), (''ebuild'', C_String),
     (''path'', C_String), (''cache_file'', C_String), (''depend'', C_Object), (''bdepend'', C_Object),
     (''rdepend'', C_Object), (''pdepend'', C_Object), (''iuse'', C_Object), (''required_use'', C_Object),
     (''src_uri'', C_Object), (''version'', C_Object), (''metadata_init'', C_U8), (''package'', C_Object),
     (''older'', C_Object)]"

definition AtomVersion_fields :: "(string \<times> c_type) list" where
  "AtomVersion_fields = [(''full_version'', C_String), (''v'', C_String), (''prefix'', C_Int), (''revision'', C_Int),
     (''next'', C_Object)]"

definition Atom_fields :: "(string \<times> c_type) list" where
  "Atom_fields = [(''id'', C_U64), (''category'', C_String), (''name'', C_String), (''key'', C_String),
     (''repository'', C_String), (''slot'', C_String), (''sub_slot'', C_String), (''slot_opts'', C_Int),
     (''range'', C_Int), (''blocks'', C_Int), (''version'', C_Object), (''useflags'', C_Object)]"

definition AtomFlag_fields :: "(string \<times> c_type) list" where
  "AtomFlag_fields = [(''name'', C_String), (''option'', C_Int), (''def'', C_Int), (''next'', C_Object)]"

definition Dependency_fields :: "(string \<times> c_type) list" where
  "Dependency_fields = [(''use_operator'', C_Int), (''use_condition'', C_U64), (''atom'', C_Object),
     (''children'', C_Object), (''next'', C_Object)]"

definition RequiredUse_fields :: "(string \<times> c_type) list" where
  "RequiredUse_fields = [(''name'', C_String), (''global_flag'', C_U64), (''option'', C_Int), (''depend'', C_Object),
     (''next'', C_Object)]"

definition UseFlag_fields :: "(string \<times> c_type) list" where
  "UseFlag_fields = [(''name'', C_String), (''state'', C_U8)]"

fun struct_fields :: "py_type \<Rightarrow> (string \<times> c_type) list" where
  "struct_fields TY_Package = Package_fields"
| "struct_fields TY_Ebuild = Ebuild_fields"
| "struct_fields TY_AtomVersion = AtomVersion_fields"
| "struct_fields TY_Atom = Atom_fields"
| "struct_fields TY_AtomFlag = AtomFlag_fields"
| "struct_fields TY_Dependency = Dependency_fields"
| "struct_fields TY_RequiredUse = RequiredUse_fields"
| "struct_fields TY_UseFlag = UseFlag_fields"
| "struct_fields TY_Dict = []"

section \<open>The member tables\<close>

datatype member_type = T_STRING | T_OBJECT | T_ULONGLONG | T_INT | T_BOOL

text \<open>Name of the attribute, kind, and field.\<close>

type_synonym PyMemberDef = "string \<times> member_type \<times> string"

definition PyPackage_members :: "PyMemberDef list" where
  "PyPackage_members = [(''package_id'', T_ULONGLONG, ''package_id''), (''category'', T_STRING, ''category''),
     (''name'', T_STRING, ''name''), (''key'', T_OBJECT, ''key''), (''ebuilds'', T_OBJECT, ''ebuilds'')]"

definition PyEbuild_members :: "PyMemberDef list" where
  "PyEbuild_members =
    [(''name'', T_STRING, ''name''), (''category'', T_STRING, ''category''), (''slot'', T_STRING, ''slot''),
     (''sub_slot'', T_STRING, ''sub_slot''), (''package_key'', T_STRING, ''package_key''), (''key'', T_STRING, ''key''),
     (''ebuild'', T_STRING, ''ebuild''), (''path'', T_STRING, ''path''), (''cache_file'', T_STRING, ''cache_file''),
     (''depend'', T_OBJECT, ''depend''), (''bdepend'', T_OBJECT, ''bdepend''), (''rdepend'', T_OBJECT, ''rdepend''),
     (''pdepend'', T_OBJECT, ''pdepend''), (''required_use'', T_OBJECT, ''required_use''),
     (''src_uri'', T_OBJECT, ''src_uri''), (''version'', T_OBJECT, ''version''), (''iuse'', T_OBJECT, ''iuse''),
     (''metadata_init'', T_BOOL, ''metadata_init''), (''package'', T_OBJECT, ''package''),
     (''older'', T_OBJECT, ''older'')]"

definition PyAtomFlag_members :: "PyMemberDef list" where
  "PyAtomFlag_members = [(''name'', T_STRING, ''name''), (''option'', T_INT, ''option''), (''default'', T_INT, ''option''),
     (''next'', T_OBJECT, ''next'')]"

definition PyAtomVersion_members :: "PyMemberDef list" where
  "PyAtomVersion_members = [(''raw'', T_STRING, ''full_version'')]"

definition PyAtom_members :: "PyMemberDef list" where
  "PyAtom_members =
    [(''id'', T_ULONGLONG, ''id''), (''category'', T_STRING, ''category''), (''name'', T_STRING, ''name''),
     (''key'', T_STRING, ''key''), (''repository'', T_STRING, ''repository''), (''slot'', T_STRING, ''slot''),
     (''sub_slot'', T_STRING, ''sub_slot''), (''slot_opts'', T_INT, ''slot_opts''), (''range'', T_INT, ''range''),
     (''blocks'', T_INT, ''blocks''), (''version'', T_OBJECT, ''version''), (''useflags'', T_OBJECT, ''useflags'')]"

definition PyDependency_members :: "PyMemberDef list" where
  "PyDependency_members = [(''use_operator'', T_INT, ''use_operator''), (''use_condition'', T_ULONGLONG, ''use_condition''),
     (''atom'', T_OBJECT, ''atom''), (''children'', T_OBJECT, ''children''), (''next'', T_OBJECT, ''next'')]"

definition PyUseFlag_members :: "PyMemberDef list" where
  "PyUseFlag_members = [(''name'', T_STRING, ''name''), (''state'', T_BOOL, ''state'')]"

definition PyRequiredUse_members :: "PyMemberDef list" where
  "PyRequiredUse_members = [(''name'', T_STRING, ''name''), (''depend'', T_OBJECT, ''depend''), (''next'', T_OBJECT, ''next''),
     (''id'', T_ULONGLONG, ''global_flag''), (''operator'', T_INT, ''option'')]"

fun tp_members :: "py_type \<Rightarrow> PyMemberDef list" where
  "tp_members TY_Package = PyPackage_members"
| "tp_members TY_Ebuild = PyEbuild_members"
| "tp_members TY_AtomVersion = PyAtomVersion_members"
| "tp_members TY_Atom = PyAtom_members"
| "tp_members TY_AtomFlag = PyAtomFlag_members"
| "tp_members TY_Dependency = PyDependency_members"
| "tp_members TY_RequiredUse = PyRequiredUse_members"
| "tp_members TY_UseFlag = PyUseFlag_members"
| "tp_members TY_Dict = []"

lemmas member_tables = PyPackage_members_def PyEbuild_members_def PyAtomFlag_members_def PyAtomVersion_members_def
  PyAtom_members_def PyDependency_members_def PyUseFlag_members_def PyRequiredUse_members_def

lemmas field_tables = Package_fields_def Ebuild_fields_def AtomVersion_fields_def Atom_fields_def AtomFlag_fields_def
  Dependency_fields_def RequiredUse_fields_def UseFlag_fields_def

section \<open>Reading an attribute\<close>

text \<open>What CPython does with a field of the kind the table says; NULL reads as Python's None.\<close>

datatype attribute = A_None | A_Str string | A_Object U64 | A_Int int | A_Bool bool

fun PyMember_GetOne :: "member_type \<Rightarrow> c_value \<Rightarrow> attribute option" where
  "PyMember_GetOne T_STRING (V_String s) = Some (case s of None \<Rightarrow> A_None | Some s \<Rightarrow> A_Str s)"
| "PyMember_GetOne T_OBJECT (V_Object p) = Some (if p = 0 then A_None else A_Object p)"
| "PyMember_GetOne T_OBJECT (V_String None) = Some A_None"
| "PyMember_GetOne T_ULONGLONG (V_U64 u) = Some (A_Int (uint u))"
| "PyMember_GetOne T_INT (V_Int i) = Some (A_Int i)"
| "PyMember_GetOne T_BOOL (V_U8 b) = Some (A_Bool (b \<noteq> 0))"
| "PyMember_GetOne _ _ = None"

definition get_member :: "py_type \<Rightarrow> (string \<Rightarrow> c_value) \<Rightarrow> string \<Rightarrow> attribute option" where
  "get_member ty vals name = Option.bind (map_of (tp_members ty) name) (\<lambda>(t, f). PyMember_GetOne t (vals f))"

definition struct_typed :: "py_type \<Rightarrow> (string \<Rightarrow> c_value) \<Rightarrow> bool" where
  "struct_typed ty vals \<longleftrightarrow> list_all (\<lambda>(f, t). has_c_type (vals f) t) (struct_fields ty)"

text \<open>The kind of field an attribute of a kind needs.\<close>

fun member_field :: "member_type \<Rightarrow> c_type" where
  "member_field T_STRING = C_String"
| "member_field T_OBJECT = C_Object"
| "member_field T_ULONGLONG = C_U64"
| "member_field T_INT = C_Int"
| "member_field T_BOOL = C_U8"

lemma get_member_typed:
  assumes "struct_typed ty vals" "map_of (tp_members ty) name = Some (t, f)"
    and "map_of (struct_fields ty) f = Some (member_field t)"
  shows "get_member ty vals name \<noteq> None"
proof -
  have "has_c_type (vals f) (member_field t)"
    using assms(1) map_of_SomeD [OF assms(3)] by (auto simp: struct_typed_def list_all_iff)
  then show ?thesis
    using assms(2) by (cases t; cases "vals f") (auto simp: get_member_def)
qed

lemma members_agree_all:
  "list_all (\<lambda>(n, t, f). map_of (struct_fields ty) f = Some (member_field t) \<or> ty = TY_Package \<and> n = ''key'') (tp_members ty)"
  by (cases ty) (simp_all add: member_tables field_tables)

text \<open>C35. Every attribute of every type is read from a field of the kind its table entry names, with one
  exception: the key of a package is a C string that is read as a pointer to an object.\<close>

theorem attributes_typed:
  assumes "struct_typed ty vals" "name \<in> fst ` set (tp_members ty)"
  shows "get_member ty vals name = None \<longleftrightarrow> ty = TY_Package \<and> name = ''key'' \<and> vals ''key'' \<noteq> V_String None"
proof -
  obtain t f where tf: "map_of (tp_members ty) name = Some (t, f)"
    using assms(2) by (metis map_of_eq_None_iff not_None_eq surj_pair)
  then have entry: "(name, t, f) \<in> set (tp_members ty)"
    by (rule map_of_SomeD)
  show ?thesis
  proof (cases "ty = TY_Package \<and> name = ''key''")
    case True
    then obtain s where "vals ''key'' = V_String s"
      using assms(1) by (cases "vals ''key''") (auto simp: struct_typed_def Package_fields_def)
    then show ?thesis
      using True by (cases s) (simp_all add: get_member_def PyPackage_members_def)
  next
    case False
    then have "map_of (struct_fields ty) f = Some (member_field t)"
      using members_agree_all [of ty] entry by (auto simp: list_all_iff)
    then show ?thesis
      using get_member_typed [OF assms(1) tf] False by blast
  qed
qed

lemma attributes_typed_witness:
  "get_member TY_Package (\<lambda>f. if f = ''package_id'' then V_U64 1 else if f = ''ebuilds'' then V_Object 0
     else V_String (Some ''dev-lang/python'')) ''key'' = None"
  by (subst attributes_typed) (simp_all add: struct_typed_def Package_fields_def PyPackage_members_def)

text \<open>The attribute \<open>default\<close> of a flag reads the field of \<open>option\<close>.\<close>

lemma atomflag_default_reads_option: "get_member TY_AtomFlag vals ''default'' = get_member TY_AtomFlag vals ''option''"
  by (simp add: get_member_def PyAtomFlag_members_def)

end
