(* ===== verification/Module.thy ===== *)
theory Module
  imports Portage Members Message
begin

text \<open>
  The two extension modules as Python sees them: \<open>PyInit_autogentoo_cportage\<close> of cportage/module.c
  and \<open>PyInit_autogentoo_network\<close> of network/module.c with the types and constants they register,
  the slots and method tables of the types, and the functions that install the global catalogue.
  The stub file autogentoo_cportage.pyi says what the module offers; it is compared with the
  tables. The calls of CPython that may fail are parameters.
\<close>

section \<open>Registering types\<close>

text \<open>References the module code owns of a type object, beyond those it starts with, and the entries
  of the module's dictionary, which owns what \<open>PyModule_AddObject\<close> put there.\<close>

record module_state =
  ty_refs :: "string \<Rightarrow> int"
  mod_dict :: "string list"

fun incref_types :: "string list \<Rightarrow> module_state \<Rightarrow> module_state" where
  "incref_types [] s = s"
| "incref_types (t # ts) s = incref_types ts (s\<lparr>ty_refs := (ty_refs s)(t := ty_refs s t + 1)\<rparr>)"

fun decref_types :: "string list \<Rightarrow> module_state \<Rightarrow> module_state" where
  "decref_types [] s = s"
| "decref_types (t # ts) s = decref_types ts (s\<lparr>ty_refs := (ty_refs s)(t := ty_refs s t - 1)\<rparr>)"

text \<open>The chain of calls stops at the first that fails; a call that succeeds takes over the
  reference.\<close>

fun add_objects :: "(string \<Rightarrow> bool) \<Rightarrow> string list \<Rightarrow> module_state \<Rightarrow> module_state \<times> bool" where
  "add_objects add [] s = (s, True)"
| "add_objects add (t # ts) s =
     (if add t then add_objects add ts (s\<lparr>mod_dict := mod_dict s @ [t]\<rparr>) else (s, False))"

text \<open>Giving back the module frees it, and its dictionary gives back what it owns.\<close>

definition module_decref :: "module_state \<Rightarrow> module_state" where
  "module_decref s = (decref_types (mod_dict s) s)\<lparr>mod_dict := []\<rparr>"

text \<open>\<open>create\<close>, \<open>ready\<close> and \<open>add\<close> say whether the calls of CPython succeed. None is a NULL module.\<close>

definition register_types ::
    "bool \<Rightarrow> (string \<Rightarrow> bool) \<Rightarrow> (string \<Rightarrow> bool) \<Rightarrow> string list \<Rightarrow> string list \<Rightarrow> string list \<Rightarrow> module_state
      \<Rightarrow> module_state \<times> bool" where
  "register_types create ready add types counted added s =
     (if \<not> create then (s, False)
      else if \<not> list_all ready types then (module_decref s, False)
      else (let (s, ok) = add_objects add added (incref_types counted s)
            in if ok then (s, True) else (module_decref (decref_types counted s), False)))"

definition cportage_types :: "string list" where
  "cportage_types = [''Dependency'', ''Atom'', ''AtomVersion'', ''AtomFlag'', ''Portage'', ''UseFlag'', ''RequiredUse'',
     ''Ebuild'', ''Package'']"

definition cportage_added :: "string list" where
  "cportage_added = [''Dependency'', ''AtomVersion'', ''AtomFlag'', ''Atom'', ''Portage'', ''UseFlag'', ''RequiredUse'',
     ''Ebuild'', ''Package'']"

definition network_types :: "string list" where
  "network_types = [''TCPServer'', ''Message'']"

definition PyInit_autogentoo_cportage ::
    "bool \<Rightarrow> (string \<Rightarrow> bool) \<Rightarrow> (string \<Rightarrow> bool) \<Rightarrow> module_state \<Rightarrow> module_state \<times> bool" where
  "PyInit_autogentoo_cportage create ready add s =
     register_types create ready add cportage_types cportage_types cportage_added s"

text \<open>The type of messages is made first.\<close>

definition PyInit_autogentoo_network ::
    "bool \<Rightarrow> bool \<Rightarrow> (string \<Rightarrow> bool) \<Rightarrow> (string \<Rightarrow> bool) \<Rightarrow> module_state \<Rightarrow> module_state \<times> bool" where
  "PyInit_autogentoo_network create init_message ready add s =
     (if create \<and> \<not> init_message then (module_decref s, False)
      else register_types create ready add network_types network_types network_types s)"

definition empty_module :: module_state where
  "empty_module = \<lparr>ty_refs = (\<lambda>_. 0), mod_dict = []\<rparr>"

lemma incref_types_refs: "ty_refs (incref_types ts s) t = ty_refs s t + int (count_list ts t)"
  "mod_dict (incref_types ts s) = mod_dict s"
  by (induction ts arbitrary: s) simp_all

lemma decref_types_refs: "ty_refs (decref_types ts s) t = ty_refs s t - int (count_list ts t)"
  "mod_dict (decref_types ts s) = mod_dict s"
  by (induction ts arbitrary: s) simp_all

lemma add_objects_dict:
  "add_objects add ts s = (s\<lparr>mod_dict := mod_dict s @ takeWhile add ts\<rparr>, list_all add ts)"
  by (induction ts arbitrary: s) simp_all

lemma register_types_refs:
  assumes "list_all ready types"
  shows "register_types True ready add types counted added empty_module =
    (if list_all add added then ((incref_types counted empty_module)\<lparr>mod_dict := added\<rparr>, True)
     else (module_decref (decref_types counted ((incref_types counted empty_module)\<lparr>mod_dict := takeWhile add added\<rparr>)), False))"
proof -
  have "takeWhile add added = added" if "list_all add added"
    using that by (simp add: list_all_iff)
  then show ?thesis
    using assms by (simp add: register_types_def add_objects_dict incref_types_refs empty_module_def)
qed

lemma distinct_count_list: "distinct xs \<Longrightarrow> count_list xs x = (if x \<in> set xs then 1 else 0)"
  by (induction xs) auto

text \<open>C37. Importing the module hands one reference of every type to the dictionary of the module. When
  adding a type fails, the types added before it have lost a reference more than was taken: the
  error path gives back all the references and the dictionary gives back its own again.\<close>

theorem cportage_import_references:
  assumes "list_all ready cportage_types"
  shows "\<exists>s. PyInit_autogentoo_cportage True ready add empty_module
      = (s, list_all add cportage_added)
    \<and> (\<forall>t. ty_refs s t = (if list_all add cportage_added then if t \<in> set (mod_dict s) then 1 else 0
         else if t \<in> set (takeWhile add cportage_added) then - 1 else 0))
    \<and> mod_dict s = (if list_all add cportage_added then cportage_added else [])"
proof -
  have d: "distinct cportage_added" "distinct cportage_types" "set cportage_added = set cportage_types"
    by (auto simp: cportage_added_def cportage_types_def)
  note count = distinct_count_list [OF d(2)] distinct_count_list [OF distinct_takeWhile [OF d(1)]]
  show ?thesis
    unfolding PyInit_autogentoo_cportage_def register_types_refs [OF assms]
    by (simp add: module_decref_def decref_types_refs incref_types_refs count d(3) empty_module_def)
qed

lemma cportage_import_references_witness:
  "\<exists>s. PyInit_autogentoo_cportage True (\<lambda>_. True) (\<lambda>t. t \<noteq> ''AtomFlag'') empty_module
      = (s, False) \<and> ty_refs s ''Dependency'' = - 1 \<and> ty_refs s ''AtomFlag'' = 0"
proof -
  have "list_all (\<lambda>_. True) cportage_types" "\<not> list_all (\<lambda>t. t \<noteq> ''AtomFlag'') cportage_added"
      "takeWhile (\<lambda>t. t \<noteq> ''AtomFlag'') cportage_added = [''Dependency'', ''AtomVersion'']"
    by (simp_all add: list_all_iff cportage_added_def)
  then show ?thesis
    using cportage_import_references [of "\<lambda>_. True" "\<lambda>t. t \<noteq> ''AtomFlag''"] by fastforce
qed

lemma network_import_references:
  "PyInit_autogentoo_network True True (\<lambda>_. True) (\<lambda>t. t \<noteq> ''Message'') empty_module
    = (empty_module\<lparr>ty_refs := (\<lambda>_. 0)(''TCPServer'' := - 1)\<rparr>, False)"
  by (simp add: PyInit_autogentoo_network_def register_types_def network_types_def module_decref_def empty_module_def
      fun_eq_iff)

section \<open>The global catalogue\<close>

text \<open>The pointer \<open>global_portage\<close> and the calls that count references; \<open>held\<close> are the references
  \<open>get_portage\<close> has handed out. An argument is an object and whether its type is exactly Portage.\<close>

record global_state =
  global_ptr :: U64
  global_world :: world
  held :: "U64 list"

definition PyCportage_Init :: "global_state \<Rightarrow> (U64 \<times> bool) list \<Rightarrow> global_state \<times> py_result" where
  "PyCportage_Init g args =
     (case args of
        [(p, is_portage)] \<Rightarrow>
          if \<not> is_portage then (g, Py_Raise TypeError)
          else (let w = (if global_ptr g = 0 then global_world g else py_xdecref (global_ptr g) (global_world g))
                in (g\<lparr>global_ptr := p, global_world := py_xincref p w\<rparr>, Py_None))
      | _ \<Rightarrow> (g, Py_Raise TypeError))"

definition PyCportage_get_portage :: "global_state \<Rightarrow> U64 list \<Rightarrow> global_state \<times> py_result" where
  "PyCportage_get_portage g args =
     (if args \<noteq> [] then (g, Py_Raise TypeError)
      else if global_ptr g \<noteq> 0
      then (g\<lparr>global_world := py_xincref (global_ptr g) (global_world g), held := global_ptr g # held g\<rparr>, Py_Obj (global_ptr g))
      else (g, Py_Raise RuntimeError))"

definition PyCportage_free :: "global_state \<Rightarrow> global_state" where
  "PyCportage_free g =
     g\<lparr>global_world := (if global_ptr g = 0 then global_world g else py_xdecref (global_ptr g) (global_world g)),
       global_ptr := 0\<rparr>"

datatype module_call = Call_init "(U64 \<times> bool) list" | Call_get "U64 list" | Call_free

fun module_step :: "global_state \<Rightarrow> module_call \<Rightarrow> global_state" where
  "module_step g (Call_init args) = fst (PyCportage_Init g args)"
| "module_step g (Call_get args) = fst (PyCportage_get_portage g args)"
| "module_step g Call_free = PyCportage_free g"

definition module_start :: global_state where
  "module_start = \<lparr>global_ptr = 0, global_world = no_world, held = []\<rparr>"

definition global_inv :: "global_state \<Rightarrow> bool" where
  "global_inv g \<longleftrightarrow> (\<forall>x. x \<noteq> 0 \<longrightarrow>
     py_balance (global_world g) x = (if global_ptr g = x then 1 else 0) + int (count_list (held g) x))"

lemma module_step_inv: "global_inv g \<Longrightarrow> global_inv (module_step g c)"
  by (cases c) (auto simp: global_inv_def PyCportage_Init_def PyCportage_get_portage_def PyCportage_free_def Let_def
      split: list.splits)

text \<open>Whatever \<open>init\<close> and \<open>get_portage\<close> are called with, and until and after the module is freed, the
  references taken on an object are those of the results of \<open>get_portage\<close> and, for the installed
  catalogue, one more; a failing call takes none.\<close>

theorem global_portage_references:
  assumes "x \<noteq> 0"
  shows "let g = foldl module_step module_start calls
    in py_balance (global_world g) x = (if global_ptr g = x then 1 else 0) + int (count_list (held g) x)"
proof -
  have "global_inv g \<Longrightarrow> global_inv (foldl module_step g calls)" for g
    by (induction calls arbitrary: g) (simp_all add: module_step_inv)
  moreover have "global_inv module_start"
    by (simp add: global_inv_def module_start_def py_balance_def no_world_def)
  ultimately show ?thesis
    using assms by (simp add: global_inv_def Let_def)
qed

lemma global_portage_references_witness:
  "py_balance (global_world (foldl module_step module_start [Call_init [(64, True)], Call_get [], Call_init [(128, True)], Call_free])) 64 = 1"
  using global_portage_references [of 64 "[Call_init [(64, True)], Call_get [], Call_init [(128, True)], Call_free]"]
  by (simp add: PyCportage_Init_def PyCportage_get_portage_def PyCportage_free_def module_start_def Let_def)

section \<open>The life of a catalogue\<close>

text \<open>The tables are NULL until \<open>Portage()\<close> has run \<open>PyPortage_init\<close>; deallocation frees them.\<close>

definition PyPortage_new :: "LUT option \<times> LUT option" where
  "PyPortage_new = (None, None)"

definition free_table :: "LUT option \<Rightarrow> world \<Rightarrow> world option" where
  "free_table t w = (case t of None \<Rightarrow> Some w | Some l \<Rightarrow> lut_free l w)"

definition PyPortage_dealloc :: "LUT option \<times> LUT option \<Rightarrow> world \<Rightarrow> world option" where
  "PyPortage_dealloc self w = do { w \<leftarrow> free_table (fst self) w; free_table (snd self) w }"

definition tables_of :: "Portage \<Rightarrow> LUT option \<times> LUT option" where
  "tables_of p = (Some (global_flags p), Some (packages p))"

text \<open>Freeing a catalogue gives back the references of its two tables, one for every package and
  every flag they hold, and no others; an object that was never initialised has none.\<close>

lemma portage_dealloc_references:
  assumes "lut_python (global_flags p)" "lut_python (packages p)"
    and "unat (lut_size (global_flags p)) \<le> 2 ^ 32" "unat (lut_size (packages p)) \<le> 2 ^ 32"
  shows "\<exists>w'. PyPortage_dealloc (tables_of p) w = Some w'
    \<and> (\<forall>x. py_balance w' x = py_balance w x - int (lut_held (global_flags p) x) - int (lut_held (packages p) x))"
    and "PyPortage_dealloc PyPortage_new w = Some w"
proof -
  obtain w1 where w1: "lut_free (global_flags p) w = Some w1"
      "\<forall>x. py_balance w1 x = py_balance w x - int (lut_held (global_flags p) x)"
    using lut_free_balance [OF assms(1,3)] by blast
  obtain w2 where "lut_free (packages p) w1 = Some w2"
      "\<forall>x. py_balance w2 x = py_balance w1 x - int (lut_held (packages p) x)"
    using lut_free_balance [OF assms(2,4)] by blast
  then show "\<exists>w'. PyPortage_dealloc (tables_of p) w = Some w'
      \<and> (\<forall>x. py_balance w' x = py_balance w x - int (lut_held (global_flags p) x) - int (lut_held (packages p) x))"
    using w1 by (simp add: PyPortage_dealloc_def free_table_def tables_of_def)
qed (simp add: PyPortage_dealloc_def free_table_def PyPortage_new_def)

section \<open>Constants\<close>

text \<open>The numbers of the enums of cportage/portage.h.\<close>

fun use_operator_val :: "use_operator \<Rightarrow> int" where
  "use_operator_val USE_OP_DISABLE = 0"
| "use_operator_val USE_OP_ENABLE = 1"
| "use_operator_val USE_OP_LEAST_ONE = 2"
| "use_operator_val USE_OP_EXACT_ONE = 3"
| "use_operator_val USE_OP_MOST_ONE = 4"

fun use_state_val :: "use_state \<Rightarrow> int" where
  "use_state_val USE_STATE_DISABLED = 0"
| "use_state_val USE_STATE_ENABLED = 1"

fun atom_use_val :: "atom_use \<Rightarrow> int" where
  "atom_use_val ATOM_USE_DISABLE = 0"
| "atom_use_val ATOM_USE_ENABLE = 1"
| "atom_use_val ATOM_USE_ENABLE_IF_ON = 2"
| "atom_use_val ATOM_USE_DISABLE_IF_OFF = 3"
| "atom_use_val ATOM_USE_EQUAL = 4"
| "atom_use_val ATOM_USE_OPPOSITE = 5"

fun use_default_val :: "atom_use_default \<Rightarrow> int" where
  "use_default_val ATOM_DEFAULT_NONE = 0"
| "use_default_val ATOM_DEFAULT_ON = 1"
| "use_default_val ATOM_DEFAULT_OFF = 2"

fun arch_val :: "arch \<Rightarrow> int" where
  "arch_val ARCH_AMD64 = 0"
| "arch_val ARCH_X86 = 1"
| "arch_val ARCH_ARM = 2"
| "arch_val ARCH_ARM64 = 3"
| "arch_val ARCH_HPPA = 4"
| "arch_val ARCH_IA64 = 5"
| "arch_val ARCH_PPC = 6"
| "arch_val ARCH_PPC64 = 7"
| "arch_val ARCH_SPARC = 8"

definition ARCH_END :: int where "ARCH_END = 9"

fun keyword_val :: "keyword \<Rightarrow> int" where
  "keyword_val KEYWORD_BROKEN = 0"
| "keyword_val KEYWORD_NONE = 1"
| "keyword_val KEYWORD_UNSTABLE = 2"
| "keyword_val KEYWORD_STABLE = 3"

definition module_constants :: "(string \<times> int) list" where
  "module_constants =
    [(''USE_OP_DISABLE'', use_operator_val USE_OP_DISABLE), (''USE_OP_ENABLE'', use_operator_val USE_OP_ENABLE),
     (''USE_OP_LEAST_ONE'', use_operator_val USE_OP_LEAST_ONE),
     (''USE_OP_EXACT_ONE'', use_operator_val USE_OP_EXACT_ONE),
     (''USE_OP_MOST_ONE'', use_operator_val USE_OP_MOST_ONE),
     (''USE_STATE_DISABLED'', use_state_val USE_STATE_DISABLED),
     (''USE_STATE_ENABLED'', use_state_val USE_STATE_ENABLED),
     (''ATOM_USE_DISABLE'', atom_use_val ATOM_USE_DISABLE), (''ATOM_USE_ENABLE'', atom_use_val ATOM_USE_ENABLE),
     (''ATOM_USE_ENABLE_IF_ON'', atom_use_val ATOM_USE_ENABLE_IF_ON),
     (''ATOM_USE_DISABLE_IF_OFF'', atom_use_val ATOM_USE_DISABLE_IF_OFF),
     (''ATOM_USE_EQUAL'', atom_use_val ATOM_USE_EQUAL), (''ATOM_USE_OPPOSITE'', atom_use_val ATOM_USE_OPPOSITE),
     (''ATOM_DEFAULT_NONE'', use_default_val ATOM_DEFAULT_NONE),
     (''ATOM_DEFAULT_ON'', use_default_val ATOM_DEFAULT_ON),
     (''ATOM_DEFAULT_OFF'', use_default_val ATOM_DEFAULT_OFF), (''ATOM_VERSION_NONE'', uint ATOM_VERSION_NONE),
     (''ATOM_VERSION_E'', uint ATOM_VERSION_E), (''ATOM_VERSION_L'', uint ATOM_VERSION_L),
     (''ATOM_VERSION_G'', uint ATOM_VERSION_G), (''ATOM_VERSION_REV'', uint ATOM_VERSION_REV),
     (''ATOM_VERSION_ALL'', uint ATOM_VERSION_ALL), (''ATOM_VERSION_GE'', uint ATOM_VERSION_GE),
     (''ATOM_VERSION_LE'', uint ATOM_VERSION_LE), (''ATOM_BLOCK_NONE'', uint (block_val ATOM_BLOCK_NONE)),
     (''ATOM_BLOCK_SOFT'', uint (block_val ATOM_BLOCK_SOFT)),
     (''ATOM_BLOCK_HARD'', uint (block_val ATOM_BLOCK_HARD)),
     (''ATOM_SLOT_IGNORE'', uint (slot_val ATOM_SLOT_IGNORE)),
     (''ATOM_SLOT_REBUILD'', uint (slot_val ATOM_SLOT_REBUILD)),
     (''ATOM_PREFIX_ALPHA'', prefix_val ATOM_PREFIX_ALPHA), (''ATOM_PREFIX_BETA'', prefix_val ATOM_PREFIX_BETA),
     (''ATOM_PREFIX_PRE'', prefix_val ATOM_PREFIX_PRE), (''ATOM_PREFIX_RC'', prefix_val ATOM_PREFIX_RC),
     (''ATOM_PREFIX_NONE'', prefix_val ATOM_PREFIX_NONE), (''ATOM_PREFIX_P'', prefix_val ATOM_PREFIX_P),
     (''ARCH_AMD64'', arch_val ARCH_AMD64), (''ARCH_X86'', arch_val ARCH_X86), (''ARCH_ARM'', arch_val ARCH_ARM),
     (''ARCH_ARM64'', arch_val ARCH_ARM64), (''ARCH_HPPA'', arch_val ARCH_HPPA),
     (''ARCH_IA64'', arch_val ARCH_IA64), (''ARCH_PPC'', arch_val ARCH_PPC), (''ARCH_PPC64'', arch_val ARCH_PPC64),
     (''ARCH_SPARC'', arch_val ARCH_SPARC), (''ARCH_END'', ARCH_END),
     (''KEYWORD_BROKEN'', keyword_val KEYWORD_BROKEN), (''KEYWORD_NONE'', keyword_val KEYWORD_NONE),
     (''KEYWORD_UNSTABLE'', keyword_val KEYWORD_UNSTABLE), (''KEYWORD_STABLE'', keyword_val KEYWORD_STABLE)]"

text \<open>The constants whose name starts with a prefix.\<close>

definition constants_of :: "string \<Rightarrow> int list" where
  "constants_of pre = map snd (filter (\<lambda>(name, v). take (length pre) name = pre) module_constants)"

section \<open>Types and their operations\<close>

record type_object =
  tp_name :: string
  tp_slots :: "string list"
  tp_methods :: "string list"

text \<open>The method tables.\<close>

definition PyAtom_methods :: "string list" where
  "PyAtom_methods = [''matches'']"

definition PyEbuild_methods :: "string list" where
  "PyEbuild_methods = [''initialize_metadata'']"

definition PyPackage_methods :: "string list" where
  "PyPackage_methods = [''add_ebuild'', ''match_atom'']"

definition PyPortage_methods :: "string list" where
  "PyPortage_methods = [''get_package'', ''add_package'', ''match_atom'', ''get_use_flag'', ''initialize_repository'']"

definition TCPServer_methods :: "string list" where
  "TCPServer_methods = [''set_request_callback'', ''start'', ''stop'']"

definition PyAtomFlagType :: type_object where
  "PyAtomFlagType = \<lparr>tp_name = ''autogentoo_cportage.AtomFlag'',
     tp_slots = [''tp_new'', ''tp_init'',
     ''tp_dealloc'', ''tp_repr'', ''tp_members'', ''tp_iter'', ''tp_iternext''],
     tp_methods = []\<rparr>"

definition PyAtomVersionType :: type_object where
  "PyAtomVersionType = \<lparr>tp_name = ''autogentoo_cportage.AtomVersion'',
     tp_slots = [''tp_new'',
     ''tp_init'', ''tp_dealloc'', ''tp_repr'', ''tp_members'', ''tp_richcompare''],
     tp_methods = []\<rparr>"

definition PyAtomType :: type_object where
  "PyAtomType = \<lparr>tp_name = ''autogentoo_cportage.Atom'',
     tp_slots = [''tp_new'', ''tp_init'',
     ''tp_dealloc'', ''tp_repr'', ''tp_members'', ''tp_methods'', ''tp_richcompare'', ''tp_hash''],
     tp_methods = PyAtom_methods\<rparr>"

definition PyDependencyType :: type_object where
  "PyDependencyType = \<lparr>tp_name = ''autogentoo_cportage.Dependency'',
     tp_slots = [''tp_new'', ''tp_init'',
     ''tp_dealloc'', ''tp_members'', ''tp_iter'', ''tp_iternext''],
     tp_methods = []\<rparr>"

definition PyEbuildType :: type_object where
  "PyEbuildType = \<lparr>tp_name = ''autogentoo_cportage.Ebuild'',
     tp_slots = [''tp_new'', ''tp_init'',
     ''tp_dealloc'', ''tp_iternext'', ''tp_members'', ''tp_methods''],
     tp_methods = PyEbuild_methods\<rparr>"

definition PyPackageType :: type_object where
  "PyPackageType = \<lparr>tp_name = ''autogentoo_cportage.Package'',
     tp_slots = [''tp_new'', ''tp_init'',
     ''tp_dealloc'', ''tp_members'', ''tp_methods'', ''tp_iter''],
     tp_methods = PyPackage_methods\<rparr>"

definition PyPortageType :: type_object where
  "PyPortageType = \<lparr>tp_name = ''autogentoo_cportage.Portage'',
     tp_slots = [''tp_new'', ''tp_methods'',
     ''tp_init'', ''tp_dealloc''],
     tp_methods = PyPortage_methods\<rparr>"

definition PyUseFlagType :: type_object where
  "PyUseFlagType = \<lparr>tp_name = ''autogentoo_cportage.UseFlag'',
     tp_slots = [''tp_new'', ''tp_init'',
     ''tp_dealloc'', ''tp_members''],
     tp_methods = []\<rparr>"

definition PyRequiredUseType :: type_object where
  "PyRequiredUseType = \<lparr>tp_name = ''autogentoo_cportage.RequiredUse'',
     tp_slots = [''tp_new'',
     ''tp_init'', ''tp_dealloc'', ''tp_members'', ''tp_iter'', ''tp_iternext''],
     tp_methods = []\<rparr>"

definition TCPServerType :: type_object where
  "TCPServerType = \<lparr>tp_name = ''autogentoo_network.TCPServer'',
     tp_slots = [''tp_new'', ''tp_init'',
     ''tp_dealloc'', ''tp_repr'', ''tp_methods''],
     tp_methods = TCPServer_methods\<rparr>"

definition type_objects :: "(string \<times> type_object) list" where
  "type_objects =
    [(''AtomFlag'', PyAtomFlagType), (''AtomVersion'', PyAtomVersionType), (''Atom'', PyAtomType),
     (''Dependency'', PyDependencyType), (''Ebuild'', PyEbuildType), (''Package'', PyPackageType),
     (''Portage'', PyPortageType), (''UseFlag'', PyUseFlagType), (''RequiredUse'', PyRequiredUseType),
     (''TCPServer'', TCPServerType)]"

text \<open>The slot an operation of Python needs; other names are methods.\<close>

definition operation_slots :: "(string \<times> string) list" where
  "operation_slots = [(''__init__'', ''tp_init''), (''__next__'', ''tp_iternext''), (''__iter__'', ''tp_iter''),
     (''__hash__'', ''tp_hash''), (''__cmp__'', ''tp_richcompare'')]"

definition supports :: "type_object \<Rightarrow> string \<Rightarrow> bool" where
  "supports t opn = (case map_of operation_slots opn of Some slot \<Rightarrow> slot \<in> set (tp_slots t)
     | None \<Rightarrow> opn \<in> set (tp_methods t))"

text \<open>A type that compares and does not hash is not hashable: CPython inherits the two together.\<close>

definition hashable :: "type_object \<Rightarrow> bool" where
  "hashable t = (''tp_hash'' \<in> set (tp_slots t) \<or> ''tp_richcompare'' \<notin> set (tp_slots t))"

text \<open>The functions of the two modules.\<close>

definition cportage_methods :: "string list" where
  "cportage_methods = [''init'', ''get_portage'']"

definition network_methods :: "string list" where
  "network_methods = [''send_message'']"

section \<open>The stub file\<close>

definition stub_constants :: "string list" where
  "stub_constants =
    [''USE_OP_DISABLE'', ''USE_OP_ENABLE'', ''USE_OP_LEAST_ONE'', ''USE_OP_EXACT_ONE'', ''USE_OP_MOST_ONE'',
     ''USE_STATE_UNKNOWN'', ''USE_STATE_DISABLED'', ''USE_STATE_ENABLED'', ''ATOM_USE_DISABLE'',
     ''ATOM_USE_ENABLE'', ''ATOM_USE_ENABLE_IF_ON'', ''ATOM_USE_DISABLE_IF_OFF'', ''ATOM_USE_EQUAL'',
     ''ATOM_USE_OPPOSITE'', ''ATOM_DEFAULT_NONE'', ''ATOM_DEFAULT_ON'', ''ATOM_DEFAULT_OFF'', ''ATOM_VERSION_NONE'',
     ''ATOM_VERSION_E'', ''ATOM_VERSION_L'', ''ATOM_VERSION_G'', ''ATOM_VERSION_REV'', ''ATOM_VERSION_ALL'',
     ''ATOM_VERSION_GE'', ''ATOM_VERSION_LE'', ''ATOM_BLOCK_NONE'', ''ATOM_BLOCK_SOFT'', ''ATOM_BLOCK_HARD'',
     ''ATOM_SLOT_IGNORE'', ''ATOM_SLOT_REBUILD'', ''ATOM_PREFIX_ALPHA'', ''ATOM_PREFIX_BETA'', ''ATOM_PREFIX_PRE'',
     ''ATOM_PREFIX_RC'', ''ATOM_PREFIX_NONE'', ''ATOM_PREFIX_P'', ''ARCH_AMD64'', ''ARCH_X86'', ''ARCH_ARM'',
     ''ARCH_ARM64'', ''ARCH_HPPA'', ''ARCH_IA64'', ''ARCH_PPC'', ''ARCH_PPC64'', ''ARCH_SPARC'', ''ARCH_END'',
     ''KEYWORD_BROKEN'', ''KEYWORD_NONE'', ''KEYWORD_UNSTABLE'', ''KEYWORD_STABLE'']"

definition stub_attributes :: "(py_type \<times> string list) list" where
  "stub_attributes =
    [(TY_AtomVersion, [''raw'']), (TY_UseFlag, [''name'', ''state'']),
     (TY_AtomFlag, [''name'', ''option'', ''default'', ''next'']),
     (TY_Package, [''package_id'', ''category'', ''name'', ''key'', ''ebuilds'']),
     (TY_RequiredUse, [''name'', ''id'', ''operator'', ''depend'', ''next'']),
     (TY_Atom, [''id'', ''category'', ''name'', ''key'', ''repository'', ''slot'', ''sub_slot'', ''slot_opts'', ''range'', ''blocks'', ''revision'', ''version'', ''useflags'']),
     (TY_Dependency, [''use_operator'', ''use_condition'', ''atom'', ''children'', ''next'']),
     (TY_Ebuild, [''name'', ''category'', ''slot'', ''sub_slot'', ''package_key'', ''key'', ''ebuild'', ''path'', ''cache_file'', ''iuse'', ''depend'', ''bdepend'', ''rdepend'', ''pdepend'', ''required_use'', ''src_uri'', ''version'', ''metadata_init'', ''package'', ''older'', ''newer''])]"

definition stub_operations :: "(string \<times> string list) list" where
  "stub_operations =
    [(''AtomVersion'', [''__init__'', ''__cmp__'']), (''UseFlag'', [''__init__'']),
     (''AtomFlag'', [''__init__'', ''__next__'', ''__iter__'']),
     (''Package'', [''__init__'', ''add_ebuild'', ''match_atom'', ''__iter__'']),
     (''Portage'', [''__init__'', ''add_package'', ''get_package'', ''match_atom'', ''get_use_flag'', ''initialize_repository'']),
     (''RequiredUse'', [''__init__'', ''__next__'', ''__iter__'']),
     (''Atom'', [''__init__'', ''matches'', ''__hash__'']),
     (''Dependency'', [''__init__'', ''__next__'', ''__iter__'']),
     (''Ebuild'', [''__init__'', ''initialize_metadata'', ''__next__''])]"

definition stub_functions :: "string list" where
  "stub_functions = [''init'', ''get_portage'']"

text \<open>What the stub declares and the module does not have.\<close>

definition missing_attributes :: "(py_type \<times> string) list" where
  "missing_attributes = concat (map (\<lambda>(t, xs). map (Pair t) (filter (\<lambda>x. x \<notin> fst ` set (tp_members t)) xs)) stub_attributes)"

definition missing_operations :: "(string \<times> string) list" where
  "missing_operations = concat (map (\<lambda>(t, xs). case map_of type_objects t of
      None \<Rightarrow> map (Pair t) xs | Some ty \<Rightarrow> map (Pair t) (filter (\<lambda>x. \<not> supports ty x) xs)) stub_operations)"

lemmas type_defs = PyAtom_methods_def PyEbuild_methods_def PyPackage_methods_def PyPortage_methods_def TCPServer_methods_def
  PyAtomFlagType_def PyAtomVersionType_def PyAtomType_def PyDependencyType_def PyEbuildType_def
  PyPackageType_def PyPortageType_def PyUseFlagType_def PyRequiredUseType_def TCPServerType_def type_objects_def

lemma stub_constants_exist:
  "filter (\<lambda>c. c \<notin> set (map fst module_constants)) stub_constants = [''USE_STATE_UNKNOWN'']
    \<and> set (map fst module_constants) \<subseteq> set stub_constants"
  by code_simp

lemma stub_attributes_exist: "missing_attributes = [(TY_Atom, ''revision''), (TY_Ebuild, ''newer'')]"
  by code_simp

lemma stub_operations_exist: "missing_operations = []"
  by code_simp


text \<open>The values of the enums.\<close>

lemma enum_values:
  "(UNIV :: use_operator set) = {USE_OP_DISABLE, USE_OP_ENABLE, USE_OP_LEAST_ONE, USE_OP_EXACT_ONE, USE_OP_MOST_ONE}"
  "(UNIV :: use_state set) = {USE_STATE_DISABLED, USE_STATE_ENABLED}"
  "(UNIV :: atom_use set) = {ATOM_USE_DISABLE, ATOM_USE_ENABLE, ATOM_USE_ENABLE_IF_ON, ATOM_USE_DISABLE_IF_OFF, ATOM_USE_EQUAL, ATOM_USE_OPPOSITE}"
  "(UNIV :: atom_use_default set) = {ATOM_DEFAULT_NONE, ATOM_DEFAULT_ON, ATOM_DEFAULT_OFF}"
  "(UNIV :: atom_block set) = {ATOM_BLOCK_NONE, ATOM_BLOCK_SOFT, ATOM_BLOCK_HARD}"
  "(UNIV :: atom_slot set) = {ATOM_SLOT_IGNORE, ATOM_SLOT_REBUILD}"
  "(UNIV :: atom_version_pre set) = {ATOM_PREFIX_ALPHA, ATOM_PREFIX_BETA, ATOM_PREFIX_PRE, ATOM_PREFIX_RC, ATOM_PREFIX_NONE, ATOM_PREFIX_P}"
  "(UNIV :: arch set) = {ARCH_AMD64, ARCH_X86, ARCH_ARM, ARCH_ARM64, ARCH_HPPA, ARCH_IA64, ARCH_PPC, ARCH_PPC64, ARCH_SPARC}"
  "(UNIV :: keyword set) = {KEYWORD_BROKEN, KEYWORD_NONE, KEYWORD_UNSTABLE, KEYWORD_STABLE}"
  by (simp_all add: set_eq_iff) (metis use_operator.exhaust use_state.exhaust atom_use.exhaust atom_use_default.exhaust atom_block.exhaust atom_slot.exhaust atom_version_pre.exhaust arch.exhaust keyword.exhaust)+

lemma enum_ranges:
  "range use_operator_val = {0, 1, 2, 3, 4}"
  "range use_state_val = {0, 1}"
  "range atom_use_val = {0, 1, 2, 3, 4, 5}"
  "range use_default_val = {0, 1, 2}"
  "range (\<lambda>b. uint (block_val b)) = {0, 1, 2}"
  "range (\<lambda>b. uint (slot_val b)) = {0, 1}"
  "range prefix_val = {0, 1, 2, 3, 4, 5}"
  "range arch_val = {0, 1, 2, 3, 4, 5, 6, 7, 8}"
  "range keyword_val = {0, 1, 2, 3}"
  by (simp_all add: enum_values)

lemma constant_names: "distinct (map fst module_constants)"
  by code_simp

lemma constant_groups:
  "constants_of ''USE_OP_'' = [0, 1, 2, 3, 4]"
  "constants_of ''USE_STATE_'' = [0, 1]"
  "constants_of ''ATOM_USE_'' = [0, 1, 2, 3, 4, 5]"
  "constants_of ''ATOM_DEFAULT_'' = [0, 1, 2]"
  "constants_of ''ATOM_VERSION_'' = [0, 1, 2, 4, 9, 7, 5, 3]"
  "constants_of ''ATOM_BLOCK_'' = [0, 1, 2]"
  "constants_of ''ATOM_SLOT_'' = [0, 1]"
  "constants_of ''ATOM_PREFIX_'' = [0, 1, 2, 3, 4, 5]"
  "constants_of ''ARCH_'' = [0, 1, 2, 3, 4, 5, 6, 7, 8, 9]"
  "constants_of ''KEYWORD_'' = [0, 1, 2, 3]"
  by (simp_all add: constants_of_def module_constants_def ARCH_END_def range_consts)

text \<open>The constants of every enum are told apart by their values and are exactly the values its
  attributes can have.\<close>

theorem module_constants_complete:
  "distinct (map fst module_constants)
    \<and> (\<forall>pre \<in> set [''USE_OP_'', ''USE_STATE_'', ''ATOM_USE_'', ''ATOM_DEFAULT_'', ''ATOM_VERSION_'', ''ATOM_BLOCK_'',
         ''ATOM_SLOT_'', ''ATOM_PREFIX_'', ''ARCH_'', ''KEYWORD_'']. distinct (constants_of pre))
    \<and> set (constants_of ''USE_OP_'') = range use_operator_val
    \<and> set (constants_of ''USE_STATE_'') = range use_state_val
    \<and> set (constants_of ''ATOM_USE_'') = range atom_use_val
    \<and> set (constants_of ''ATOM_DEFAULT_'') = range use_default_val
    \<and> set (constants_of ''ATOM_BLOCK_'') = range (\<lambda>b. uint (block_val b))
    \<and> set (constants_of ''ATOM_SLOT_'') = range (\<lambda>b. uint (slot_val b))
    \<and> set (constants_of ''ATOM_PREFIX_'') = range prefix_val
    \<and> set (constants_of ''ARCH_'') = insert ARCH_END (range arch_val)
    \<and> set (constants_of ''KEYWORD_'') = range keyword_val"
  using constant_names by (auto simp: constant_groups enum_ranges ARCH_END_def)

text \<open>The fields of a message are the items of the tuple it becomes.\<close>

definition PyMessage_Fields :: "string list" where
  "PyMessage_Fields = [''token'', ''val1'', ''val2'', ''val3'', ''val4'', ''val5'', ''val6'', ''data'']"

lemma message_items: "PyMessage_FromMessageFrame f = Some (PyTuple xs) \<Longrightarrow> length xs = length PyMessage_Fields"
  by (auto simp: PyMessage_FromMessageFrame_def PyMessage_Fields_def Let_def split: bind_splits if_splits)

text \<open>Versions compare but have no hash.\<close>

lemma unhashable_types: "filter (\<lambda>(n, t). \<not> hashable t) type_objects = [(''AtomVersion'', PyAtomVersionType)]"
  by (simp add: type_defs hashable_def)

end
