(* ===== verification/ServerObject.thy ===== *)
theory ServerObject
  imports Server Objects Version
begin

text \<open>
  The Python object around the threads of autogentoo/network/tcp_server.c: its callback, \<open>repr\<close>, and
  deallocation. The lemmas count the references on callbacks over the life of a server, and say in
  which states of its threads the deallocation waits for them.
\<close>

section \<open>The callback\<close>

text \<open>The address of \<open>Py_None\<close> is a parameter. \<open>NETWORK_TYPE_UNIX\<close> is a path in the address.\<close>

record server_object =
  so_address :: Address
  so_worker_n :: nat
  so_callback :: U64
  so_world :: world

definition TCPServer_new_object :: "U64 \<Rightarrow> world \<Rightarrow> server_object" where
  "TCPServer_new_object none w = \<lparr>so_address = Net_Addr 0 0, so_worker_n = TCP_WORKER_COUNT,
     so_callback = none, so_world = py_xincref none w\<rparr>"

text \<open>The format O takes exactly one argument.\<close>

definition TCPServer_set_request_callback :: "server_object \<Rightarrow> U64 list \<Rightarrow> server_object \<times> py_reply" where
  "TCPServer_set_request_callback self args =
     (case args of
        [cb] \<Rightarrow> (self\<lparr>so_world := py_xincref cb (py_xdecref (so_callback self) (so_world self)), so_callback := cb\<rparr>,
                 Reply_None)
      | _ \<Rightarrow> (self, Raise_TypeError))"

definition TCPServer_repr :: "server_object \<Rightarrow> string" where
  "TCPServer_repr self =
     (case so_address self of
        Unix_Path path \<Rightarrow> ''TCPServer<path='' @ path @ '', workers='' @ dec (so_worker_n self) @ ''>''
      | Net_Addr port ip \<Rightarrow> ''TCPServer<port='' @ dec (unat port) @ '', workers='' @ dec (so_worker_n self) @ ''>'')"

text \<open>What deallocation does to Python objects when \<open>stop\<close> has returned or is not called; the
  reference on None is for a result that nobody takes.\<close>

definition TCPServer_dealloc_refs :: "U64 \<Rightarrow> server_object \<Rightarrow> world" where
  "TCPServer_dealloc_refs none self = py_xincref none (py_xdecref (so_callback self) (so_world self))"

lemma set_callback_balance:
  "py_balance (so_world (fst (TCPServer_set_request_callback s args))) x
     - (if so_callback (fst (TCPServer_set_request_callback s args)) = x then 1 else 0)
   = py_balance (so_world s) x - (if so_callback s = x then 1 else 0)"
  by (simp add: TCPServer_set_request_callback_def split: list.splits)

definition set_callbacks :: "server_object \<Rightarrow> U64 list list \<Rightarrow> server_object" where
  "set_callbacks s calls = foldl (\<lambda>s args. fst (TCPServer_set_request_callback s args)) s calls"

lemma set_callbacks_balance:
  "py_balance (so_world (set_callbacks s calls)) x - (if so_callback (set_callbacks s calls) = x then 1 else 0)
   = py_balance (so_world s) x - (if so_callback s = x then 1 else 0)"
proof (induction calls arbitrary: s)
  case (Cons c calls)
  then show ?case using set_callback_balance [of s c x] by (simp add: set_callbacks_def)
qed (simp add: set_callbacks_def)

text \<open>A server holds one reference of its current callback and none of the callbacks before, whatever
  \<open>set_request_callback\<close> is called with. Deallocation gives it back, but takes a reference of None
  that is lost.\<close>

theorem server_callback_references:
  "py_balance (so_world (set_callbacks (TCPServer_new_object none w) calls)) x
      = py_balance w x + (if so_callback (set_callbacks (TCPServer_new_object none w) calls) = x then 1 else 0)
    \<and> py_balance (TCPServer_dealloc_refs none (set_callbacks (TCPServer_new_object none w) calls)) x
      = py_balance w x + (if x = none then 1 else 0)"
  using set_callbacks_balance [of "TCPServer_new_object none w" calls x]
  by (simp add: TCPServer_dealloc_refs_def TCPServer_new_object_def split: if_splits)

section \<open>Deallocation and the threads\<close>

text \<open>\<open>TCPServer_dealloc\<close> calls \<open>stop\<close> only if \<open>is_alive\<close> is set.\<close>

definition dealloc_stops :: "server \<Rightarrow> bool" where
  "dealloc_stops s = is_alive s"

definition threads_running :: "server \<Rightarrow> bool" where
  "threads_running s \<longleftrightarrow> mpc s \<noteq> M_Done \<and> (\<forall>i < worker_n s. wpc s i \<noteq> W_Done)"

definition idle_inv :: "server \<Rightarrow> bool" where
  "idle_inv s \<longleftrightarrow> (spc s = S_Idle \<longrightarrow> keep_alive s \<and> (is_alive s \<longleftrightarrow> mpc s \<noteq> M_Start) \<and> threads_running s)"

lemma step_idle:
  assumes "step s e s'" "idle_inv s"
  shows "idle_inv s'"
  using assms
proof (cases rule: step.cases)
  case (step_worker i)
  then show ?thesis
    using assms(2) by (auto simp: idle_inv_def threads_running_def worker_step_def goto_def split: worker_pc.splits list.splits if_splits)
next
  case step_main
  then show ?thesis
    using assms(2) by (auto simp: idle_inv_def threads_running_def main_step_def broadcast_def split: main_pc.splits if_splits)
next
  case step_stop
  then show ?thesis
    by (auto simp: idle_inv_def stop_step_def broadcast_def split: stop_pc.splits if_splits)
qed (use assms(2) in \<open>auto simp: idle_inv_def threads_running_def goto_def\<close>)

text \<open>C31. Until somebody calls \<open>stop\<close>, all the threads of a started server run. Deallocation stops them
  exactly if the accepting thread has begun; a server that is dropped before, while the threads
  have been created and that one has not been scheduled, is freed under all of them.\<close>

theorem dealloc_before_accepting:
  assumes "reachable s" "spc s = S_Idle"
  shows "threads_running s \<and> (dealloc_stops s \<longleftrightarrow> mpc s \<noteq> M_Start)"
proof -
  have "idle_inv s"
    using assms(1)
  proof (induction rule: reachable.induct)
    case (reachable_start socket)
    then show ?case
      by (simp add: idle_inv_def threads_running_def TCPServer_start_def TCPServer_new_def)
  next
    case (reachable_step s e s')
    then show ?case using step_idle by blast
  qed
  then show ?thesis
    using assms(2) by (simp add: idle_inv_def dealloc_stops_def)
qed

lemma dealloc_before_accepting_witness:
  "threads_running (TCPServer_start 3 TCPServer_new) \<and> \<not> dealloc_stops (TCPServer_start 3 TCPServer_new)"
  using dealloc_before_accepting [OF reachable_start [of 3]] by (simp add: TCPServer_start_def TCPServer_new_def)

end
