(* ===== verification/Log.thy ===== *)
theory Log
  imports Prelude
begin

text \<open>
  The log of autogentoo/hacksaw/log.c, which the threads of the server and the Python thread share.
  A call prints a mark in its colour, the formatted message and the end of the line, between the
  lock and the unlock of a mutex; a step is one of these calls of the C library. Printing to a
  stream that was closed is undefined behaviour. The lemmas show that the lines of different
  threads are never mixed, unless \<open>lset\<close>, which takes no lock, changes the stream under a thread.
\<close>

section \<open>Levels\<close>

definition ANSI_RED :: string where "ANSI_RED = CHR 0x1B # ''[31m''"
definition ANSI_GREEN :: string where "ANSI_GREEN = CHR 0x1B # ''[32m''"
definition ANSI_YELLOW :: string where "ANSI_YELLOW = CHR 0x1B # ''[33m''"
definition ANSI_RESET :: string where "ANSI_RESET = CHR 0x1B # ''[0m''"
definition ANSI_BOLD :: string where "ANSI_BOLD = CHR 0x1B # ''[1m''"
definition ANSI_COLOR :: string where "ANSI_COLOR = CHR 0x1B # ''[39m''"

text \<open>The functions of the header; the debug levels are switched on in the file itself.\<close>

datatype level = Ldinfo | Ldwarning | Lderror | Lerror | Lwarning | Linfo

fun star_color :: "level \<Rightarrow> string" where
  "star_color Ldinfo = ANSI_GREEN"
| "star_color Ldwarning = ANSI_YELLOW"
| "star_color Lderror = ANSI_RED"
| "star_color Lerror = ANSI_RED"
| "star_color Lwarning = ANSI_YELLOW"
| "star_color Linfo = ANSI_GREEN"

definition log_head :: "level \<Rightarrow> string" where
  "log_head l = ANSI_BOLD @ star_color l @ '' * '' @ ANSI_COLOR"

definition log_tail :: string where
  "log_tail = ANSI_RESET @ [CHR 0x0A]"

section \<open>Threads that print\<close>

text \<open>Where a thread is in the macro \<open>AUTOGENTOO_LOG_PRINT\<close>, with the message its format gives.\<close>

datatype log_pc = L_Idle | L_Lock level string | L_Head level string | L_Body level string | L_Tail level string | L_Flush level string
  | L_Unlock level string

text \<open>Streams have numbers, 1 is stdout; \<open>printed\<close> records the lines that were finished, in order.\<close>

record logger =
  target :: "nat option"
  closed :: "nat set"
  content :: "nat \<Rightarrow> string"
  log_mutex :: "nat option"
  lpc :: "nat \<Rightarrow> log_pc"
  printed :: "(nat \<times> level \<times> string) list"

definition init_log :: logger where
  "init_log = \<lparr>target = Some 1, closed = {}, content = (\<lambda>_. []), log_mutex = None, lpc = (\<lambda>_. L_Idle), printed = []\<rparr>"

definition close_log :: "logger \<Rightarrow> logger option" where
  "close_log s = (case target s of None \<Rightarrow> None
     | Some f \<Rightarrow> if f \<in> closed s then None else Some (s\<lparr>closed := insert f (closed s)\<rparr>))"

definition lset :: "nat option \<Rightarrow> logger \<Rightarrow> logger" where
  "lset f s = s\<lparr>target := f\<rparr>"

definition fprintf :: "string \<Rightarrow> logger \<Rightarrow> logger option" where
  "fprintf txt s = (case target s of None \<Rightarrow> None
     | Some f \<Rightarrow> if f \<in> closed s then None else Some (s\<lparr>content := (content s)(f := content s f @ txt)\<rparr>))"

definition log_goto :: "nat \<Rightarrow> log_pc \<Rightarrow> logger \<Rightarrow> logger" where
  "log_goto t p s = s\<lparr>lpc := (lpc s)(t := p)\<rparr>"

text \<open>The next step of a thread: a thread that waits for the mutex has none, and \<open>Some None\<close> is
  undefined behaviour.\<close>

definition log_step :: "nat \<Rightarrow> logger \<Rightarrow> logger option option" where
  "log_step t s =
     (case lpc s t of
        L_Idle \<Rightarrow> None
      | L_Lock l m \<Rightarrow> if log_mutex s = None then Some (Some (log_goto t (L_Head l m) (s\<lparr>log_mutex := Some t\<rparr>))) else None
      | L_Head l m \<Rightarrow> Some (map_option (log_goto t (L_Body l m)) (fprintf (log_head l) s))
      | L_Body l m \<Rightarrow> Some (map_option (log_goto t (L_Tail l m)) (fprintf m s))
      | L_Tail l m \<Rightarrow> Some (map_option (log_goto t (L_Flush l m)) (fprintf log_tail s))
      | L_Flush l m \<Rightarrow> Some (map_option (log_goto t (L_Unlock l m)) (fprintf [] s))
      | L_Unlock l m \<Rightarrow> Some (Some (log_goto t L_Idle (s\<lparr>log_mutex := None, printed := printed s @ [(t, l, m)]\<rparr>))))"

text \<open>A call by a thread that is not in one, a step of a thread, or \<open>lset\<close>; None is an event that
  cannot happen or is undefined.\<close>

datatype log_event = Log_call nat level string | Log_step nat | Log_set "nat option"

fun log_exec :: "log_event \<Rightarrow> logger \<Rightarrow> logger option" where
  "log_exec (Log_call t l m) s = (if lpc s t = L_Idle then Some (log_goto t (L_Lock l m) s) else None)"
| "log_exec (Log_step t) s = (case log_step t s of Some r \<Rightarrow> r | None \<Rightarrow> None)"
| "log_exec (Log_set f) s = Some (lset f s)"

fun log_run :: "log_event list \<Rightarrow> logger \<Rightarrow> logger option" where
  "log_run [] s = Some s"
| "log_run (e # es) s = log_exec e s \<bind> log_run es"

section \<open>Whole lines\<close>

fun line :: "nat \<times> level \<times> string \<Rightarrow> string" where
  "line (t, l, m) = log_head l @ m @ log_tail"

text \<open>What the thread with the mutex has printed of its line.\<close>

fun part_of :: "log_pc \<Rightarrow> string option" where
  "part_of (L_Head l m) = Some []"
| "part_of (L_Body l m) = Some (log_head l)"
| "part_of (L_Tail l m) = Some (log_head l @ m)"
| "part_of (L_Flush l m) = Some (log_head l @ m @ log_tail)"
| "part_of (L_Unlock l m) = Some (log_head l @ m @ log_tail)"
| "part_of _ = None"

definition log_inv :: "nat \<Rightarrow> logger \<Rightarrow> bool" where
  "log_inv f s \<longleftrightarrow> target s = Some f \<and> closed s = {}
     \<and> (\<forall>t. part_of (lpc s t) \<noteq> None \<longleftrightarrow> log_mutex s = Some t)
     \<and> content s f = concat (map line (printed s))
         @ (case log_mutex s of None \<Rightarrow> [] | Some t \<Rightarrow> the (part_of (lpc s t)))"

fun sets :: "log_event \<Rightarrow> bool" where
  "sets (Log_set f) = True"
| "sets e = False"

lemma log_exec_inv:
  assumes inv: "log_inv f s" and e: "\<not> sets e" "log_exec e s = Some s'"
  shows "log_inv f s'"
proof (cases e)
  case (Log_call t l m)
  have "log_mutex s \<noteq> Some t" if "part_of (lpc s t) = None"
    using inv that unfolding log_inv_def by metis
  then show ?thesis
    using Log_call inv e(2) by (auto simp: log_inv_def log_goto_def split: if_splits option.splits)
next
  case (Log_step t)
  have holds: "log_mutex s = Some t" if "part_of (lpc s t) \<noteq> None"
    using inv that by (simp add: log_inv_def)
  show ?thesis
    using inv e(2) holds unfolding Log_step
    by (cases "lpc s t")
      (auto simp: log_inv_def log_step_def log_goto_def fprintf_def split: if_splits option.splits)
next
  case (Log_set g)
  then show ?thesis using e(1) by simp
qed

lemma log_run_inv: "log_inv f s \<Longrightarrow> \<forall>e \<in> set es. \<not> sets e \<Longrightarrow> log_run es s = Some s' \<Longrightarrow> log_inv f s'"
proof (induction es arbitrary: s)
  case (Cons e es)
  then obtain s1 where "log_exec e s = Some s1" "log_run es s1 = Some s'"
    by (auto split: bind_splits)
  then show ?case using Cons log_exec_inv by (metis list.set_intros)
qed simp

text \<open>The messages a thread has logged, and the one it is about to.\<close>

fun calls_of :: "nat \<Rightarrow> log_event list \<Rightarrow> (level \<times> string) list" where
  "calls_of t [] = []"
| "calls_of t (Log_call u l m # es) = (if u = t then (l, m) # calls_of t es else calls_of t es)"
| "calls_of t (e # es) = calls_of t es"

fun pending :: "log_pc \<Rightarrow> (level \<times> string) list" where
  "pending L_Idle = []"
| "pending (L_Lock l m) = [(l, m)]"
| "pending (L_Head l m) = [(l, m)]"
| "pending (L_Body l m) = [(l, m)]"
| "pending (L_Tail l m) = [(l, m)]"
| "pending (L_Flush l m) = [(l, m)]"
| "pending (L_Unlock l m) = [(l, m)]"

definition logged :: "nat \<Rightarrow> logger \<Rightarrow> (level \<times> string) list" where
  "logged t s = map snd (filter (\<lambda>(u, lm). u = t) (printed s)) @ pending (lpc s t)"

lemma log_exec_logged:
  assumes "log_exec e s = Some s'"
  shows "logged t s' = logged t s @ calls_of t [e]"
proof (cases e)
  case (Log_step u)
  then show ?thesis
    using assms by (cases "lpc s u") (auto simp: log_step_def log_goto_def fprintf_def logged_def split: if_splits option.splits)
qed (use assms in \<open>auto simp: log_goto_def logged_def lset_def split: if_splits\<close>)

lemma calls_of_Cons: "calls_of t (e # es) = calls_of t [e] @ calls_of t es"
  by (cases e) auto

lemma log_run_logged: "log_run es s = Some s' \<Longrightarrow> logged t s' = logged t s @ calls_of t es"
proof (induction es arbitrary: s)
  case (Cons e es)
  then obtain s1 where "log_exec e s = Some s1" "log_run es s1 = Some s'"
    by (auto split: bind_splits)
  then show ?case using Cons.IH [of s1] log_exec_logged [of e s s1 t] calls_of_Cons [of t e es] by simp
qed simp

lemma init_log_inv: "log_inv 1 init_log"
  by (simp add: log_inv_def init_log_def)

text \<open>A thread that is not idle is not alone: the one with the mutex can go on.\<close>

lemma log_progress:
  assumes inv: "log_inv f s" and t: "lpc s t \<noteq> L_Idle"
  shows "\<exists>u s'. log_step u s = Some (Some s')"
proof (cases "log_mutex s")
  case None
  then have "part_of (lpc s t) = None"
    using inv by (auto simp: log_inv_def)
  then obtain l m where "lpc s t = L_Lock l m"
    using t by (cases "lpc s t") auto
  then show ?thesis
    using None by (intro exI [of _ t]) (simp add: log_step_def)
next
  case (Some u)
  then have "part_of (lpc s u) \<noteq> None" "target s = Some f" "closed s = {}"
    using inv by (simp_all add: log_inv_def)
  then show ?thesis
    by (intro exI [of _ u]) (cases "lpc s u"; simp add: log_step_def fprintf_def)
qed

text \<open>C13. However the threads are scheduled, as long as the stream is not changed the log is a sequence
  of whole lines, followed by the beginning of the line of the thread that holds the mutex; every
  thread finds its messages in the order it logged them; and while a message is on its way some
  thread can go on.\<close>

theorem log_lines_whole:
  assumes "log_run es init_log = Some s" "\<forall>e \<in> set es. \<not> sets e"
  shows "\<exists>rest. content s 1 = concat (map line (printed s)) @ rest \<and> (log_mutex s = None \<longrightarrow> rest = [])
    \<and> (\<forall>t. map snd (filter (\<lambda>(u, lm). u = t) (printed s)) @ pending (lpc s t) = calls_of t es)
    \<and> ((\<exists>t. lpc s t \<noteq> L_Idle) \<longrightarrow> (\<exists>t s'. log_step t s = Some (Some s')))"
proof -
  have inv: "log_inv 1 s"
    using log_run_inv [OF init_log_inv assms(2,1)] .
  have "logged t s = calls_of t es" for t
    using log_run_logged [OF assms(1), of t] by (simp add: logged_def init_log_def)
  moreover have "(\<exists>t. lpc s t \<noteq> L_Idle) \<longrightarrow> (\<exists>t s'. log_step t s = Some (Some s'))"
    using log_progress [OF inv] by blast
  ultimately show ?thesis
    using inv by (auto simp: log_inv_def logged_def split: option.splits)
qed

definition two_lines :: "log_event list" where
  "two_lines = [Log_call 0 Linfo ''a'', Log_call 1 Lerror ''b'', Log_step 0, Log_step 0, Log_step 0, Log_step 0, Log_step 0,
     Log_step 0, Log_step 1, Log_step 1, Log_step 1, Log_step 1, Log_step 1, Log_step 1]"

lemmas log_eval = init_log_def log_goto_def log_step_def fprintf_def lset_def

lemma log_lines_whole_witness:
  "\<exists>s. log_run two_lines init_log = Some s \<and> content s 1 = line (0, Linfo, ''a'') @ line (1, Lerror, ''b'')"
proof -
  have "\<exists>s. log_run two_lines init_log = Some s \<and> printed s = [(0, Linfo, ''a''), (1, Lerror, ''b'')] \<and> log_mutex s = None"
    by (simp add: two_lines_def log_eval)
  then obtain s where s: "log_run two_lines init_log = Some s" "printed s = [(0, Linfo, ''a''), (1, Lerror, ''b'')]"
      "log_mutex s = None"
    by blast
  moreover have "\<forall>e \<in> set two_lines. \<not> sets e"
    by (simp add: two_lines_def)
  ultimately show ?thesis
    using log_lines_whole [of two_lines s] by fastforce
qed

text \<open>\<open>lset\<close> in the middle of a call splits its line between two streams.\<close>

lemma lset_splits_line:
  "\<exists>s. log_run [Log_call 0 Linfo ''a'', Log_step 0, Log_step 0, Log_set (Some 2), Log_step 0, Log_step 0] init_log = Some s
    \<and> content s 1 = log_head Linfo \<and> content s 2 = ''a'' @ log_tail"
  by (simp add: log_eval)

end
