(* ===== verification/Tests.thy ===== *)
theory Tests
  imports Repository HashMap Module DependText RequiredUseText
begin

text \<open>
  The tests of the repository, autogentoo/test/cportage_test.c, cportage_test.py and hacksaw_test.c,
  on the definitions: every lemma states what the test of its name asserts. Where a text is parsed
  the lemma starts from the text, or from its tokens with the actions of the lexer on them.
\<close>

section \<open>Versions\<close>

lemma test_version_compare_1:
  "PyAtomVersion_richcompare (parse_version ''1.2.0'') (parse_version ''1.0.0'') Py_GT = Some True"
  "PyAtomVersion_richcompare (parse_version ''1.0.0'') (parse_version ''1.0.0'') Py_EQ = Some True"
  by code_simp+

lemma test_version_compare_2:
  "PyAtomVersion_richcompare (parse_version ''1.2.9'') (parse_version ''1.3.0'') Py_LT = Some True"
  by code_simp

lemma test_version_revision:
  "PyAtomVersion_richcompare (parse_version ''2.2.34-r2'') (parse_version ''2.2.34-r1'') Py_GT = Some True"
  by code_simp

section \<open>Atoms\<close>

lemma lut_new32: "lut_inv (lut_new 32)" "lut_room (lut_new 32)" "lut_plain (lut_new 32)" "lut_size (lut_new 32) \<noteq> 0"
  by (simp_all add: lut_new_inv lut_new_room lut_new_plain) (simp add: lut_new_def)

lemma test_id_match:
  "\<exists>a b. atom_init (Some (lut_new 32)) PyAtom_new ''cat/pkg-1.2.34'' = Some (0, a)
    \<and> atom_init (Some (lut_new 32)) PyAtom_new ''cat/pkg'' = Some (0, b) \<and> atom_id a = atom_id b
    \<and> atom_category a = Some ''cat'' \<and> atom_name a = Some ''pkg''
    \<and> full_version (hd (atom_version a)) = Some ''1.2.34'' \<and> atom_useflags a = []"
proof -
  have v: "version_string ''pkg-1.2.34'' = Some ''1.2.34''" "valid_version ''1.2.34''"
      "find_version ''pkg-1.2.34'' = Some 3" "full_version (hd (parse_version ''1.2.34'')) = Some ''1.2.34''"
      "find_version ''pkg'' = None" "version_string ''pkg'' = None"
    by code_simp+
  have s: "strchr ''cat/pkg-1.2.34'' CHR ''/'' = Some 3" "strchr ''cat/pkg'' CHR ''/'' = Some 3" by simp_all
  obtain a where a: "atom_init (Some (lut_new 32)) PyAtom_new ''cat/pkg-1.2.34'' = Some (0, a)"
      "atom_category a = Some ''cat''" "atom_name a = Some ''pkg''" "atom_version a = parse_version ''1.2.34''"
      "Some (atom_id a, atom_id_flag a) = lut_get_id (lut_new 32) ''cat/pkg''" "atom_useflags a = []"
    using atom_init_cases [OF s(1) lut_new32(4), of PyAtom_new] v(1-3) by (simp del: not_ex) blast
  obtain b where b: "atom_init (Some (lut_new 32)) PyAtom_new ''cat/pkg'' = Some (0, b)"
      "Some (atom_id b, atom_id_flag b) = lut_get_id (lut_new 32) ''cat/pkg''"
    using atom_init_cases [OF s(2) lut_new32(4), of PyAtom_new] v(5,6) by simp blast
  have "Some (atom_id a, atom_id_flag a) = Some (atom_id b, atom_id_flag b)"
    unfolding a(5) b(2) ..
  then show ?thesis using a b(1) v(4) by auto
qed

lemma test_atom_1:
  "\<exists>a. atom_init (Some (lut_new 32)) PyAtom_new ''cat/pkg-1.2.34'' = Some (0, a)
    \<and> atom_category a = Some ''cat'' \<and> atom_name a = Some ''pkg''
    \<and> full_version (hd (atom_version a)) = Some ''1.2.34'' \<and> atom_useflags a = []"
  using test_id_match by blast

definition atom_asserted ::
    "Atom \<Rightarrow> U32 \<times> atom_block \<times> string option \<times> string option \<times> string option \<times> (string option \<times> atom_use) list" where
  "atom_asserted b = (atom_range b, atom_blocks b, atom_slot b, atom_sub_slot b, atom_repository b,
     map (\<lambda>f. (flag_name f, flag_option f)) (atom_useflags b))"

lemma test_atom_full:
  "map_option (map (\<lambda>e. case e of E_Atom b \<Rightarrow> Some (atom_asserted b) | _ \<Rightarrow> None))
    (parse_depend [Tok CHR ''!'', Tok CHR ''!'', Tok CHR ''>'', Tok CHR ''='', ATOM PyAtom_new,
       slot_action '':3/32'', REPOSITORY ''repository'',
       atomflags_action ''[use_enable, -use_disable,use_equal=, !use_opposite=,!disable_if_off?, enable_if_on?]''])
   = Some [Some (ATOM_VERSION_GE, ATOM_BLOCK_HARD, Some ''3'', Some ''32'', Some ''repository'',
       [(Some ''use_enable'', ATOM_USE_ENABLE), (Some ''use_disable'', ATOM_USE_DISABLE),
        (Some ''use_equal'', ATOM_USE_EQUAL), (Some ''use_opposite'', ATOM_USE_OPPOSITE),
        (Some ''disable_if_off'', ATOM_USE_DISABLE_IF_OFF), (Some ''enable_if_on'', ATOM_USE_ENABLE_IF_ON)])]"
  by code_simp

lemma test_atom_slot:
  "slot_action '':3'' = SLOT (Some ''3'') None ATOM_SLOT_IGNORE"
  "slot_action '':83/5'' = SLOT (Some ''83'') (Some ''5'') ATOM_SLOT_IGNORE"
  by code_simp+

section \<open>Dependencies\<close>

lemma test_parse_2:
  "map_option (map (\<lambda>e. case e of E_Use t opt es \<Rightarrow>
        Some (t, opt, map (\<lambda>e. case e of E_Atom b \<Rightarrow> Some (atom_range b) | _ \<Rightarrow> None) es) | _ \<Rightarrow> None))
     (parse_depend [use_select_action ''use1?'', Tok CHR ''('', Tok CHR ''>'', Tok CHR ''='', ATOM PyAtom_new,
        ATOM PyAtom_new, Tok CHR '')''])
   = Some [Some (Some ''use1'', USE_OP_ENABLE, [Some ATOM_VERSION_GE, Some ATOM_VERSION_ALL])]"
  by code_simp

lemma test_parse_invalid:
  "parse_required_use [R_Select USE_OP_MOST_ONE, R_Char CHR ''('', R_Ident ''use_flag''] = None"
  "parse_depend [use_select_action ''use?''] = None"
  by code_simp+

text \<open>The lexers on the texts of the tests, for both choices of a rule.\<close>

lemma test_texts:
  "required_use_lex first_rule '' ?? '' = Lexed [R_Select USE_OP_MOST_ONE]"
  "required_use_lex longest_rule ''?? ( use_flag''
    = Lexed [R_Select USE_OP_MOST_ONE, R_Char CHR ''('', R_Ident ''use_flag'']"
  "depend_lex first_rule None ''use?'' = Lexed [use_select_action ''use?'']"
  "depend_lex longest_rule None ''use?'' = Lexed [use_select_action ''use?'']"
  by code_simp+

lemma test_required_use_error:
  "\<exists>s'. RequiredUse_of_text first_rule abort addr self '' ?? '' s = Some ((- 1, Some RuntimeError, self), s')"
proof -
  have "parse_required_use [R_Select USE_OP_MOST_ONE] = None" by code_simp
  then show ?thesis
    by (simp add: RequiredUse_of_text_def on_tokens_def test_texts(1) PyRequiredUse_init_def required_use_parse_def)
qed

lemma test_required_use_double:
  assumes "rule_choice pick"
  shows "\<exists>p k. RequiredUse_of_text pick abort spaced self ''|| ( sna uxa )'' (empty_flags, 0)
    = Some ((0, None, [RequiredUse None 0 USE_OP_LEAST_ONE
        [RequiredUse (Some ''sna'') (target_id p (Some ''sna'')) USE_OP_ENABLE [],
         RequiredUse (Some ''uxa'') (target_id p (Some ''uxa'')) USE_OP_ENABLE []]]), p, k)"
proof -
  let ?es = "[U_Cond None USE_OP_LEAST_ONE [U_Flag ''sna'' USE_OP_ENABLE, U_Flag ''uxa'' USE_OP_ENABLE]]"
  have es: "\<forall>e \<in> set ?es. ru_written e" "rus_text ?es = ''|| ( sna uxa )''"
    by code_simp+
  have ready: "flags_ready spaced 256 (length (rus_text ?es) + 0) empty_flags 0"
    by (rule fresh_flags_ready) (simp add: es(2))
  obtain p k where "required_use_parse_text pick abort spaced (rus_text ?es) (empty_flags, 0)
      = Some (link (map (ru_nodes p) ?es), p, k)"
    by (rule required_use_text_nodes [OF assms _ es(1) ready]) simp
  then show ?thesis
    unfolding es(2) by (intro exI [of _ p] exI [of _ k]) (simp add: RequiredUse_of_text_parse target_id_def)
qed

lemma test_atom_slot_text:
  "\<exists>s a. Atom_of_text first_rule (lut_new 32) (\<lambda>_ s. s) spaced PyAtom_new ''cat2/pkg3-2.2.34:83/5'' (empty_flags, 0)
      = Some ((0, None, a), s)
    \<and> atom_slot a = Some ''83'' \<and> atom_sub_slot a = Some ''5''"
proof -
  let ?w = "\<lparr>wr_blocks = ATOM_BLOCK_NONE, wr_range = ATOM_VERSION_ALL, wr_category = ''cat2'', wr_name = ''pkg3'',
     wr_version = Some ([num 2, num 2, num 34], None), wr_slot = Some (''83'', Some ''5''), wr_mark = None,
     wr_repository = None, wr_flags = []\<rparr>"
  have names: "accepts pat_identifier ''cat2''" "accepts pat_identifier ''pkg3''" "accepts pat_slotname ''83''"
    "accepts pat_slotname ''5''" "range_text ATOM_VERSION_ALL \<noteq> None"
    by code_simp+
  then have ok: "\<forall>d \<in> set [D_Atom ?w]. dep_ok d"
    by (simp add: written_ok_def bounded_def version_shape_def rev_of_def)
  have whole: "deps_text [D_Atom ?w] = ''cat2/pkg3-2.2.34:83/5''"
    by code_simp
  have ready: "flags_ready spaced 256 (length (deps_text [D_Atom ?w]) + 0) empty_flags 0"
    by (rule fresh_flags_ready) (simp add: whole)
  have "lut_size (lut_new 32) \<noteq> 0" by (simp add: lut_new_def)
  then obtain es p k where es: "list_all2 (denotes (lut_new 32)) [D_Atom ?w] es"
      "depend_parse_text first_rule (lut_new 32) (\<lambda>_ s. s) spaced (deps_text [D_Atom ?w]) (empty_flags, 0)
        = Some (map (node_of p) es, p, k)"
    by (rule depend_text_nodes [OF first_choice.rule_choice_axioms _ _ ok ready]) simp
  obtain e where e: "es = [e]" "denotes (lut_new 32) (D_Atom ?w) e" using es(1) by (auto simp: list_all2_Cons1)
  then obtain a where "e = E_Atom a" "atom_denotes (lut_new 32) ?w a" by (cases e) auto
  then show ?thesis
    using es(2) e(1) unfolding whole
    by (intro exI [of _ "(p, k)"] exI [of _ a]) (simp add: Atom_of_text_parse atom_denotes_def)
qed

section \<open>Tables\<close>

lemma test_lut:
  "\<exists>lut w i. lut_insert (lut_new 32) no_world ''key'' 0xfafbef0adccccccc 0 = Some (lut, w, i)
    \<and> lut_get lut i = Some 0xfafbef0adccccccc \<and> lut_get_id lut ''key'' = Some (i, LUT_FLAG_EXISTS)"
proof -
  have "caller_flags 0" by (simp add: caller_flags_def plain_flags_def has_flag_def)
  from lut_insert_map [OF lut_new32(1-3) this, of no_world "''key''" "0xfafbef0adccccccc"]
  obtain lut w i where "lut_insert (lut_new 32) no_world ''key'' 0xfafbef0adccccccc 0 = Some (lut, w, i)"
      "lut_inv lut" "lut_map lut ''key'' = Some (i, 0xfafbef0adccccccc)" by auto
  then show ?thesis using lut_get_Some(1) lut_get_id_found by blast
qed

text \<open>The threshold 0.8 as a double. The object is at 16 and has one reference.\<close>

lemma test_map:
  "\<exists>m w w'. map_insert (map_new 32 (7205759403792794, 53)) ''key'' 16
        \<lparr>objs = [16 \<mapsto> 1], destroyed = [], py_calls = []\<rparr> = Some (m, w)
    \<and> map_get m ''key'' = Some 16 \<and> objs w 16 = Some 2
    \<and> object_decref 16 w = Some w' \<and> objs w' 16 = Some 1"
proof -
  let ?w = "\<lparr>objs = [16 \<mapsto> 1], destroyed = [], py_calls = []\<rparr> :: world"
  let ?m = "map_new 32 (7205759403792794, 53)"
  have m: "map_inv ?m" using map_new_inv [of 32] by simp
  moreover have "map_size ?m * 2 \<noteq> 0" "live ?w 16" by (simp_all add: map_new_def live_def)
  ultimately obtain m' w where m': "map_insert ?m ''key'' 16 ?w = Some (m', w)" "map_inv m'"
      "map_lookup m' ''key'' = Some 16" "object_incref 16 ?w = Some w"
    using map_insert_lookup [of ?m ?w 16 "''key''"] by auto
  moreover have "map_get m' ''key'' = Some 16"
    using map_get_lookup [OF m'(2), of "''key''"] m'(3) by simp
  ultimately show ?thesis
    by (auto simp: object_defs)
qed

section \<open>Packages\<close>

definition test_store :: store where
  "test_store = \<lparr>st_ebuilds = [24 \<mapsto> PyEbuild_new\<lparr>eb_version := parse_version ''9.3.0-r1'', eb_package_key := Some ''sys-devel/gcc''\<rparr>],
     st_packages = [16 \<mapsto> PyPackage_new\<lparr>pkg_key := Some ''sys-devel/gcc''\<rparr>], st_world = no_world\<rparr>"

lemma test_package_key:
  "\<exists>self st i st'. PyPortage_add_package PyPortage_init test_store [Arg_Package 16] = Some (self, st, Py_None)
    \<and> map_option pkg_package_id (st_packages st 16) = Some i \<and> py_balance (st_world st) 16 = 1
    \<and> PyPortage_get_package self st [i] = Some (st', Py_Obj 16) \<and> py_balance (st_world st') 16 = 2"
proof -
  let ?t = "lut_new PORTAGE_INITIAL_PKG_LUT_SIZE"
  have "lut_inv ?t" "lut_room ?t"
    by (simp_all add: lut_new_inv lut_new_room PORTAGE_INITIAL_PKG_LUT_SIZE_def)
  then obtain t i where t: "lut_insert ?t no_world ''sys-devel/gcc'' 16 LUT_FLAG_PYTHON = Some (t, py_xincref 16 no_world, i)"
      "lut_inv t" "lut_map t = [''sys-devel/gcc'' \<mapsto> (i, 16)]"
    using lut_python_insert [of ?t "''sys-devel/gcc''" no_world 16]
    by (auto simp: lut_new_map lut_python_def lut_nodes_new)
  have "lut_get t i = Some 16"
    using lut_get_Some(1) [OF t(2)] t(3) by simp
  then show ?thesis
    using t(1) by (simp add: PyPortage_add_package_def PyPortage_init_def test_store_def set_package_id_def
        PyPortage_get_package_def with_world_def py_balance_def py_xincref_def no_world_def)
qed

lemma test_package:
  "\<exists>st. PyPackage_add_ebuild test_store 16 [Arg_Ebuild 24] = Some (st, Py_None)
    \<and> PyPackage_add_ebuild st 16 [Arg_Ebuild 24] = Some (st, Py_Raise RuntimeError)"
  by (simp add: PyPackage_add_ebuild_def test_store_def PyPackage_new_def PyEbuild_new_def set_older_def
      set_package_def add_ebuild_walk.simps with_world_def Let_def)

lemma test_init_error: "snd (PyCportage_Init g [(p, False)]) = Py_Raise TypeError"
  by (simp add: PyCportage_Init_def)

end
