(* ===== verification/Spec2Isabelle.thy ===== *)
theory Spec2Isabelle
  imports Version Repository MetadataText Linked Stop ElementSet SmallMap HashMap Construct Module ServerObject Log Tests
begin

text \<open>
  The C code of AutoGentoo: the library hacksaw (containers, hashing, reference counting), the
  Python extension cportage (packages, ebuilds, versions and atoms of a Gentoo repository), and the
  Python extension network (a TCP server with worker threads and its client). All paths below are
  under src/autogentoo/.

  \<^bold>\<open>How the parts work together.\<close> A \<open>Portage\<close> object owns two lookup tables of hacksaw: the packages by
  \<open>category/name\<close> and the global use flags. \<open>initialize_repository\<close> walks over a metadata cache;
  for each file it makes an ebuild (\<open>ebuild_init\<close>, which parses the file name as an atom with a
  version), finds or makes its package in the table, and files the ebuild in the package's chain,
  newest first (\<open>add_ebuild\<close>). \<open>match_atom\<close> looks the package of an atom up by the id its key has in
  the table and returns the first ebuild of the chain that the version range of the atom admits.
  \<open>metadata_init\<close> reads the cache file of an ebuild line by line. The server takes requests from a
  queue of hacksaw in its workers, converts them to Python tuples for a callback, and sends back
  what the callback returns.

  \<^bold>\<open>Conventions.\<close> A result None of a definition is undefined behaviour of the C code, or the end of
  the process by an assert; errors the code reports are values. Machine integers are words of their
  width where they can wrap; a C int whose overflow is undefined behaviour is checked (\<open>sub_I32\<close>,
  \<open>count_up\<close>). C strings are lists of characters without the terminating NUL, pointers are
  addresses with 0 for NULL, and allocation succeeds. Library code is a parameter: the choice
  of a generated lexer between rules that match, the file system, sockets, \<open>realpath\<close>, callbacks
  and comparison functions, and the addresses the allocator returns. What the theorems assume of
  them are hypotheses, and each theorem with hypotheses is followed by an instance of it.

  \<^bold>\<open>The theories.\<close>
  \<^item> Prelude: words, C strings (\<open>strcmp\<close>, \<open>strtol\<close>, \<open>strtok\<close>), the products of a double and an
    integer that decide when a table grows, and lemmas on tables of buckets.
  \<^item> Murmur: \<open>map_get_hash\<close> of hacksaw/map.c on bytes.
  \<^item> Objects: the macros of hacksaw/object.h on a store of counts, with the locale \<open>ref_counting\<close>.
  \<^item> Lut, LutSize: hacksaw/lut.c. A bucket is a list of nodes; an id is made of the hash and the
    number of older keys with that hash. The invariant \<open>lut_inv\<close>, insertion as map update across
    reallocation, the interface \<open>id_table\<close>, the references on Python objects, and the bound on the
    size of the table.
  \<^item> Version: versions of cportage/atom.c, their parser, \<open>atom_version_compare\<close> and the operators of
    Python; what the comparison decides for numbers and suffixes, a final star, and leading zeros, and
    where it is no order.
  \<^item> Atom: \<open>atom_init\<close>, printing, comparison, hash and flags of atoms.
  \<^item> Package: the chain of ebuilds of cportage/package.c on a store of ebuilds and packages.
  \<^item> Use: the nodes of use.c and dependency.c and the table of global use flags.
  \<^item> FlagStore: registering many use flags, with room in the table and unused addresses.
  \<^item> Grammar, ReqUse: the grammars of depend.y and requireduse.y as inductive relations, parsers that
    are sound and complete for them, the actions of the lexer of depend.y, and the nodes the actions
    of the grammars build, with the ids of their flags.
  \<^item> Regex, DependLexer: patterns as regular expressions matched by derivatives, the locale
    \<open>rule_choice\<close> with the first matching rule and the longest match as its interpretations, and a
    lexer that runs over a text; the macros, rules and actions of the lexer of depend.y, and which rule
    takes each kind of token from the front of a text.
  \<^item> DependText, RequiredUseText: dependencies and conditions as they are written, with the lexer of
    requireduse.y; the tokens of a written text, and the nodes of the object made from it, for every
    choice of rules.
  \<^item> MetadataText: a cache file read with these parsers, from its bytes to the nodes, and the file of
    data/test-repo as an instance.
  \<^item> Construct: the constructors of atom.c, dependency.c, use.c and ebuild.c on top of the parsers, and
    the copies they make between structs.
  \<^item> Portage, Repository: \<open>ebuild_init\<close>, keywords and IUSE of ebuild.c, every method of portage.c, and
    \<open>initialize_repository\<close> over a whole cache. \<open>catalog\<close> relates the tables and chains to a map from
    keys to shelves of ebuilds.
  \<^item> Metadata: the loop of \<open>ebuild_metadata_init\<close> over the lines of a cache file.
  \<^item> Lifetime: the deallocation functions on a heap of reference counts; \<open>balanced\<close> says that every
    count is the number of references, and releasing one then frees exactly what is unreachable.
  \<^item> Members: the member tables of the Python types against the structs of the headers.
  \<^item> Linked: linked_vector.c, queue.c, stack.c and queue_set.c on a store of nodes, with the locales
    \<open>fifo_queue\<close> and \<open>lifo_stack\<close>.
  \<^item> Vector, ElementSet, SmallMap, Strings, HashMap: vector.c, set.c, small_map.c, string_vector.c with
    util.c, and map.c, the last with the locale \<open>keyed_store\<close>. Memory is a list of cells that may be
    unwritten.
  \<^item> Message: network/message.c, tcp_client.c, \<open>send_message\<close> of network/module.c, and what a worker of
    tcp_server.c does with one request, on byte streams whose reads may be short.
  \<^item> Module: what an import registers, constants and type objects against the stub file, and the
    references on the global catalogue.
  \<^item> Log: log.c as a transition system of threads that print lines.
  \<^item> ServerObject: callback, \<open>repr\<close> and deallocation of the server.
  \<^item> Server, Stop: the threads of tcp_server.c as a transition system, its invariants, and when
    \<open>stop\<close> returns.
  \<^item> Tests: what the tests under autogentoo/test assert of versions, atoms, parsers, tables and
    packages, on the definitions.

  \<^bold>\<open>What is shown.\<close> The first property below follows a whole cache from its directories to the answer
  of a lookup; it rests on the properties of the table, the version comparison and the chain.
  A second one follows a cache file from its bytes to the nodes of its dependencies; it rests on the
  lexers, the grammars and the table of flags. The containers refine maps, sets, queues and stacks; counted references balance; the server takes
  requests in order and answers each once. Other properties state where the code does something
  else than it means to: what is cut, lost, freed twice, or waits for ever.

  \<^bold>\<open>Bounds.\<close> Every loop is structural recursion, terminates by a measure, or is a partial function
  that the theorems show to return: \<open>add_ebuild_walk\<close> and \<open>match_atom_walk\<close> on chains without
  circles, \<open>release\<close> on balanced heaps, the list walks on well-formed lists. No fuel is used.
  Hypotheses bound the numbers of versions by \<open>2 ^ 31\<close> (an int), tables by \<open>2 ^ 50\<close> buckets (exact in
  a double), and the ids of one hash by \<open>2 ^ 16\<close>.

  \<^bold>\<open>Not modelled.\<close> The automata the generator makes: a lexer takes some rule that matches, as
  \<open>rule_choice\<close> says, and a parser is taken to follow its grammar. The texts of the theorems are a
  normal form with one blank between elements and no version with a letter or a star; the lexers
  themselves are defined on every text. What the actions of a parser
  have registered when it gives up is a parameter. Freeing of the C strings an object owns; the
  control flow of pthread and CPython beyond what their documentation promises; the Python programs
  and the tests.
\<close>

end
